(* ===== verification/KErrors.thy ===== *)
theory KErrors
  imports Prelude
begin

text \<open>
  \<open>kernel/errors/errors.go\<close>: the error vocabulary of the control plane. A Go \<open>error\<close> value is one
  of the three shapes the sources build: a \<open>*errors.Error\<close> (a code, a message, an optional
  cause), an error of another package that wraps nothing, and the result of \<open>fmt.Errorf\<close> with
  \<open>%w\<close> (its text, and the error it wraps). Fallible code returns \<open>goerr + 'a\<close>.
\<close>

datatype ecode =
    CodeInvalidArgument | CodeNotFound | CodeUnauthorized | CodeInternal
  | CodeUnavailable | CodeAlreadyExists | CodeResourceExhausted

fun code_text :: "ecode \<Rightarrow> string" where
  "code_text CodeInvalidArgument = ''invalid_argument''"
| "code_text CodeNotFound = ''not_found''"
| "code_text CodeUnauthorized = ''unauthorized''"
| "code_text CodeInternal = ''internal''"
| "code_text CodeUnavailable = ''unavailable''"
| "code_text CodeAlreadyExists = ''already_exists''"
| "code_text CodeResourceExhausted = ''resource_exhausted''"

datatype goerr =
    KError ecode string "goerr option"
  | Plain string
  | Wrapped string goerr

type_synonym 'a result = "goerr + 'a"

definition New :: "ecode \<Rightarrow> string \<Rightarrow> goerr" where
  "New c m = KError c m None"

definition Wrap :: "ecode \<Rightarrow> string \<Rightarrow> goerr \<Rightarrow> goerr" where
  "Wrap c m cause = KError c m (Some cause)"

fun Error :: "goerr \<Rightarrow> string" where
  "Error (KError c m (Some cause)) = ''['' @ code_text c @ ''] '' @ m @ '': '' @ Error cause"
| "Error (KError c m None) = ''['' @ code_text c @ ''] '' @ m"
| "Error (Plain m) = m"
| "Error (Wrapped m _) = m"

text \<open>\<open>fmt.Errorf("p: %w", err)\<close>.\<close>

definition Errorf_w :: "string \<Rightarrow> goerr \<Rightarrow> goerr" where
  "Errorf_w p e = Wrapped (p @ '': '' @ Error e) e"

fun Unwrap :: "goerr \<Rightarrow> goerr option" where
  "Unwrap (KError _ _ cause) = cause"
| "Unwrap (Plain _) = None"
| "Unwrap (Wrapped _ e) = Some e"

text \<open>\<open>errors.As(err, &herr)\<close>: the first \<open>*errors.Error\<close> along the chain of \<open>Unwrap\<close>; its code.\<close>

fun as_code :: "goerr \<Rightarrow> ecode option" where
  "as_code (KError c _ _) = Some c"
| "as_code (Plain _) = None"
| "as_code (Wrapped _ e) = as_code e"

definition Is :: "goerr \<Rightarrow> ecode \<Rightarrow> bool" where
  "Is e c \<longleftrightarrow> as_code e = Some c"

definition IsNotFound :: "goerr \<Rightarrow> bool" where
  "IsNotFound e = Is e CodeNotFound"

definition IsAlreadyExists :: "goerr \<Rightarrow> bool" where
  "IsAlreadyExists e = Is e CodeAlreadyExists"

definition IsInvalidArgument :: "goerr \<Rightarrow> bool" where
  "IsInvalidArgument e = Is e CodeInvalidArgument"

definition IsResourceExhausted :: "goerr \<Rightarrow> bool" where
  "IsResourceExhausted e = Is e CodeResourceExhausted"

section \<open>The chain of wrapped errors\<close>

fun err_chain :: "goerr \<Rightarrow> goerr list" where
  "err_chain (KError c m None) = [KError c m None]"
| "err_chain (KError c m (Some e)) = KError c m (Some e) # err_chain e"
| "err_chain (Plain m) = [Plain m]"
| "err_chain (Wrapped m e) = Wrapped m e # err_chain e"

fun is_kerror :: "goerr \<Rightarrow> bool" where
  "is_kerror (KError _ _ _) = True"
| "is_kerror _ = False"

fun kcode :: "goerr \<Rightarrow> ecode option" where
  "kcode (KError c _ _) = Some c"
| "kcode _ = None"

lemma err_chain_unwrap:
  "err_chain e = e # (case Unwrap e of None \<Rightarrow> [] | Some e' \<Rightarrow> err_chain e')"
  by (cases e rule: err_chain.cases) auto

lemma Is_New [simp]: "Is (New c m) d \<longleftrightarrow> c = d"
  by (simp add: Is_def New_def)

lemma Is_Wrap [simp]: "Is (Wrap c m e) d \<longleftrightarrow> c = d"
  by (simp add: Is_def Wrap_def)

lemma Is_Plain [simp]: "\<not> Is (Plain m) d"
  by (simp add: Is_def)

lemma Is_Errorf_w [simp]: "Is (Errorf_w p e) d \<longleftrightarrow> Is e d"
  by (simp add: Is_def Errorf_w_def)

lemmas err_class = IsNotFound_def IsAlreadyExists_def IsInvalidArgument_def IsResourceExhausted_def

text \<open>\<open>errors.Is\<close> classifies an error by exactly one code: that of the outermost
  \<open>*errors.Error\<close> of its unwrap chain. Text-only wrappers in front of it are looked through, and
  whatever it wraps itself is not looked at.\<close>

theorem Is_outermost_code:
  "Is e c \<longleftrightarrow> (case find is_kerror (err_chain e) of None \<Rightarrow> False | Some h \<Rightarrow> kcode h = Some c)"
  by (induction e rule: err_chain.induct) (auto simp: Is_def)

text \<open>The doc comment of \<open>Is\<close> says "is (or wraps) a HermiNas *Error with the given code", but
  an error with a code of its own hides the code it wraps: wrapping a not-found error as internal
  gives an error whose chain holds a not-found error and for which \<open>IsNotFound\<close> is false.\<close>

theorem Is_hides_wrapped_code:
  "IsNotFound (New CodeNotFound m)
   \<and> New CodeNotFound m \<in> set (err_chain (Wrap CodeInternal m' (New CodeNotFound m)))
   \<and> \<not> IsNotFound (Wrap CodeInternal m' (New CodeNotFound m))"
  by (simp add: err_class New_def Wrap_def Is_def)

end
