(* ===== verification/Permissions.thy ===== *)
theory Permissions
  imports Prelude
begin

text \<open>
  \<open>kernel/permissions/permissions.go\<close>: the four RBAC roles. A \<open>Role\<close> is a string, so a role read
  from a token or a table row may be none of the four; its rank is then the map's zero value.
\<close>

type_synonym role = string

definition RoleViewer :: role where "RoleViewer = ''viewer''"
definition RoleAnalyst :: role where "RoleAnalyst = ''analyst''"
definition RoleEngineer :: role where "RoleEngineer = ''engineer''"
definition RoleAdmin :: role where "RoleAdmin = ''admin''"

lemmas role_defs = RoleViewer_def RoleAnalyst_def RoleEngineer_def RoleAdmin_def

definition rank :: "role \<rightharpoonup> nat" where
  "rank = [RoleViewer \<mapsto> 0, RoleAnalyst \<mapsto> 1, RoleEngineer \<mapsto> 2, RoleAdmin \<mapsto> 3]"

definition Rank :: "role \<Rightarrow> nat" where
  "Rank r = (case rank r of Some n \<Rightarrow> n | None \<Rightarrow> 0)"

definition AtLeast :: "role \<Rightarrow> role \<Rightarrow> bool" where
  "AtLeast r m \<longleftrightarrow> Rank r \<ge> Rank m"

definition All :: "role list" where
  "All = [RoleViewer, RoleAnalyst, RoleEngineer, RoleAdmin]"

definition Valid :: "role \<Rightarrow> bool" where
  "Valid r \<longleftrightarrow> rank r \<noteq> None"

lemma Rank_eq:
  "Rank r = (if r = RoleAdmin then 3 else if r = RoleEngineer then 2
             else if r = RoleAnalyst then 1 else 0)"
  by (auto simp: Rank_def rank_def role_defs)

lemma Rank_roles [simp]:
  "Rank RoleViewer = 0" "Rank RoleAnalyst = 1" "Rank RoleEngineer = 2" "Rank RoleAdmin = 3"
  by (simp_all add: Rank_eq role_defs)

lemma AtLeast_Viewer [simp]: "AtLeast r RoleViewer"
  by (simp add: AtLeast_def)

lemma Valid_iff_All: "Valid r \<longleftrightarrow> r \<in> set All"
  by (auto simp: Valid_def rank_def All_def)

section \<open>The hierarchy as an order\<close>

text \<open>The specification: four privilege levels in a linear order.\<close>

datatype level = Viewer | Analyst | Engineer | Admin

fun level_rank :: "level \<Rightarrow> nat" where
  "level_rank Viewer = 0"
| "level_rank Analyst = 1"
| "level_rank Engineer = 2"
| "level_rank Admin = 3"

lemma level_rank_inject: "level_rank a = level_rank b \<longleftrightarrow> a = b"
  by (cases a; cases b) auto

instantiation level :: linorder
begin

definition less_eq_level :: "level \<Rightarrow> level \<Rightarrow> bool" where
  "a \<le> b \<longleftrightarrow> level_rank a \<le> level_rank b"

definition less_level :: "level \<Rightarrow> level \<Rightarrow> bool" where
  "a < b \<longleftrightarrow> level_rank a < level_rank b"

instance
  by standard (auto simp: less_eq_level_def less_level_def level_rank_inject)

end

fun level_role :: "level \<Rightarrow> role" where
  "level_role Viewer = RoleViewer"
| "level_role Analyst = RoleAnalyst"
| "level_role Engineer = RoleEngineer"
| "level_role Admin = RoleAdmin"

text \<open>Every string has a level: one of the four roles its own, any other string the lowest.\<close>

definition role_level :: "role \<Rightarrow> level" where
  "role_level r = (if r = RoleAdmin then Admin else if r = RoleEngineer then Engineer
                   else if r = RoleAnalyst then Analyst else Viewer)"

lemma role_level_role [simp]: "role_level (level_role l) = l"
  by (cases l) (simp_all add: role_level_def role_defs)

lemma Rank_level: "Rank r = level_rank (role_level r)"
  by (simp add: Rank_eq role_level_def)

text \<open>\<open>AtLeast\<close> implements the linear order of the four privilege levels on arbitrary
  strings: a role passes a minimum exactly when its level is at least the minimum's level; the
  four names are exactly the valid roles and denote the four distinct levels, in the order
  viewer, analyst, engineer, admin; and an unknown role has no more privilege than a viewer.\<close>

theorem AtLeast_refines_order:
  "(AtLeast r m \<longleftrightarrow> role_level m \<le> role_level r)
   \<and> (Valid r \<longleftrightarrow> r \<in> range level_role)
   \<and> map role_level All = [Viewer, Analyst, Engineer, Admin]
   \<and> (Valid r \<or> role_level r = Viewer)"
proof -
  have "Valid r \<longleftrightarrow> r \<in> range level_role"
  proof
    assume "Valid r"
    then have "r \<in> {level_role Viewer, level_role Analyst, level_role Engineer, level_role Admin}"
      by (simp add: Valid_iff_All All_def)
    then show "r \<in> range level_role" by blast
  next
    assume "r \<in> range level_role"
    then obtain l where "r = level_role l" by blast
    then show "Valid r" by (cases l) (simp_all add: Valid_iff_All All_def)
  qed
  moreover have "AtLeast r m \<longleftrightarrow> role_level m \<le> role_level r"
    by (simp add: AtLeast_def Rank_level less_eq_level_def)
  moreover have "map role_level All = [Viewer, Analyst, Engineer, Admin]"
    by (simp add: All_def role_level_def role_defs)
  moreover have "Valid r \<or> role_level r = Viewer"
    by (auto simp: Valid_iff_All All_def role_level_def)
  ultimately show ?thesis by blast
qed

end
