(* ===== verification/GoFloat.thy ===== *)
theory GoFloat
  imports Prelude
begin

text \<open>
  Go's \<open>float64\<close>, as far as the sources use it: the conversion of an \<open>int64\<close>, multiplication,
  comparison for equality, and the truncating conversion back to \<open>int64\<close>. A finite float is a
  mantissa and a binary exponent, of value \<open>m * 2^e\<close>; results are rounded to 53 significant bits,
  halves to even. Infinities, NaN and subnormal results do not occur in the values the sources
  compute (decoded JSON numbers, and restart delays of at most a few minutes), so the exponent is
  unbounded here. Converting a float outside the \<open>int64\<close> range is implementation-defined in Go:
  what the platform gives is the argument \<open>oor\<close>.
\<close>

datatype f64 = F64 (mant: int) (expo: int)

fun bitlen :: "nat \<Rightarrow> nat" where
  "bitlen n = (if n = 0 then 0 else Suc (bitlen (n div 2)))"

declare bitlen.simps [simp del]

definition div_half_even :: "nat \<Rightarrow> nat \<Rightarrow> nat" where
  "div_half_even a k =
     (let q = a div 2 ^ k; r = a mod 2 ^ k; h = 2 ^ (k - 1) in
      if r > h \<or> (r = h \<and> odd q) then q + 1 else q)"

fun round53 :: "f64 \<Rightarrow> f64" where
  "round53 (F64 m e) =
     (let a = nat \<bar>m\<bar>; k = bitlen a - 53 in
      if k = 0 then F64 m e else F64 (sgn m * int (div_half_even a k)) (e + int k))"

definition f64_of_int :: "int \<Rightarrow> f64" where
  "f64_of_int i = round53 (F64 i 0)"

fun f64_mult :: "f64 \<Rightarrow> f64 \<Rightarrow> f64" where
  "f64_mult (F64 m e) (F64 n f) = round53 (F64 (m * n) (e + f))"

fun f64_eq :: "f64 \<Rightarrow> f64 \<Rightarrow> bool" where
  "f64_eq (F64 m e) (F64 n f) =
     (if e \<le> f then m = n * 2 ^ nat (f - e) else m * 2 ^ nat (e - f) = n)"

fun f64_trunc :: "f64 \<Rightarrow> int" where
  "f64_trunc (F64 m e) = (if e \<ge> 0 then m * 2 ^ nat e else sgn m * (\<bar>m\<bar> div 2 ^ nat (- e)))"

definition in_int64 :: "int \<Rightarrow> bool" where
  "in_int64 i \<longleftrightarrow> - (2 ^ 63) \<le> i \<and> i < 2 ^ 63"

definition f64_to_int64 :: "(f64 \<Rightarrow> int) \<Rightarrow> f64 \<Rightarrow> int" where
  "f64_to_int64 oor x = (if in_int64 (f64_trunc x) then f64_trunc x else oor x)"

text \<open>The two platforms the binary is built for: x86-64 gives the least \<open>int64\<close> for every value out
  of range, arm64 the nearest one.\<close>

definition amd64_oor :: "f64 \<Rightarrow> int" where
  "amd64_oor x = - (2 ^ 63)"

definition arm64_oor :: "f64 \<Rightarrow> int" where
  "arm64_oor x = (if f64_trunc x < 0 then - (2 ^ 63) else 2 ^ 63 - 1)"

text \<open>A float that exists as a \<open>float64\<close>: at most 53 significant bits.\<close>

fun f64_wf :: "f64 \<Rightarrow> bool" where
  "f64_wf (F64 m e) \<longleftrightarrow> \<bar>m\<bar> < 2 ^ 53"

section \<open>Exactness\<close>

lemma bitlen_bounds: "n < 2 ^ bitlen n \<and> (n > 0 \<longrightarrow> 2 ^ (bitlen n - 1) \<le> n)"
proof (induction n rule: bitlen.induct)
  case (1 n)
  show ?case
  proof (cases "n = 0")
    case True
    then show ?thesis by simp
  next
    case False
    then have b: "bitlen n = Suc (bitlen (n div 2))" by (simp add: bitlen.simps [of n])
    from False 1 have IH: "n div 2 < 2 ^ bitlen (n div 2)"
      "n div 2 > 0 \<longrightarrow> 2 ^ (bitlen (n div 2) - 1) \<le> n div 2" by auto
    have up: "n < 2 ^ bitlen n" using IH(1) b by simp
    have "2 ^ bitlen (n div 2) \<le> n"
    proof (cases "n div 2 = 0")
      case True
      with False show ?thesis by (simp add: bitlen.simps [of 0])
    next
      case nz: False
      then have "bitlen (n div 2) = Suc (bitlen (n div 2) - 1)"
        by (simp add: bitlen.simps [of "n div 2"])
      then have "2 ^ bitlen (n div 2) = (2::nat) * 2 ^ (bitlen (n div 2) - 1)"
        by (metis power_Suc)
      also have "\<dots> \<le> 2 * (n div 2)" using IH(2) nz by simp
      also have "\<dots> \<le> n" by simp
      finally show ?thesis .
    qed
    then show ?thesis using up b by simp
  qed
qed

lemma bitlen_le: "n < 2 ^ k \<Longrightarrow> bitlen n \<le> k"
proof (rule ccontr)
  assume n: "n < 2 ^ k" and "\<not> bitlen n \<le> k"
  then have k: "k \<le> bitlen n - 1" and pos: "n > 0"
    by (auto simp: bitlen.simps [of 0] intro: ccontr)
  from k have "(2::nat) ^ k \<le> 2 ^ (bitlen n - 1)" by (rule power_increasing) simp
  also have "\<dots> \<le> n" using bitlen_bounds pos by blast
  finally show False using n by simp
qed

lemma round53_small [simp]: "\<bar>m\<bar> < 9007199254740992 \<Longrightarrow> round53 (F64 m e) = F64 m e"
proof -
  assume "\<bar>m\<bar> < 9007199254740992"
  then have "nat \<bar>m\<bar> < 2 ^ 53" by (simp add: nat_less_iff)
  then have "bitlen (nat \<bar>m\<bar>) \<le> 53" by (rule bitlen_le)
  then show ?thesis by simp
qed

declare round53.simps [simp del]

lemma f64_of_int_small [simp]: "\<bar>i\<bar> < 9007199254740992 \<Longrightarrow> f64_of_int i = F64 i 0"
  by (simp add: f64_of_int_def)

lemma f64_mult_exact: "\<bar>m * n\<bar> < 9007199254740992 \<Longrightarrow> f64_mult (F64 m e) (F64 n f) = F64 (m * n) (e + f)"
  by simp

lemma div_half_even_exact:
  assumes "0 < k" "2 ^ k dvd a"
  shows "div_half_even a k = a div 2 ^ k"
  using assms by (simp add: div_half_even_def Let_def dvd_eq_mod_eq_0)

text \<open>An integer with at most 53 significant bits converts to a float of the same value.\<close>

lemma f64_of_int_exact:
  assumes m: "\<bar>m\<bar> < 2 ^ 53"
  shows "f64_eq (F64 m (int e)) (f64_of_int (m * 2 ^ e))"
proof -
  define a where "a = nat \<bar>m * 2 ^ e\<bar>"
  define k where "k = bitlen a - 53"
  have a: "a = nat \<bar>m\<bar> * 2 ^ e"
    by (simp add: a_def abs_mult nat_mult_distrib nat_power_eq)
  have "nat \<bar>m\<bar> < 2 ^ 53" using m by (simp add: nat_less_iff)
  then have "a < 2 ^ (53 + e)" by (simp add: a power_add)
  then have "bitlen a \<le> 53 + e" by (rule bitlen_le)
  then have k: "k \<le> e" by (simp add: k_def)
  show ?thesis
  proof (cases "k = 0")
    case True
    then have "f64_of_int (m * 2 ^ e) = F64 (m * 2 ^ e) 0"
      by (simp add: f64_of_int_def round53.simps a_def k_def Let_def)
    then show ?thesis by simp
  next
    case False
    have dvd: "2 ^ k dvd a" using k by (simp add: a le_imp_power_dvd)
    have "a div 2 ^ k = nat \<bar>m\<bar> * 2 ^ (e - k)"
    proof -
      have "a = nat \<bar>m\<bar> * 2 ^ (e - k) * 2 ^ k"
        using k by (simp add: a power_add [symmetric])
      then show ?thesis by simp
    qed
    then have d: "int (div_half_even a k) = \<bar>m\<bar> * 2 ^ (e - k)"
      using False dvd by (simp add: div_half_even_exact)
    have "f64_of_int (m * 2 ^ e) = F64 (sgn (m * 2 ^ e) * int (div_half_even a k)) (int k)"
      using False by (simp add: f64_of_int_def round53.simps a_def k_def Let_def)
    also have "\<dots> = F64 (m * 2 ^ (e - k)) (int k)"
      unfolding d by (simp add: sgn_mult mult.assoc [symmetric])
        (simp add: mult_sgn_abs)
    finally have f: "f64_of_int (m * 2 ^ e) = F64 (m * 2 ^ (e - k)) (int k)" .
    have "nat (int e - int k) = e - k" by simp
    then show ?thesis using k by (auto simp: f)
  qed
qed

end
