(* ===== verification/Contracts.thy ===== *)
theory Contracts
  imports KErrors
begin

text \<open>
  \<open>kernel/contracts/contracts.go\<close>: the service names, the health vocabulary and the report a
  health check gives. \<open>HealthChecker\<close> is an interface: a check is an argument of the definitions
  that call it (the supervisor, the status command).
\<close>

type_synonym service_name = string

definition ServiceClickHouse :: service_name where "ServiceClickHouse = ''clickhouse''"
definition ServiceRedpanda :: service_name where "ServiceRedpanda = ''redpanda''"
definition ServiceDataPlane :: service_name where "ServiceDataPlane = ''dataplane''"
definition ServiceIntelligence :: service_name where "ServiceIntelligence = ''intelligence''"
definition ServiceAPI :: service_name where "ServiceAPI = ''api''"

datatype health_state =
  HealthUnknown | HealthStarting | HealthHealthy | HealthDegraded | HealthUnhealthy

fun health_text :: "health_state \<Rightarrow> string" where
  "health_text HealthUnknown = ''unknown''"
| "health_text HealthStarting = ''starting''"
| "health_text HealthHealthy = ''healthy''"
| "health_text HealthDegraded = ''degraded''"
| "health_text HealthUnhealthy = ''unhealthy''"

record health_status =
  hs_service :: service_name
  hs_state :: health_state
  hs_message :: string
  hs_checked_at :: time

text \<open>What \<open>Health(ctx)\<close> returns.\<close>

type_synonym health_result = "health_status result"

definition reports_healthy :: "health_result \<Rightarrow> bool" where
  "reports_healthy r \<longleftrightarrow> (case r of Inl _ \<Rightarrow> False | Inr st \<Rightarrow> hs_state st = HealthHealthy)"

end
