(* ===== verification/Paths.thy ===== *)
theory Paths
  imports Prelude
begin

text \<open>
  \<open>kernel/paths/paths.go\<close>: the on-disk layout, with the two operations of Go's \<open>path/filepath\<close> it
  and the static file handler use, \<open>Clean\<close> and \<open>Join\<close> (on a system whose separator is the slash).
\<close>

section \<open>Clean and Join of path/filepath\<close>

abbreviation slash :: char where "slash \<equiv> CHR ''/''"

definition rooted :: "string \<Rightarrow> bool" where
  "rooted p \<longleftrightarrow> (case p of [] \<Rightarrow> False | c # _ \<Rightarrow> c = slash)"

text \<open>One path element, on the stack of the elements kept so far (last one first): empty elements
  and \<open>.\<close> are dropped, \<open>..\<close> removes the element before it, stays if there is none to remove, and
  is dropped at the root.\<close>

definition clean_step :: "bool \<Rightarrow> string list \<Rightarrow> string \<Rightarrow> string list" where
  "clean_step root out e =
     (if e = [] \<or> e = ''.'' then out
      else if e = ''..'' then
        (if out \<noteq> [] \<and> hd out \<noteq> ''..'' then tl out
         else if root then out else e # out)
      else e # out)"

definition clean_elems :: "bool \<Rightarrow> string \<Rightarrow> string list" where
  "clean_elems root p = rev (foldl (clean_step root) [] (split_on slash p))"

definition Clean :: "string \<Rightarrow> string" where
  "Clean p =
     (let es = clean_elems (rooted p) p in
      if rooted p then slash # join [slash] es
      else if es = [] then ''.'' else join [slash] es)"

definition Join :: "string list \<Rightarrow> string" where
  "Join elems =
     (case dropWhile (\<lambda>e. e = []) elems of
        [] \<Rightarrow> []
      | es \<Rightarrow> Clean (join [slash] es))"

section \<open>The layout\<close>

record layout =
  Root :: string
  ConfigDir :: string
  RuntimeDir :: string
  ModelsDir :: string
  DataDir :: string
  LogsDir :: string

definition Resolve :: "string \<Rightarrow> layout" where
  "Resolve root =
     \<lparr> Root = root,
       ConfigDir = Join [root, ''config''],
       RuntimeDir = Join [root, ''runtime''],
       ModelsDir = Join [root, ''models''],
       DataDir = Join [root, ''data''],
       LogsDir = Join [root, ''logs''] \<rparr>"

text \<open>\<open>Default\<close> with the value of \<open>HERMINAS_HOME\<close> and the outcome of \<open>os.Getwd\<close>.\<close>

definition Default :: "string \<Rightarrow> string option \<Rightarrow> layout" where
  "Default home wd =
     Resolve (if home = [] then (case wd of Some d \<Rightarrow> d | None \<Rightarrow> ''.'') else home)"

section \<open>Cleaning never leaves the tree\<close>

definition normal :: "string \<Rightarrow> bool" where
  "normal e \<longleftrightarrow> e \<noteq> [] \<and> e \<noteq> ''.'' \<and> e \<noteq> ''..'' \<and> slash \<notin> set e"

lemma clean_step_normal [simp]: "normal e \<Longrightarrow> clean_step root out e = e # out"
  by (simp add: clean_step_def normal_def)

lemma clean_step_skip [simp]: "clean_step root out [] = out"
  by (simp add: clean_step_def)

lemma foldl_clean_normal:
  "(\<forall>e\<in>set es. normal e) \<Longrightarrow> foldl (clean_step root) out es = rev es @ out"
  by (induction es arbitrary: out) auto

lemma in_set_tl: "x \<in> set (tl xs) \<Longrightarrow> x \<in> set xs"
  by (cases xs) auto

lemma clean_step_cases:
  assumes "slash \<notin> set e"
  shows "clean_step True out e = out \<or> clean_step True out e = tl out
         \<or> (clean_step True out e = e # out \<and> normal e)"
  using assms unfolding clean_step_def normal_def by presburger

lemma clean_step_rooted:
  assumes "slash \<notin> set e" and "\<forall>x\<in>set out. normal x" and "x \<in> set (clean_step True out e)"
  shows "normal x"
  using clean_step_cases [OF assms(1), of out]
proof (elim disjE)
  assume "clean_step True out e = out"
  then show ?thesis using assms(2,3) by simp
next
  assume "clean_step True out e = tl out"
  then have "x \<in> set out" using assms(3) by (simp add: in_set_tl)
  then show ?thesis using assms(2) by simp
next
  assume "clean_step True out e = e # out \<and> normal e"
  then show ?thesis using assms(2,3) by auto
qed

lemma foldl_clean_rooted:
  "(\<forall>e\<in>set es. slash \<notin> set e) \<Longrightarrow> (\<forall>e\<in>set out. normal e)
   \<Longrightarrow> \<forall>e\<in>set (foldl (clean_step True) out es). normal e"
proof (induction es arbitrary: out)
  case (Cons e es)
  have e: "slash \<notin> set e" and es: "\<forall>e\<in>set es. slash \<notin> set e"
    using Cons.prems(1) by simp_all
  have "\<forall>x\<in>set (clean_step True out e). normal x"
    using clean_step_rooted [OF e Cons.prems(2)] by blast
  then have "\<forall>x\<in>set (foldl (clean_step True) (clean_step True out e) es). normal x"
    by (rule Cons.IH [OF es])
  then show ?case by (simp only: foldl.simps)
qed simp

lemma clean_elems_rooted: "\<forall>e\<in>set (clean_elems True p). normal e"
  using foldl_clean_rooted [of "split_on slash p" "[]"]
  by (auto simp: clean_elems_def dest: split_on_pieces)

lemma split_join_normal:
  "es \<noteq> [] \<Longrightarrow> (\<forall>e\<in>set es. slash \<notin> set e) \<Longrightarrow> split_on slash (join [slash] es) = es"
proof (induction es rule: induct_list012)
  case (2 x)
  then show ?case by (simp add: split_on_no_sep)
next
  case (3 x y zs)
  then show ?case by (simp add: split_on_append_sep)
qed simp

lemma split_on_append:
  "split_on c (s @ c # t) = split_on c s @ split_on c t"
proof (induction s)
  case (Cons x s)
  obtain p ps where "split_on c s = p # ps" by (cases "split_on c s") auto
  with Cons show ?case by auto
qed simp

text \<open>Appending a cleaned rooted path to a directory and cleaning the result appends the elements
  of the path to those of the directory; none of them climbs.\<close>

lemma clean_elems_under:
  "clean_elems root (dir @ slash # Clean (slash # p))
   = clean_elems root dir @ clean_elems True (slash # p)"
proof -
  let ?es = "clean_elems True (slash # p)"
  have n: "\<forall>e\<in>set ?es. normal e" by (rule clean_elems_rooted)
  have c: "Clean (slash # p) = slash # join [slash] ?es"
    by (simp add: Clean_def rooted_def)
  have "foldl (clean_step root) out (split_on slash (join [slash] ?es)) = rev ?es @ out" for out
  proof (cases "?es = []")
    case False
    then show ?thesis using n foldl_clean_normal [OF n]
      by (simp add: split_join_normal normal_def)
  qed simp
  then show ?thesis
    by (simp add: clean_elems_def [of root] c split_on_append)
qed

end
