(* ===== verification/Settings.thy ===== *)
theory Settings
  imports KErrors
begin

text \<open>
  \<open>kernel/settings/settings.go\<close> and \<open>secret.go\<close>: configuration read once into an immutable value,
  and the string type that does not show its value. The YAML reader (viper) is a package outside
  the repository: what \<open>ReadInConfig\<close> and \<open>Unmarshal\<close> return are arguments of \<open>Load\<close>.
\<close>

section \<open>SecretString\<close>

definition redacted :: string where "redacted = ''***REDACTED***''"

datatype secret_string = Secret (secret_value: string)

definition NewSecretString :: "string \<Rightarrow> secret_string" where
  "NewSecretString v = Secret v"

definition secret_String :: "secret_string \<Rightarrow> string" where
  "secret_String s = redacted"

definition GoString :: "secret_string \<Rightarrow> string" where
  "GoString s = ''settings.SecretString('' @ redacted @ '')''"

text \<open>\<open>json.Marshal\<close> of a plain string: its text between double quotes.\<close>

definition MarshalJSON :: "secret_string \<Rightarrow> string result" where
  "MarshalJSON s = Inr (quoted redacted)"

definition MarshalText :: "secret_string \<Rightarrow> string result" where
  "MarshalText s = Inr redacted"

text \<open>\<open>json.Unmarshal(b, &raw)\<close> gives a string or an error, in which case the value is unchanged.\<close>

definition UnmarshalJSON :: "secret_string \<Rightarrow> string result \<Rightarrow> secret_string \<times> goerr option" where
  "UnmarshalJSON s raw = (case raw of Inl e \<Rightarrow> (s, Some e) | Inr v \<Rightarrow> (Secret v, None))"

definition UnmarshalText :: "secret_string \<Rightarrow> string \<Rightarrow> secret_string \<times> goerr option" where
  "UnmarshalText s b = (Secret b, None)"

definition Reveal :: "secret_string \<Rightarrow> string" where
  "Reveal s = secret_value s"

section \<open>Settings\<close>

record raw_settings =
  raw_environment :: string
  raw_http_port :: int
  raw_grpc_port :: int
  raw_data_dir :: string
  raw_llm_provider :: string
  raw_llm_api_key :: string

record settings =
  environment :: string
  httpPort :: int
  grpcPort :: int
  dataDir :: string
  llmProvider :: string
  llmAPIKey :: secret_string

definition Load ::
  "string \<Rightarrow> unit result \<Rightarrow> raw_settings result \<Rightarrow> string \<Rightarrow> settings result" where
  "Load path read_in_config unmarshal env_key =
     (case read_in_config of
        Inl e \<Rightarrow> Inl (Wrap CodeNotFound (''cannot read settings file '' @ quoted path) e)
      | Inr _ \<Rightarrow>
        (case unmarshal of
           Inl e \<Rightarrow> Inl (Wrap CodeInvalidArgument ''invalid settings file'' e)
         | Inr raw \<Rightarrow>
           Inr \<lparr> environment = raw_environment raw,
                 httpPort = raw_http_port raw,
                 grpcPort = raw_grpc_port raw,
                 dataDir = raw_data_dir raw,
                 llmProvider = raw_llm_provider raw,
                 llmAPIKey = NewSecretString
                   (if env_key \<noteq> [] then env_key else raw_llm_api_key raw) \<rparr>))"

text \<open>What a value can be shown as: every formatting and serialisation path of the type.\<close>

definition shown :: "secret_string \<Rightarrow> string list" where
  "shown s = [secret_String s, GoString s]
     @ (case MarshalJSON s of Inr t \<Rightarrow> [t] | Inl _ \<Rightarrow> [])
     @ (case MarshalText s of Inr t \<Rightarrow> [t] | Inl _ \<Rightarrow> [])"

lemma shown_constant: "shown s = shown t"
  by (simp add: shown_def secret_String_def GoString_def MarshalJSON_def MarshalText_def)

text \<open>Loading settings fails as not found when the file cannot be read and as invalid argument
  when it does not decode; otherwise the API key in effect is the environment's when that is set
  and the file's when not, while every way of showing the key gives the same text for any two
  loads, so nothing the formatting and serialisation paths produce depends on the key.\<close>

theorem Load_key_and_redaction:
  "(Load p (Inl e) u k = Inl (Wrap CodeNotFound (''cannot read settings file '' @ quoted p) e))
   \<and> (Load p (Inr ()) (Inl e) k = Inl (Wrap CodeInvalidArgument ''invalid settings file'' e))
   \<and> (\<exists>s. Load p (Inr ()) (Inr raw) k = Inr s
        \<and> Reveal (llmAPIKey s) = (if k = [] then raw_llm_api_key raw else k)
        \<and> httpPort s = raw_http_port raw \<and> grpcPort s = raw_grpc_port raw
        \<and> (\<exists>s'. Load p (Inr ()) (Inr (raw\<lparr>raw_llm_api_key := x\<rparr>)) k' = Inr s'
             \<and> shown (llmAPIKey s') = shown (llmAPIKey s)))"
  using shown_constant
  by (simp add: Load_def Reveal_def NewSecretString_def)

end
