(* ===== verification/Bus.thy ===== *)
theory Bus
  imports Prelude
begin

text \<open>
  \<open>engine/bus/bus.go\<close>: the in-process publish/subscribe bus. Every method holds one mutex for its
  whole body, so an execution is a sequence of whole operations, together with receives by the
  consumers, in any order. Channels live on a heap because a consumer keeps its channel after the
  subscription is gone; the subscription number also names the channel it made. Sending on a
  closed channel and closing a closed channel panic in Go: such a step has the value \<open>None\<close>.
\<close>

type_synonym topic = string

definition TopicDashboardData :: topic where "TopicDashboardData = ''dashboard.data''"
definition TopicQueryRows :: topic where "TopicQueryRows = ''query.rows''"
definition TopicAlertFired :: topic where "TopicAlertFired = ''alert.fired''"
definition TopicAnomalyDetected :: topic where "TopicAnomalyDetected = ''anomaly.detected''"
definition TopicPipelineStatus :: topic where "TopicPipelineStatus = ''pipeline.status''"
definition TopicSystemHealth :: topic where "TopicSystemHealth = ''system.health''"
definition TopicAgentStatus :: topic where "TopicAgentStatus = ''agent.status''"

section \<open>Channels\<close>

record 'e gochan =
  ch_buf :: "'e list"
  ch_cap :: nat
  ch_closed :: bool

definition has_room :: "'e gochan \<Rightarrow> bool" where
  "has_room c \<longleftrightarrow> length (ch_buf c) < ch_cap c"

definition push :: "'e gochan \<Rightarrow> 'e \<Rightarrow> 'e gochan" where
  "push c e = c\<lparr>ch_buf := ch_buf c @ [e]\<rparr>"

lemma push_simps [simp]:
  "ch_buf (push c e) = ch_buf c @ [e]" "ch_cap (push c e) = ch_cap c"
  "ch_closed (push c e) = ch_closed c"
  by (simp_all add: push_def)

section \<open>The bus\<close>

record subscriber =
  sub_id :: nat
  sub_ch :: nat

text \<open>\<open>captured\<close> holds the topic each unsubscribe closure captured, \<open>once_done\<close> the closures whose
  \<open>sync.Once\<close> has run. The drop counters are \<open>uint64\<close> and wrap.\<close>

record 'e bus =
  subscribers :: "topic \<Rightarrow> subscriber list"
  bufferSize :: nat
  nextID :: nat
  dropped :: "topic \<Rightarrow> 64 word"
  heap :: "nat \<Rightarrow> 'e gochan option"
  captured :: "nat \<Rightarrow> topic option"
  once_done :: "nat set"

definition NewBus :: "int \<Rightarrow> 'e bus" where
  "NewBus n =
     \<lparr> subscribers = (\<lambda>_. []), bufferSize = (if n \<le> 0 then 16 else nat n), nextID = 0,
       dropped = (\<lambda>_. 0), heap = (\<lambda>_. None), captured = (\<lambda>_. None), once_done = {} \<rparr>"

definition Subscribe :: "'e bus \<Rightarrow> topic \<Rightarrow> 'e bus \<times> nat" where
  "Subscribe b t =
     (let i = nextID b;
          sub = \<lparr>sub_id = i, sub_ch = i\<rparr>;
          c = \<lparr>ch_buf = [], ch_cap = bufferSize b, ch_closed = False\<rparr>
      in (b\<lparr>nextID := i + 1,
            heap := (heap b)(i := Some c),
            subscribers := (subscribers b)(t := subscribers b t @ [sub]),
            captured := (captured b)(i := Some t)\<rparr>, i))"

definition close_chan :: "'e bus \<Rightarrow> nat \<Rightarrow> 'e bus option" where
  "close_chan b r =
     (case heap b r of
        None \<Rightarrow> None
      | Some c \<Rightarrow> if ch_closed c then None
                  else Some (b\<lparr>heap := (heap b)(r := Some (c\<lparr>ch_closed := True\<rparr>))\<rparr>))"

fun index_of :: "nat \<Rightarrow> subscriber list \<Rightarrow> nat option" where
  "index_of i [] = None"
| "index_of i (s # ss) = (if sub_id s = i then Some 0 else map_option Suc (index_of i ss))"

text \<open>The closure \<open>Subscribe\<close> returned for subscription \<open>i\<close>.\<close>

definition Unsubscribe :: "'e bus \<Rightarrow> nat \<Rightarrow> 'e bus option" where
  "Unsubscribe b i =
     (case captured b i of
        None \<Rightarrow> Some b
      | Some t \<Rightarrow>
        if i \<in> once_done b then Some b
        else
          (let subs = subscribers b t; b1 = b\<lparr>once_done := insert i (once_done b)\<rparr> in
           case index_of i subs of
             None \<Rightarrow> Some b1
           | Some k \<Rightarrow>
               close_chan (b1\<lparr>subscribers := (subscribers b1)(t := take k subs @ drop (k + 1) subs)\<rparr>)
                 (sub_ch (subs ! k))))"

fun publish_to :: "'e \<Rightarrow> topic \<Rightarrow> subscriber list \<Rightarrow> 'e bus \<Rightarrow> 'e bus option" where
  "publish_to e t [] b = Some b"
| "publish_to e t (s # ss) b =
     (case heap b (sub_ch s) of
        None \<Rightarrow> None
      | Some c \<Rightarrow>
          if ch_closed c then None
          else if has_room c
            then publish_to e t ss (b\<lparr>heap := (heap b)(sub_ch s := Some (push c e))\<rparr>)
            else publish_to e t ss (b\<lparr>dropped := (dropped b)(t := dropped b t + 1)\<rparr>))"

definition Publish :: "'e bus \<Rightarrow> topic \<Rightarrow> 'e \<Rightarrow> 'e bus option" where
  "Publish b t e = publish_to e t (subscribers b t) b"

definition Dropped :: "'e bus \<Rightarrow> topic \<Rightarrow> 64 word" where
  "Dropped b t = dropped b t"

definition SubscriberCount :: "'e bus \<Rightarrow> topic \<Rightarrow> nat" where
  "SubscriberCount b t = length (subscribers b t)"

text \<open>A receive by a consumer: it takes the oldest event of its channel, if there is one.\<close>

definition recv :: "'e bus \<Rightarrow> nat \<Rightarrow> 'e bus \<times> 'e list" where
  "recv b i =
     (case heap b i of
        None \<Rightarrow> (b, [])
      | Some c \<Rightarrow>
        (case ch_buf c of
           [] \<Rightarrow> (b, [])
         | e # es \<Rightarrow> (b\<lparr>heap := (heap b)(i := Some (c\<lparr>ch_buf := es\<rparr>))\<rparr>, [e])))"

section \<open>Executions\<close>

datatype 'e bus_op = OSub topic | OUnsub nat | OPub topic 'e | ORecv nat

text \<open>A run carries, beside the bus, two logs that only the statements use: what each consumer has
  received, and what was published on its topic while it was subscribed.\<close>

record 'e bus_run =
  rbus :: "'e bus"
  got :: "nat \<Rightarrow> 'e list"
  sent :: "nat \<Rightarrow> 'e list"

definition start_run :: "int \<Rightarrow> 'e bus_run" where
  "start_run n = \<lparr>rbus = NewBus n, got = (\<lambda>_. []), sent = (\<lambda>_. [])\<rparr>"

fun bus_step :: "'e bus_run \<Rightarrow> 'e bus_op \<Rightarrow> 'e bus_run option" where
  "bus_step r (OSub t) = Some (r\<lparr>rbus := fst (Subscribe (rbus r) t)\<rparr>)"
| "bus_step r (OUnsub i) = map_option (\<lambda>b. r\<lparr>rbus := b\<rparr>) (Unsubscribe (rbus r) i)"
| "bus_step r (OPub t e) =
     map_option (\<lambda>b. r\<lparr>rbus := b,
                       sent := (\<lambda>i. if i \<in> sub_id ` set (subscribers (rbus r) t)
                                    then sent r i @ [e] else sent r i)\<rparr>)
       (Publish (rbus r) t e)"
| "bus_step r (ORecv i) =
     Some (r\<lparr>rbus := fst (recv (rbus r) i), got := (got r)(i := got r i @ snd (recv (rbus r) i))\<rparr>)"

fun bus_exec :: "'e bus_run \<Rightarrow> 'e bus_op list \<Rightarrow> 'e bus_run option" where
  "bus_exec r [] = Some r"
| "bus_exec r (x # xs) = (case bus_step r x of None \<Rightarrow> None | Some r' \<Rightarrow> bus_exec r' xs)"

section \<open>The invariant\<close>

definition sub_ok :: "'e bus \<Rightarrow> topic \<Rightarrow> subscriber \<Rightarrow> bool" where
  "sub_ok b t s \<longleftrightarrow> sub_ch s = sub_id s \<and> sub_id s < nextID b
     \<and> captured b (sub_id s) = Some t \<and> sub_id s \<notin> once_done b"

definition chan_ok :: "'e bus \<Rightarrow> nat \<Rightarrow> 'e gochan \<Rightarrow> bool" where
  "chan_ok b i c \<longleftrightarrow> ch_cap c = bufferSize b \<and> length (ch_buf c) \<le> bufferSize b
     \<and> ch_closed c = (i \<in> once_done b)"

definition bus_inv :: "'e bus \<Rightarrow> bool" where
  "bus_inv b \<longleftrightarrow>
     0 < bufferSize b
   \<and> (\<forall>t. \<forall>s\<in>set (subscribers b t). sub_ok b t s)
   \<and> (\<forall>t. distinct (map sub_id (subscribers b t)))
   \<and> (\<forall>i. heap b i \<noteq> None \<longleftrightarrow> i < nextID b)
   \<and> (\<forall>i. captured b i \<noteq> None \<longleftrightarrow> i < nextID b)
   \<and> (\<forall>i c. heap b i = Some c \<longrightarrow> chan_ok b i c)
   \<and> (\<forall>i t. captured b i = Some t \<and> i \<notin> once_done b \<longrightarrow> i \<in> sub_id ` set (subscribers b t))
   \<and> (\<forall>i\<in>once_done b. i < nextID b)"

lemma bus_invI:
  assumes "0 < bufferSize b"
    and "\<And>t s. s \<in> set (subscribers b t) \<Longrightarrow> sub_ok b t s"
    and "\<And>t. distinct (map sub_id (subscribers b t))"
    and "\<And>i. heap b i \<noteq> None \<longleftrightarrow> i < nextID b"
    and "\<And>i. captured b i \<noteq> None \<longleftrightarrow> i < nextID b"
    and "\<And>i c. heap b i = Some c \<Longrightarrow> chan_ok b i c"
    and "\<And>i t. captured b i = Some t \<Longrightarrow> i \<notin> once_done b \<Longrightarrow> i \<in> sub_id ` set (subscribers b t)"
    and "\<And>i. i \<in> once_done b \<Longrightarrow> i < nextID b"
  shows "bus_inv b"
  using assms unfolding bus_inv_def by blast

lemma bus_invD:
  assumes "bus_inv b"
  shows "0 < bufferSize b"
    and "s \<in> set (subscribers b t) \<Longrightarrow> sub_ok b t s"
    and "distinct (map sub_id (subscribers b t))"
    and "heap b i \<noteq> None \<longleftrightarrow> i < nextID b"
    and "captured b i \<noteq> None \<longleftrightarrow> i < nextID b"
    and "heap b i = Some c \<Longrightarrow> chan_ok b i c"
    and "captured b i = Some t \<Longrightarrow> i \<notin> once_done b \<Longrightarrow> i \<in> sub_id ` set (subscribers b t)"
    and "i \<in> once_done b \<Longrightarrow> i < nextID b"
  using assms unfolding bus_inv_def by blast+

lemma bus_inv_New: "bus_inv (NewBus n)"
  by (rule bus_invI) (auto simp: NewBus_def)

lemma bus_inv_sub_chan:
  assumes "bus_inv b" "s \<in> set (subscribers b t)"
  obtains c where "heap b (sub_ch s) = Some c" "\<not> ch_closed c" "sub_ch s = sub_id s"
    "chan_ok b (sub_id s) c"
proof -
  from assms have s: "sub_ok b t s" by (rule bus_invD)
  then have "heap b (sub_id s) \<noteq> None"
    using bus_invD(4) [OF assms(1)] by (simp add: sub_ok_def)
  then obtain c where c: "heap b (sub_id s) = Some c" by auto
  then have "chan_ok b (sub_id s) c" by (rule bus_invD(6) [OF assms(1)])
  then show thesis using that [of c] c s by (simp add: sub_ok_def chan_ok_def)
qed

lemma map_sub_ch_eq:
  "bus_inv b \<Longrightarrow> map sub_ch (subscribers b t) = map sub_id (subscribers b t)"
  using bus_invD(2) by (fastforce simp: sub_ok_def)

section \<open>What each operation does\<close>

lemma Subscribe_fields:
  "fst (Subscribe b t) =
     b\<lparr>nextID := Suc (nextID b),
       heap := (heap b)(nextID b := Some \<lparr>ch_buf = [], ch_cap = bufferSize b, ch_closed = False\<rparr>),
       subscribers := (subscribers b)
         (t := subscribers b t @ [\<lparr>sub_id = nextID b, sub_ch = nextID b\<rparr>]),
       captured := (captured b)(nextID b := Some t)\<rparr>"
  by (simp add: Subscribe_def Let_def)

lemma bus_inv_Subscribe:
  assumes inv: "bus_inv b"
  shows "bus_inv (fst (Subscribe b t))"
proof -
  note D = bus_invD [OF inv]
  have fresh: "nextID b \<notin> once_done b" using D(8) by blast
  have old: "sub_id s < nextID b" if "s \<in> set (subscribers b t')" for s t'
    using D(2) [OF that] by (simp add: sub_ok_def)
  show ?thesis unfolding Subscribe_fields
  proof (rule bus_invI, goal_cases)
    case 1 show ?case using D(1) by simp
  next
    case (2 t' s)
    then show ?case using D(2) fresh
      by (auto simp: sub_ok_def less_Suc_eq split: if_splits dest: old)
  next
    case (3 t') show ?case using D(3) [of t'] old by fastforce
  next
    case (4 i) show ?case using D(4) [of i] by auto
  next
    case (5 i) show ?case using D(5) [of i] by auto
  next
    case (6 i c) then show ?case using D(6) [of i c] fresh
      by (auto simp: chan_ok_def split: if_splits)
  next
    case (7 i t') then show ?case using D(7) [of i t'] by (auto split: if_splits)
  next
    case (8 i) then show ?case using D(8) [of i] by simp
  qed
qed

text \<open>Publishing offers the event to every subscriber's channel; the counter of the topic grows by
  the number of channels that were full.\<close>

definition offer :: "'e \<Rightarrow> 'e gochan \<Rightarrow> 'e gochan" where
  "offer e c = (if has_room c then push c e else c)"

definition is_full :: "'e bus \<Rightarrow> nat \<Rightarrow> bool" where
  "is_full b i \<longleftrightarrow> (case heap b i of None \<Rightarrow> False | Some c \<Rightarrow> \<not> has_room c)"

lemma publish_to_eq:
  assumes "distinct (map sub_ch ss)"
    and "\<forall>s\<in>set ss. \<exists>c. heap b (sub_ch s) = Some c \<and> \<not> ch_closed c"
  shows "publish_to e t ss b =
    Some (b\<lparr>heap := (\<lambda>i. if i \<in> sub_ch ` set ss then map_option (offer e) (heap b i) else heap b i),
            dropped := (dropped b)
              (t := dropped b t + of_nat (length (filter (is_full b) (map sub_ch ss))))\<rparr>)"
  using assms
proof (induction ss arbitrary: b)
  case (Cons s ss)
  from Cons.prems obtain c where c: "heap b (sub_ch s) = Some c" "\<not> ch_closed c" by auto
  have notin: "sub_ch s \<notin> sub_ch ` set ss" using Cons.prems(1) by auto
  have d: "distinct (map sub_ch ss)" using Cons.prems(1) by simp
  from notin have other: "\<forall>i\<in>set (map sub_ch ss). i \<noteq> sub_ch s" by (metis image_set)
  show ?case
  proof (cases "has_room c")
    case True
    let ?b = "b\<lparr>heap := (heap b)(sub_ch s := Some (push c e))\<rparr>"
    have nf: "\<not> is_full b (sub_ch s)" using True c by (simp add: is_full_def)
    have full: "filter (is_full ?b) (map sub_ch ss) = filter (is_full b) (map sub_ch ss)"
    proof (rule filter_cong [OF refl])
      fix i assume "i \<in> set (map sub_ch ss)"
      with other have "i \<noteq> sub_ch s" by blast
      then show "is_full ?b i \<longleftrightarrow> is_full b i" by (simp add: is_full_def)
    qed
    have "\<forall>x\<in>set ss. \<exists>c. heap ?b (sub_ch x) = Some c \<and> \<not> ch_closed c"
    proof
      fix x assume x: "x \<in> set ss"
      then have "sub_ch x \<noteq> sub_ch s" using notin by (metis imageI)
      then show "\<exists>c. heap ?b (sub_ch x) = Some c \<and> \<not> ch_closed c"
        using Cons.prems(2) x by simp
    qed
    from Cons.IH [OF d this, unfolded full] show ?thesis
      using True c notin nf
      by (auto simp: offer_def fun_eq_iff intro!: bus.equality)
  next
    case False
    let ?b = "b\<lparr>dropped := (dropped b)(t := dropped b t + 1)\<rparr>"
    have nf: "is_full b (sub_ch s)" using False c by (simp add: is_full_def)
    have full: "filter (is_full ?b) (map sub_ch ss) = filter (is_full b) (map sub_ch ss)"
      by (intro filter_cong) (auto simp: is_full_def)
    have "\<forall>s\<in>set ss. \<exists>c. heap ?b (sub_ch s) = Some c \<and> \<not> ch_closed c"
      using Cons.prems by auto
    from Cons.IH [OF d this, unfolded full] show ?thesis
      using False c notin nf
      by (auto simp: offer_def fun_eq_iff intro!: bus.equality)
  qed
qed simp

definition publish_result :: "'e bus \<Rightarrow> topic \<Rightarrow> 'e \<Rightarrow> 'e bus" where
  "publish_result b t e =
     (let ids = map sub_id (subscribers b t) in
      b\<lparr>heap := (\<lambda>i. if i \<in> set ids then map_option (offer e) (heap b i) else heap b i),
        dropped := (dropped b)(t := dropped b t + of_nat (length (filter (is_full b) ids)))\<rparr>)"

lemma Publish_eq:
  assumes "bus_inv b"
  shows "Publish b t e = Some (publish_result b t e)"
proof -
  note m = map_sub_ch_eq [OF assms, of t]
  have "sub_ch ` set (subscribers b t) = sub_id ` set (subscribers b t)"
    using arg_cong [OF m, of set] by simp
  moreover have "publish_to e t (subscribers b t) b =
    Some (b\<lparr>heap := (\<lambda>i. if i \<in> sub_ch ` set (subscribers b t)
                         then map_option (offer e) (heap b i) else heap b i),
            dropped := (dropped b)(t := dropped b t
              + of_nat (length (filter (is_full b) (map sub_ch (subscribers b t)))))\<rparr>)"
  proof (rule publish_to_eq)
    show "distinct (map sub_ch (subscribers b t))"
      unfolding m by (rule bus_invD(3) [OF assms])
    show "\<forall>s\<in>set (subscribers b t). \<exists>c. heap b (sub_ch s) = Some c \<and> \<not> ch_closed c"
      by (meson bus_inv_sub_chan [OF assms])
  qed
  ultimately show ?thesis
    by (simp add: Publish_def publish_result_def Let_def m)
qed

lemma chan_ok_offer [simp]: "chan_ok b i c \<Longrightarrow> chan_ok b i (offer e c)"
  by (auto simp: chan_ok_def offer_def push_def has_room_def)

lemma bus_inv_publish_result:
  assumes inv: "bus_inv b"
  shows "bus_inv (publish_result b t e)"
proof -
  note D = bus_invD [OF inv]
  have ok: "chan_ok (publish_result b t e) = chan_ok b"
    by (simp add: fun_eq_iff chan_ok_def publish_result_def Let_def)
  show ?thesis
  proof (rule bus_invI, goal_cases)
    case (2 t' s) then show ?case using D(2) [of s t']
      by (simp add: sub_ok_def publish_result_def Let_def)
  next
    case (6 i c) then show ?case using D(6) [of i]
      by (auto simp: ok) (auto simp: publish_result_def Let_def split: if_splits)
  qed (use D in \<open>simp_all add: publish_result_def Let_def\<close>)
qed

lemma index_of_None: "index_of i ss = None \<longleftrightarrow> i \<notin> sub_id ` set ss"
  by (induction ss) auto

lemma filter_ne_notin: "i \<notin> sub_id ` set ss \<Longrightarrow> filter (\<lambda>s. sub_id s \<noteq> i) ss = ss"
  by (induction ss) auto

lemma index_of_Some:
  "index_of i ss = Some k \<Longrightarrow> distinct (map sub_id ss) \<Longrightarrow>
   k < length ss \<and> sub_id (ss ! k) = i
   \<and> take k ss @ drop (k + 1) ss = filter (\<lambda>s. sub_id s \<noteq> i) ss"
proof (induction ss arbitrary: k)
  case (Cons s ss)
  then show ?case
    by (cases "sub_id s = i") (auto simp: filter_ne_notin)
qed simp

definition unsub_result :: "'e bus \<Rightarrow> topic \<Rightarrow> nat \<Rightarrow> 'e bus" where
  "unsub_result b t i =
     b\<lparr>once_done := insert i (once_done b),
       subscribers := (subscribers b)(t := filter (\<lambda>s. sub_id s \<noteq> i) (subscribers b t)),
       heap := (heap b)(i := map_option (\<lambda>c. c\<lparr>ch_closed := True\<rparr>) (heap b i))\<rparr>"

lemma Unsubscribe_eq:
  assumes inv: "bus_inv b"
  shows "Unsubscribe b i =
    Some (case captured b i of None \<Rightarrow> b
          | Some t \<Rightarrow> if i \<in> once_done b then b else unsub_result b t i)"
proof (cases "captured b i")
  case None
  then show ?thesis by (simp add: Unsubscribe_def)
next
  case (Some t)
  show ?thesis
  proof (cases "i \<in> once_done b")
    case True
    then show ?thesis using Some by (simp add: Unsubscribe_def)
  next
    case False
    from bus_invD(7) [OF inv Some False] obtain k where k: "index_of i (subscribers b t) = Some k"
      by (metis index_of_None not_None_eq)
    from index_of_Some [OF k bus_invD(3) [OF inv]]
    have kk: "k < length (subscribers b t)" "sub_id (subscribers b t ! k) = i"
      "take k (subscribers b t) @ drop (k + 1) (subscribers b t)
       = filter (\<lambda>s. sub_id s \<noteq> i) (subscribers b t)" by auto
    from kk(1) have "subscribers b t ! k \<in> set (subscribers b t)" by simp
    from bus_inv_sub_chan [OF inv this] kk(2) obtain c where
      c: "heap b i = Some c" "\<not> ch_closed c" "sub_ch (subscribers b t ! k) = i" by metis
    show ?thesis
      using Some False k c kk(3)
      by (simp add: Unsubscribe_def Let_def close_chan_def unsub_result_def)
  qed
qed

lemma bus_inv_unsub_result:
  assumes inv: "bus_inv b" and t: "captured b i = Some t" and n: "i \<notin> once_done b"
  shows "bus_inv (unsub_result b t i)"
proof -
  note D = bus_invD [OF inv]
  have il: "i < nextID b" using D(5) [of i] t by simp
  show ?thesis
  proof (rule bus_invI, goal_cases)
    case (2 t' s)
    then have "sub_ok b t' s" "sub_id s \<noteq> i"
      using D(2) [of s t'] t by (auto simp: unsub_result_def sub_ok_def split: if_splits)
    then show ?case by (simp add: sub_ok_def unsub_result_def)
  next
    case (3 t') then show ?case using D(3)
      by (auto simp: unsub_result_def distinct_map_filter)
  next
    case (6 j c) then show ?case using D(6) [of j] D(6) [of i]
      by (auto simp: unsub_result_def chan_ok_def split: if_splits)
  next
    case (7 j t') then show ?case using D(7) [of j t']
      by (auto simp: unsub_result_def)
  qed (use D il in \<open>auto simp: unsub_result_def\<close>)
qed

lemma bus_inv_Unsubscribe: "bus_inv b \<Longrightarrow> Unsubscribe b i = Some b' \<Longrightarrow> bus_inv b'"
  by (auto simp: Unsubscribe_eq bus_inv_unsub_result split: option.splits if_splits)

lemma bus_inv_recv:
  assumes inv: "bus_inv b"
  shows "bus_inv (fst (recv b i))"
proof -
  note D = bus_invD [OF inv]
  show ?thesis
  proof (cases "heap b i")
    case None
    then show ?thesis using inv by (simp add: recv_def)
  next
    case (Some c)
    show ?thesis
    proof (cases "ch_buf c")
      case Nil
      then show ?thesis using inv Some by (simp add: recv_def)
    next
      case (Cons e es)
      have eq: "fst (recv b i) = b\<lparr>heap := (heap b)(i := Some (c\<lparr>ch_buf := es\<rparr>))\<rparr>"
        using Some Cons by (simp add: recv_def)
      have il: "i < nextID b" using D(4) [of i] Some by simp
      have co: "chan_ok b i c" using D(6) Some by simp
      show ?thesis unfolding eq
      proof (rule bus_invI, goal_cases)
        case (2 t s) then show ?case using D(2) [of s t] by (simp add: sub_ok_def)
      next
        case (6 j d) then show ?case using D(6) [of j] co Cons
          by (auto simp: chan_ok_def split: if_splits)
      qed (use D il in auto)
    qed
  qed
qed

section \<open>Runs\<close>

definition buffered :: "'e bus \<Rightarrow> nat \<Rightarrow> 'e list" where
  "buffered b i = (case heap b i of None \<Rightarrow> [] | Some c \<Rightarrow> ch_buf c)"

definition topic_ids :: "'e bus \<Rightarrow> topic \<Rightarrow> nat set" where
  "topic_ids b t = {i. i < nextID b \<and> captured b i = Some t}"

definition lost :: "'e bus_run \<Rightarrow> nat \<Rightarrow> nat" where
  "lost r i = length (sent r i) - length (got r i @ buffered (rbus r) i)"

definition run_inv :: "'e bus_run \<Rightarrow> bool" where
  "run_inv r \<longleftrightarrow> bus_inv (rbus r)
   \<and> (\<forall>i. subseq (got r i @ buffered (rbus r) i) (sent r i))
   \<and> (\<forall>i\<ge>nextID (rbus r). got r i = [] \<and> sent r i = [])
   \<and> (\<forall>t. dropped (rbus r) t = of_nat (\<Sum>i\<in>topic_ids (rbus r) t. lost r i))"

lemma finite_topic_ids [simp]: "finite (topic_ids b t)"
  by (rule finite_subset [of _ "{..<nextID b}"]) (auto simp: topic_ids_def)

lemma run_inv_start: "run_inv (start_run n)"
  using bus_inv_New [of n]
  by (simp add: run_inv_def start_run_def) (simp add: buffered_def topic_ids_def NewBus_def)

lemma run_inv_Subscribe:
  assumes "run_inv r"
  shows "run_inv (r\<lparr>rbus := fst (Subscribe (rbus r) t)\<rparr>)"
proof -
  let ?b = "rbus r" and ?r = "r\<lparr>rbus := fst (Subscribe (rbus r) t)\<rparr>"
  from assms have inv: "bus_inv ?b" and new: "\<forall>i\<ge>nextID ?b. got r i = [] \<and> sent r i = []"
    and sb: "\<forall>i. subseq (got r i @ buffered ?b i) (sent r i)"
    and dr: "\<forall>t. dropped ?b t = of_nat (\<Sum>i\<in>topic_ids ?b t. lost r i)"
    by (simp_all add: run_inv_def)
  have none: "heap ?b (nextID ?b) = None" using bus_invD(4) [OF inv, of "nextID ?b"] by simp
  have bf: "buffered (rbus ?r) = buffered ?b"
    using none by (auto simp: fun_eq_iff buffered_def Subscribe_fields)
  have lost: "lost ?r = lost r" unfolding lost_def bf by simp
  have z: "lost r (nextID ?b) = 0" using new by (simp add: lost_def)
  have ids: "topic_ids (fst (Subscribe ?b t)) t' =
      (if t' = t then insert (nextID ?b) (topic_ids ?b t') else topic_ids ?b t')" for t'
    by (auto simp: topic_ids_def Subscribe_fields)
  have fresh: "nextID ?b \<notin> topic_ids ?b t'" for t' by (simp add: topic_ids_def)
  have "dropped (rbus ?r) = dropped ?b" by (simp add: Subscribe_fields)
  then have "dropped (rbus ?r) t' = of_nat (\<Sum>i\<in>topic_ids (rbus ?r) t'. lost ?r i)" for t'
    using dr fresh [of t] z lost by (simp add: ids)
  moreover have "\<forall>i\<ge>nextID (rbus ?r). got ?r i = [] \<and> sent ?r i = []"
    using new by (simp add: Subscribe_fields)
  ultimately show ?thesis
    using bus_inv_Subscribe [OF inv] sb bf by (simp add: run_inv_def)
qed

lemma run_inv_Unsubscribe:
  assumes "run_inv r" and "Unsubscribe (rbus r) i = Some b"
  shows "run_inv (r\<lparr>rbus := b\<rparr>)"
proof -
  from assms(1) have inv: "bus_inv (rbus r)" by (simp add: run_inv_def)
  have "buffered b = buffered (rbus r) \<and> topic_ids b = topic_ids (rbus r)
        \<and> dropped b = dropped (rbus r) \<and> nextID b = nextID (rbus r)"
    using assms(2) by (auto simp: Unsubscribe_eq [OF inv] unsub_result_def buffered_def
        topic_ids_def fun_eq_iff split: option.splits if_splits)
  then show ?thesis
    using assms(1) bus_inv_Unsubscribe [OF inv assms(2)] by (simp add: run_inv_def lost_def)
qed

lemma run_inv_recv:
  assumes "run_inv r"
  shows "run_inv (r\<lparr>rbus := fst (recv (rbus r) i),
                    got := (got r)(i := got r i @ snd (recv (rbus r) i))\<rparr>)" (is "run_inv ?r")
proof -
  let ?b = "rbus r" and ?b' = "fst (recv (rbus r) i)"
  from assms have inv: "bus_inv ?b" by (simp add: run_inv_def)
  have same: "got ?r j @ buffered ?b' j = got r j @ buffered ?b j" for j
    by (auto simp: recv_def buffered_def split: option.splits list.splits)
  have st: "nextID ?b' = nextID ?b" "topic_ids ?b' = topic_ids ?b" "dropped ?b' = dropped ?b"
    by (auto simp: recv_def topic_ids_def fun_eq_iff split: option.splits list.splits)
  have "lost ?r = lost r"
    using same by (simp add: lost_def fun_eq_iff del: length_append)
  moreover have "\<forall>j\<ge>nextID ?b. got ?r j = []"
  proof (intro allI impI)
    fix j assume j: "nextID ?b \<le> j"
    then have "heap ?b j = None" using bus_invD(4) [OF inv, of j] by auto
    then show "got ?r j = []" using assms j by (auto simp: run_inv_def recv_def)
  qed
  ultimately show ?thesis
    using assms bus_inv_recv [OF inv, of i] same st by (simp add: run_inv_def)
qed

lemma run_inv_Publish:
  assumes "run_inv r"
  shows "run_inv (r\<lparr>rbus := publish_result (rbus r) t e,
           sent := (\<lambda>i. if i \<in> sub_id ` set (subscribers (rbus r) t)
                        then sent r i @ [e] else sent r i)\<rparr>)" (is "run_inv ?r")
proof -
  let ?b = "rbus r" and ?b' = "publish_result (rbus r) t e"
  let ?ids = "map sub_id (subscribers ?b t)"
  from assms have inv: "bus_inv ?b" and new: "\<forall>i\<ge>nextID ?b. got r i = [] \<and> sent r i = []"
    and sb: "subseq (got r i @ buffered ?b i) (sent r i)"
    and dr: "dropped ?b t' = of_nat (\<Sum>i\<in>topic_ids ?b t'. lost r i)" for i t'
    by (simp_all add: run_inv_def)
  have idt: "i \<in> topic_ids ?b t \<and> heap ?b i \<noteq> None" if "i \<in> set ?ids" for i
    using that bus_invD(2) [OF inv] bus_invD(4) [OF inv, of i]
    by (force simp: topic_ids_def sub_ok_def)
  have bf: "buffered ?b' i = buffered ?b i @ (if i \<in> set ?ids \<and> \<not> is_full ?b i then [e] else [])" for i
    using idt [of i]
    by (auto simp: buffered_def publish_result_def Let_def is_full_def offer_def
        split: option.splits)
  have sb': "subseq (got ?r i @ buffered ?b' i) (sent ?r i)" for i
    using list_emb_append_mono [OF sb [of i], of "if i \<in> set ?ids \<and> \<not> is_full ?b i then [e] else []"
        "if i \<in> set ?ids then [e] else []"]
    by (auto simp: bf)
  have le: "length (got r i @ buffered ?b i) \<le> length (sent r i)" for i
    by (rule list_emb_length [OF sb])
  have lost: "lost ?r i = lost r i + (if i \<in> set (filter (is_full ?b) ?ids) then 1 else 0)" for i
    using le [of i] by (auto simp: lost_def bf)
  have st: "topic_ids ?b' = topic_ids ?b" "nextID ?b' = nextID ?b"
    by (auto simp: topic_ids_def publish_result_def Let_def fun_eq_iff)
  have sum: "(\<Sum>i\<in>topic_ids ?b t'. lost ?r i)
     = (\<Sum>i\<in>topic_ids ?b t'. lost r i)
       + (if t' = t then length (filter (is_full ?b) ?ids) else 0)" for t'
  proof -
    let ?F = "set (filter (is_full ?b) ?ids)"
    have "card ?F = length (filter (is_full ?b) ?ids)"
      by (rule distinct_card) (rule distinct_filter [OF bus_invD(3) [OF inv]])
    moreover have "topic_ids ?b t' \<inter> ?F = (if t' = t then ?F else {})"
    proof -
      have "?F \<subseteq> topic_ids ?b t" using idt by (meson filter_is_subset subset_iff)
      moreover have "t' \<noteq> t \<Longrightarrow> topic_ids ?b t' \<inter> topic_ids ?b t = {}"
        by (auto simp: topic_ids_def)
      ultimately show ?thesis by auto
    qed
    ultimately show ?thesis
      by (simp add: lost sum.distrib sum.If_cases Int_def [symmetric] del: set_filter)
  qed
  have "dropped ?b' t' = dropped ?b t' + of_nat (if t' = t then length (filter (is_full ?b) ?ids) else 0)" for t'
    by (simp add: publish_result_def Let_def)
  then have "dropped ?b' t' = of_nat (\<Sum>i\<in>topic_ids ?b' t'. lost ?r i)" for t'
    by (simp only: st sum dr of_nat_add)
  moreover have "got ?r i = [] \<and> sent ?r i = []" if "nextID ?b \<le> i" for i
    using that new idt [of i] by (auto simp: topic_ids_def)
  ultimately show ?thesis
    using bus_inv_publish_result [OF inv] sb' st by (simp add: run_inv_def)
qed

lemma bus_step_inv:
  assumes inv: "run_inv r"
  obtains r' where "bus_step r x = Some r'" "run_inv r'"
proof -
  have b: "bus_inv (rbus r)" using inv by (simp add: run_inv_def)
  have "\<exists>r'. bus_step r x = Some r' \<and> run_inv r'"
  proof (cases x)
    case (OUnsub i)
    obtain b' where "Unsubscribe (rbus r) i = Some b'" by (simp add: Unsubscribe_eq [OF b])
    then show ?thesis using OUnsub run_inv_Unsubscribe [OF inv] by simp
  qed (use inv b in \<open>simp_all add: run_inv_Subscribe run_inv_recv Publish_eq run_inv_Publish\<close>)
  then show thesis using that by blast
qed

lemma bus_exec_inv: "run_inv r \<Longrightarrow> \<exists>r'. bus_exec r ops = Some r' \<and> run_inv r'"
proof (induction ops arbitrary: r)
  case (Cons x xs)
  obtain r' where "bus_step r x = Some r'" "run_inv r'" by (rule bus_step_inv [OF Cons.prems])
  then show ?case using Cons.IH by simp
qed simp

lemma reachable_inv:
  "bus_exec (start_run n) ops = Some r \<Longrightarrow> run_inv r \<and> bus_inv (rbus r)"
  using bus_exec_inv [OF run_inv_start, of n ops] by (auto simp: run_inv_def)

section \<open>What the bus promises\<close>

text \<open>C12: no interleaving of subscribe, unsubscribe, publish and receive panics (there is no send on
  a closed channel and no double close, whatever the order and however often an unsubscribe
  closure is called), and no channel ever holds more than the configured number of events.\<close>

theorem bus_never_panics:
  "\<exists>r. bus_exec (start_run n) ops = Some r
       \<and> bufferSize (NewBus n :: 'e bus) > 0
       \<and> length (buffered (rbus r) i) \<le> bufferSize (rbus r)"
proof -
  obtain r where r: "bus_exec (start_run n) ops = Some r" "run_inv r"
    using bus_exec_inv [OF run_inv_start] by blast
  then have "length (buffered (rbus r) i) \<le> bufferSize (rbus r)"
    using bus_invD(6) [of "rbus r" i]
    by (auto simp: run_inv_def buffered_def chan_ok_def split: option.splits)
  then show ?thesis using r(1) by (auto simp: NewBus_def)
qed

text \<open>C20: delivery accounting. In every execution, what a consumer has received followed by what is
  still in its channel is a subsequence of what was published on its topic while it was
  subscribed: nothing is invented, duplicated or reordered. And the drop counter of a topic is,
  modulo the width of the counter, the exact number of events missing from those sequences.\<close>

theorem bus_delivery_accounting:
  assumes "bus_exec (start_run n) ops = Some r"
  shows "subseq (got r i @ buffered (rbus r) i) (sent r i)
    \<and> Dropped (rbus r) t = of_nat (\<Sum>j\<in>topic_ids (rbus r) t.
         length (sent r j) - length (got r j @ buffered (rbus r) j))"
  using reachable_inv [OF assms] by (simp add: run_inv_def Dropped_def lost_def)

lemma bus_delivery_accounting_witness:
  "\<exists>r. bus_exec (start_run 1) [OSub TopicAlertFired, OPub TopicAlertFired (7::int),
          OPub TopicAlertFired 8, ORecv 0, OPub TopicAlertFired 9] = Some r
    \<and> subseq (got r 0 @ buffered (rbus r) 0) (sent r 0)
    \<and> got r 0 = [7] \<and> buffered (rbus r) 0 = [9] \<and> sent r 0 = [7, 8, 9]
    \<and> Dropped (rbus r) TopicAlertFired = 1"
proof -
  let ?ops = "[OSub TopicAlertFired, OPub TopicAlertFired (7::int),
          OPub TopicAlertFired 8, ORecv 0, OPub TopicAlertFired 9]"
  obtain r where r: "bus_exec (start_run 1) ?ops = Some r"
    using bus_exec_inv [OF run_inv_start] by blast
  then have "got r 0 = [7] \<and> buffered (rbus r) 0 = [9] \<and> sent r 0 = [7, 8, 9]
    \<and> Dropped (rbus r) TopicAlertFired = 1"
    by (auto simp: start_run_def NewBus_def Subscribe_def Publish_def has_room_def push_def
        recv_def buffered_def Dropped_def)
  with bus_delivery_accounting [OF r, of 0 TopicAlertFired] r show ?thesis by blast
qed

lemma length_filter_one:
  "distinct (map f xs) \<Longrightarrow> i \<in> f ` set xs \<Longrightarrow> Suc (length (filter (\<lambda>x. f x \<noteq> i) xs)) = length xs"
proof (induction xs)
  case (Cons x xs)
  show ?case
  proof (cases "f x = i")
    case True
    then have "filter (\<lambda>x. f x \<noteq> i) xs = xs" using Cons.prems(1)
      by (intro filter_True) (metis distinct.simps(2) image_eqI list.simps(9) list.set_map)
    then show ?thesis using True by simp
  next
    case False
    then show ?thesis using Cons by auto
  qed
qed simp

text \<open>Unsubscribing. The closure of a live subscription closes exactly its own channel (events
  already buffered stay readable), takes exactly one subscriber off its topic, and leaves every
  other channel alone; calling it a second time changes nothing; and no later publish, on any
  topic, touches the channel.\<close>

theorem Unsubscribe_effect:
  assumes run: "bus_exec (start_run n) ops = Some r"
    and t: "captured (rbus r) i = Some t" and live: "i \<notin> once_done (rbus r)"
  shows "\<exists>b'. Unsubscribe (rbus r) i = Some b' \<and> Unsubscribe b' i = Some b'
    \<and> Suc (SubscriberCount b' t) = SubscriberCount (rbus r) t
    \<and> (\<exists>c. heap b' i = Some c \<and> ch_closed c \<and> ch_buf c = buffered (rbus r) i)
    \<and> heap b' = (heap (rbus r))(i := heap b' i)
    \<and> (\<forall>t' e. \<exists>b''. Publish b' t' e = Some b'' \<and> heap b'' i = heap b' i)"
proof -
  let ?b = "rbus r" and ?b' = "unsub_result (rbus r) t i"
  have inv: "bus_inv ?b" using reachable_inv [OF run] by simp
  have inv': "bus_inv ?b'" by (rule bus_inv_unsub_result [OF inv t live])
  have "heap ?b i \<noteq> None" using bus_invD(4,5) [OF inv, of i] t by simp
  then obtain c where c: "heap ?b i = Some c" by auto
  have u: "Unsubscribe ?b i = Some ?b'" "Unsubscribe ?b' i = Some ?b'"
    using t live Unsubscribe_eq [OF inv] Unsubscribe_eq [OF inv'] by (simp_all add: unsub_result_def)
  have cnt: "Suc (SubscriberCount ?b' t) = SubscriberCount ?b t"
    using length_filter_one [OF bus_invD(3) [OF inv] bus_invD(7) [OF inv t live]]
    by (simp add: SubscriberCount_def unsub_result_def)
  have ch: "heap ?b' i = Some (c\<lparr>ch_closed := True\<rparr>)" "heap ?b' = (heap ?b)(i := heap ?b' i)"
    using c by (simp_all add: unsub_result_def)
  have "i \<notin> sub_id ` set (subscribers ?b' t')" for t'
  proof
    assume "i \<in> sub_id ` set (subscribers ?b' t')"
    then obtain s where s: "s \<in> set (subscribers ?b' t')" "sub_id s = i" by blast
    have "sub_ok ?b' t' s" by (rule bus_invD(2) [OF inv' s(1)])
    then show False using s(2) by (simp add: sub_ok_def unsub_result_def)
  qed
  then have pub: "\<forall>t' e. \<exists>b''. Publish ?b' t' e = Some b'' \<and> heap b'' i = heap ?b' i"
    by (simp add: Publish_eq [OF inv'] publish_result_def Let_def)
  have own: "\<exists>c'. heap ?b' i = Some c' \<and> ch_closed c' \<and> ch_buf c' = buffered ?b i"
    using c by (simp add: ch(1) buffered_def)
  show ?thesis
    by (rule exI [of _ ?b']) (intro conjI u cnt own ch(2) pub)
qed

lemma Unsubscribe_effect_witness:
  "\<exists>b'. Unsubscribe (fst (Subscribe (NewBus 4 :: int bus) TopicSystemHealth)) 0 = Some b'
    \<and> Unsubscribe b' 0 = Some b' \<and> SubscriberCount b' TopicSystemHealth = 0"
proof -
  let ?r = "(start_run 4 :: int bus_run)\<lparr>rbus := fst (Subscribe (NewBus 4) TopicSystemHealth)\<rparr>"
  have r: "bus_exec (start_run 4) [OSub TopicSystemHealth] = Some ?r"
    by (simp add: start_run_def)
  have t: "captured (rbus ?r) 0 = Some TopicSystemHealth" and l: "0 \<notin> once_done (rbus ?r)"
    and c: "SubscriberCount (rbus ?r) TopicSystemHealth = 1"
    by (simp_all add: NewBus_def Subscribe_fields SubscriberCount_def)
  obtain b' where "Unsubscribe (rbus ?r) 0 = Some b'" "Unsubscribe b' 0 = Some b'"
    "Suc (SubscriberCount b' TopicSystemHealth) = SubscriberCount (rbus ?r) TopicSystemHealth"
    using Unsubscribe_effect [OF r t l] by blast
  then show ?thesis using c by simp
qed

end
