(* ===== verification/Limiter.thy ===== *)
theory Limiter
  imports Prelude
begin

text \<open>
  The contract of a per-key sliding-window request limiter, which two components implement
  (\<open>engine/querybroker/quota.go\<close> and \<open>engine/api/ratelimit.go\<close>): the interface as a locale, a
  reference limiter that remembers every request it ever admitted, and what follows from the
  contract for a whole sequence of requests.
\<close>

section \<open>Request sequences\<close>

text \<open>The instants of a window that lie within the minute before \<open>now\<close>.\<close>

definition recent :: "time \<Rightarrow> time list \<Rightarrow> time list" where
  "recent now w = filter (\<lambda>ts. ts > now - Minute) w"

text \<open>Runs a limiter over requests (instant, key); the instants at which key \<open>k\<close> was let through.\<close>

fun admitted ::
  "('s \<Rightarrow> time \<Rightarrow> string \<Rightarrow> bool \<times> 's) \<Rightarrow> 's \<Rightarrow> string \<Rightarrow> (time \<times> string) list \<Rightarrow> time list" where
  "admitted al s k [] = []"
| "admitted al s k ((now, key) # rs) =
     (case al s now key of (ok, s') \<Rightarrow>
        if ok \<and> key = k then now # admitted al s' k rs else admitted al s' k rs)"

text \<open>The reference: a request passes if fewer than \<open>lim\<close> of the requests admitted so far lie in the
  minute before it, or if the limit is not positive (then there is none).\<close>

fun reference :: "int \<Rightarrow> time list \<Rightarrow> string \<Rightarrow> (time \<times> string) list \<Rightarrow> time list" where
  "reference lim H k [] = []"
| "reference lim H k ((now, key) # rs) =
     (if key = k \<and> (lim \<le> 0 \<or> int (length (recent now H)) < lim)
      then now # reference lim (H @ [now]) k rs else reference lim H k rs)"

text \<open>How many instants lie in the half-open minute that ends at \<open>t\<close>.\<close>

definition in_minute :: "time \<Rightarrow> time list \<Rightarrow> nat" where
  "in_minute t H = length (filter (\<lambda>x. t - Minute < x \<and> x \<le> t) H)"

lemma in_minute_append [simp]: "in_minute t (G @ H) = in_minute t G + in_minute t H"
  by (simp add: in_minute_def)

lemma in_minute_later: "t < x \<Longrightarrow> in_minute t [x] = 0"
  by (simp add: in_minute_def)

lemma in_minute_le_recent: "now \<le> t \<Longrightarrow> in_minute t H \<le> length (recent now H)"
  unfolding in_minute_def recent_def by (rule length_filter_mono) auto

lemma reference_bound:
  assumes "sorted (map fst rs)" and "\<forall>r\<in>set rs. T \<le> fst r" and "\<forall>x\<in>set H. x \<le> T"
    and "0 < lim" and "\<forall>t. int (in_minute t H) \<le> lim"
  shows "int (in_minute t (H @ reference lim H k rs)) \<le> lim"
  using assms
proof (induction rs arbitrary: H T)
  case (Cons r rs)
  obtain now key where r: "r = (now, key)" by (cases r)
  have srt: "sorted (map fst rs)" "\<forall>r\<in>set rs. now \<le> fst r" using Cons.prems(1) r by auto
  have Hn: "\<forall>x\<in>set H. x \<le> now" using Cons.prems(2,3) r by fastforce
  show ?case
  proof (cases "key = k \<and> int (length (recent now H)) < lim")
    case True
    have b: "\<forall>t. int (in_minute t (H @ [now])) \<le> lim"
    proof
      fix t
      show "int (in_minute t (H @ [now])) \<le> lim"
      proof (cases "t < now")
        case True
        then show ?thesis using Cons.prems(5) by (simp add: in_minute_later)
      next
        case False
        then have "in_minute t H \<le> length (recent now H)" by (simp add: in_minute_le_recent)
        moreover have "in_minute t [now] \<le> 1" by (simp add: in_minute_def)
        ultimately show ?thesis using True by simp
      qed
    qed
    from Cons.IH [OF srt _ Cons.prems(4) b] Hn show ?thesis using True r by simp
  next
    case False
    from Cons.IH [OF srt Hn Cons.prems(4,5)] show ?thesis using False r Cons.prems(4) by auto
  qed
qed simp

section \<open>The interface\<close>

locale sliding_limiter =
  fixes allow :: "'s \<Rightarrow> time \<Rightarrow> string \<Rightarrow> bool \<times> 's"
    and window :: "'s \<Rightarrow> string \<Rightarrow> time list"
    and limit :: "'s \<Rightarrow> int"
  assumes limit_kept: "limit (snd (allow s now k)) = limit s"
    and no_limit: "limit s \<le> 0 \<Longrightarrow> fst (allow s now k)"
    and decide: "0 < limit s \<Longrightarrow> fst (allow s now k) \<longleftrightarrow> int (length (recent now (window s k))) < limit s"
    and window_own: "0 < limit s \<Longrightarrow> window (snd (allow s now k)) k =
          recent now (window s k) @ (if fst (allow s now k) then [now] else [])"
    and window_other: "k' \<noteq> k \<Longrightarrow> window (snd (allow s now k)) k' = window s k'"
begin

text \<open>Dropping what is older than a minute loses nothing as long as time does not go back: the
  window always decides as the whole history would.\<close>

lemma admitted_eq_reference:
  assumes "sorted (map fst rs)" and "\<forall>r\<in>set rs. T \<le> fst r"
    and "window s k = filter (\<lambda>x. x > c) H" and "c \<le> T - Minute"
  shows "admitted allow s k rs = reference (limit s) H k rs"
  using assms
proof (induction rs arbitrary: s H T c)
  case (Cons r rs)
  obtain now key where r: "r = (now, key)" by (cases r)
  obtain ok s' where a: "allow s now key = (ok, s')" by (cases "allow s now key")
  have srt: "sorted (map fst rs)" "\<forall>r\<in>set rs. now \<le> fst r" using Cons.prems(1) r by auto
  have Tn: "T \<le> now" using Cons.prems(2) r by simp
  have lim: "limit s' = limit s" using limit_kept [of s now key] a by simp
  have rec: "recent now (window s k) = recent now H"
    using Cons.prems(3,4) Tn by (auto simp: recent_def intro!: filter_cong)
  show ?case
  proof (cases "key = k")
    case False
    then have "window s' k = filter (\<lambda>x. x > c) H"
      using window_other [of k key s now] a Cons.prems(3) by simp
    from Cons.IH [OF srt this] Cons.prems(4) Tn False r a lim show ?thesis by simp
  next
    case key: True
    show ?thesis
    proof (cases "0 < limit s")
      case True
      have ok: "ok \<longleftrightarrow> int (length (recent now H)) < limit s"
        using decide [OF True, of now k] a key rec by simp
      have w: "window s' k = recent now H @ (if ok then [now] else [])"
        using window_own [OF True, of now k] a key rec by simp
      then have "window s' k = filter (\<lambda>x. x > now - Minute) (if ok then H @ [now] else H)"
        by (simp add: recent_def)
      from Cons.IH [OF srt this] show ?thesis using r a lim key ok True by simp
    next
      case False
      then have ok: "ok" using no_limit [of s now key] a by simp
      have triv: "admitted allow u k qs = map fst (filter (\<lambda>q. snd q = k) qs)
          \<and> reference (limit s) G k qs = map fst (filter (\<lambda>q. snd q = k) qs)"
        if "limit u = limit s" for u qs G
        using that
      proof (induction qs arbitrary: u G)
        case (Cons q qs)
        obtain n ky where q: "q = (n, ky)" by (cases q)
        obtain o' u' where b: "allow u n ky = (o', u')" by (cases "allow u n ky")
        have "o'" "limit u' = limit s"
          using no_limit [of u n ky] limit_kept [of u n ky] b Cons.prems False by auto
        then show ?case using Cons.IH [of u'] q b False by simp
      qed simp
      from triv [OF refl, of "r # rs" H] show ?thesis by simp
    qed
  qed
qed simp

lemma admitted_fresh:
  assumes "sorted (map fst rs)" and "window s k = []"
  shows "admitted allow s k rs = reference (limit s) [] k rs"
proof (cases rs)
  case (Cons r rs')
  have "\<forall>q\<in>set rs. fst r \<le> fst q" using assms(1) Cons by auto
  from admitted_eq_reference [OF assms(1) this, of s k "fst r - Minute" "[]"] assms(2)
  show ?thesis by simp
qed simp

lemma rate_bound:
  assumes "sorted (map fst rs)" and "window s k = []" and "0 < limit s"
  shows "int (in_minute t (admitted allow s k rs)) \<le> limit s"
proof (cases rs)
  case Nil
  then show ?thesis using assms(3) by (simp add: in_minute_def)
next
  case (Cons r rs')
  have "\<forall>q\<in>set rs. fst r \<le> fst q" using assms(1) Cons by auto
  from reference_bound [OF assms(1) this, of "[]" "limit s" t k] assms
  show ?thesis by (simp add: admitted_fresh in_minute_def)
qed

end

end
