(* ===== verification/Quota.thy ===== *)
theory Quota
  imports Limiter
begin

text \<open>\<open>engine/querybroker/quota.go\<close>: the per-user request quota of the query broker. A missing key
  of a Go map reads as the nil slice, so the windows are a total function into lists. \<open>Allow\<close> reads
  the clock while it holds the mutex: the reading is an argument.\<close>

record quota =
  RequestsPerMinute :: int
  MaxRowsToRead :: "64 word"

record quota_tracker =
  qt_quota :: quota
  qt_windows :: "string \<Rightarrow> time list"

definition NewQuotaTracker :: "quota \<Rightarrow> quota_tracker" where
  "NewQuotaTracker q = \<lparr>qt_quota = q, qt_windows = (\<lambda>_. [])\<rparr>"

definition Allow :: "quota_tracker \<Rightarrow> time \<Rightarrow> string \<Rightarrow> bool \<times> quota_tracker" where
  "Allow t now userID =
     (if RequestsPerMinute (qt_quota t) \<le> 0 then (True, t)
      else
        let cutoff = now + - Minute;
            kept = filter (\<lambda>ts. ts > cutoff) (qt_windows t userID)
        in if int (length kept) \<ge> RequestsPerMinute (qt_quota t)
           then (False, t\<lparr>qt_windows := (qt_windows t)(userID := kept)\<rparr>)
           else (True, t\<lparr>qt_windows := (qt_windows t)(userID := kept @ [now])\<rparr>))"

lemma Allow_quota [simp]: "qt_quota (snd (Allow t now u)) = qt_quota t"
  by (simp add: Allow_def Let_def)

interpretation qt: sliding_limiter Allow qt_windows "\<lambda>t. RequestsPerMinute (qt_quota t)"
  by unfold_locales (auto simp: Allow_def Let_def recent_def)

text \<open>C25: the broker's quota admits, for every user, exactly the requests the reference limiter
  admits, which counts over the whole history of admitted requests; and so in any minute no user
  gets more requests through than the quota allows, however the users' requests interleave.\<close>

theorem quota_sliding_window:
  assumes "sorted (map fst rs)" and "0 < RequestsPerMinute q"
  shows "admitted Allow (NewQuotaTracker q) u rs = reference (RequestsPerMinute q) [] u rs
    \<and> int (in_minute t (admitted Allow (NewQuotaTracker q) u rs)) \<le> RequestsPerMinute q"
  using qt.admitted_fresh [OF assms(1), of "NewQuotaTracker q" u]
    qt.rate_bound [OF assms(1), of "NewQuotaTracker q" u t] assms(2)
  by (simp add: NewQuotaTracker_def)

lemma quota_sliding_window_witness:
  "let q = \<lparr>RequestsPerMinute = 2, MaxRowsToRead = 0\<rparr>;
       rs = [(0::time, ''a''), (1, ''a''), (2, ''b''), (3, ''a''), (60 * 10 ^ 9, ''a'')] in
   admitted Allow (NewQuotaTracker q) ''a'' rs = [0, 1, 60 * 10 ^ 9]
   \<and> int (in_minute 5 (admitted Allow (NewQuotaTracker q) ''a'' rs)) \<le> 2"
proof -
  let ?q = "\<lparr>RequestsPerMinute = 2, MaxRowsToRead = 0\<rparr>"
  let ?rs = "[(0::time, ''a''), (1, ''a''), (2, ''b''), (3, ''a''), (60 * 10 ^ 9, ''a'')]"
  have s: "sorted (map fst ?rs)" and p: "0 < RequestsPerMinute ?q" by simp_all
  have a: "admitted Allow (NewQuotaTracker ?q) ''a'' ?rs = [0, 1, 60 * 10 ^ 9]"
    by (simp add: Allow_def NewQuotaTracker_def Minute_def Let_def)
  have "int (in_minute 5 (admitted Allow (NewQuotaTracker ?q) ''a'' ?rs)) \<le> 2"
    using quota_sliding_window [OF s p, of "''a''" 5, THEN conjunct2]
    by (simp only: quota.select_convs)
  with a show ?thesis by (simp only: Let_def)
qed

end
