(* ===== verification/RateLimit.thy ===== *)
theory RateLimit
  imports Quota
begin

text \<open>\<open>engine/api/ratelimit.go\<close>: the per-key window in front of every HTTP route (the middleware that
  calls it is in the theory of the routes) and the key, the caller's address without its port.\<close>

record sliding_window =
  sw_limit :: int
  sw_windows :: "string \<Rightarrow> time list"

definition newSlidingWindow :: "int \<Rightarrow> sliding_window" where
  "newSlidingWindow n = \<lparr>sw_limit = n, sw_windows = (\<lambda>_. [])\<rparr>"

definition allow :: "sliding_window \<Rightarrow> time \<Rightarrow> string \<Rightarrow> bool \<times> sliding_window" where
  "allow s now key =
     (if sw_limit s \<le> 0 then (True, s)
      else
        let cutoff = now + - Minute;
            kept = filter (\<lambda>ts. ts > cutoff) (sw_windows s key)
        in if int (length kept) \<ge> sw_limit s
           then (False, s\<lparr>sw_windows := (sw_windows s)(key := kept)\<rparr>)
           else (True, s\<lparr>sw_windows := (sw_windows s)(key := kept @ [now])\<rparr>))"

text \<open>\<open>net.SplitHostPort\<close>: the host before the last colon, with the brackets of an IPv6 literal
  removed; no host (an error) when the port is missing, the colons are too many, or a bracket is
  out of place.\<close>

fun break_at :: "char \<Rightarrow> string \<Rightarrow> (string \<times> string) option" where
  "break_at c [] = None"
| "break_at c (x # xs) =
     (if x = c then Some ([], xs) else map_option (\<lambda>(a, b). (x # a, b)) (break_at c xs))"

definition break_last :: "char \<Rightarrow> string \<Rightarrow> (string \<times> string) option" where
  "break_last c s = map_option (\<lambda>(a, b). (rev b, rev a)) (break_at c (rev s))"

definition SplitHostPort :: "string \<Rightarrow> (string \<times> string) option" where
  "SplitHostPort hp =
     (case break_last CHR '':'' hp of
        None \<Rightarrow> None
      | Some (host, port) \<Rightarrow>
        if hp \<noteq> [] \<and> hd hp = CHR ''['' then
          (case break_at CHR '']'' (tl hp) of
             None \<Rightarrow> None
           | Some (h, after) \<Rightarrow>
               if after = CHR '':'' # port \<and> CHR ''['' \<notin> set (tl hp) \<and> CHR '']'' \<notin> set after
               then Some (h, port) else None)
        else if CHR '':'' \<in> set host \<or> CHR ''['' \<in> set hp \<or> CHR '']'' \<in> set hp then None
        else Some (host, port))"

definition ByRemoteIP :: "string \<Rightarrow> string" where
  "ByRemoteIP remoteAddr =
     (case SplitHostPort remoteAddr of None \<Rightarrow> remoteAddr | Some (host, _) \<Rightarrow> host)"

lemma break_at_notin: "break_at c s = None \<longleftrightarrow> c \<notin> set s"
  by (induction s) auto

lemma break_at_append: "c \<notin> set a \<Longrightarrow> break_at c (a @ c # b) = Some (a, b)"
  by (induction a) auto

lemma break_last_append: "c \<notin> set b \<Longrightarrow> break_last c (a @ c # b) = Some (a, b)"
  by (simp add: break_last_def break_at_append)

lemma ByRemoteIP_ipv4:
  assumes "CHR '':'' \<notin> set h" "CHR ''['' \<notin> set h" "CHR '']'' \<notin> set h"
    and "CHR '':'' \<notin> set p" "CHR ''['' \<notin> set p" "CHR '']'' \<notin> set p"
  shows "ByRemoteIP (h @ CHR '':'' # p) = h"
proof -
  have "hd (h @ CHR '':'' # p) \<noteq> CHR ''[''" using assms(2) by (cases h) auto
  then have "SplitHostPort (h @ CHR '':'' # p) = Some (h, p)"
    using break_last_append [OF assms(4), of h] assms by (simp add: SplitHostPort_def)
  then show ?thesis by (simp add: ByRemoteIP_def)
qed

section \<open>The two windows are the same limiter\<close>

interpretation sw: sliding_limiter allow sw_windows sw_limit
  by unfold_locales (auto simp: allow_def Let_def recent_def)

text \<open>The HTTP limiter and the query quota, written twice in the sources, are one limiter: with
  the same limit they admit the same requests of every key, those of the reference limiter, so
  both keep at most the limit in any minute.\<close>

theorem rate_limit_equals_quota:
  assumes "sorted (map fst rs)" and "0 < RequestsPerMinute q"
  shows "admitted allow (newSlidingWindow (RequestsPerMinute q)) k rs
       = admitted Allow (NewQuotaTracker q) k rs
    \<and> int (in_minute t (admitted allow (newSlidingWindow (RequestsPerMinute q)) k rs))
        \<le> RequestsPerMinute q"
  using sw.admitted_fresh [OF assms(1), of "newSlidingWindow (RequestsPerMinute q)" k]
    qt.admitted_fresh [OF assms(1), of "NewQuotaTracker q" k]
    sw.rate_bound [OF assms(1), of "newSlidingWindow (RequestsPerMinute q)" k t] assms(2)
  by (simp add: NewQuotaTracker_def newSlidingWindow_def)

lemma rate_limit_equals_quota_witness:
  "let q = \<lparr>RequestsPerMinute = 1, MaxRowsToRead = 0\<rparr>;
       rs = [(0::time, ''10.0.0.1''), (5, ''10.0.0.2''), (9, ''10.0.0.1'')] in
   admitted allow (newSlidingWindow 1) ''10.0.0.1'' rs
     = admitted Allow (NewQuotaTracker q) ''10.0.0.1'' rs"
proof -
  let ?q = "\<lparr>RequestsPerMinute = 1, MaxRowsToRead = 0\<rparr>"
  let ?rs = "[(0::time, ''10.0.0.1''), (5, ''10.0.0.2''), (9, ''10.0.0.1'')]"
  have s: "sorted (map fst ?rs)" and p: "0 < RequestsPerMinute ?q" by simp_all
  from rate_limit_equals_quota [OF s p, of "''10.0.0.1''", THEN conjunct1] show ?thesis
    by (simp only: Let_def quota.select_convs)
qed

end
