(* ===== verification/WsRateLimit.thy ===== *)
theory WsRateLimit
  imports Limiter
begin

text \<open>\<open>engine/wshub/ratelimit.go\<close>: the fixed-window counter on a client's inbound control messages.\<close>

record message_rate_limiter =
  rl_limit :: int
  rl_window :: time
  rl_count :: int

definition newMessageRateLimiter :: "int \<Rightarrow> time \<Rightarrow> message_rate_limiter" where
  "newMessageRateLimiter perSecond now =
     \<lparr>rl_limit = perSecond, rl_window = now, rl_count = 0\<rparr>"

definition rl_allow :: "message_rate_limiter \<Rightarrow> time \<Rightarrow> bool \<times> message_rate_limiter" where
  "rl_allow r now =
     (let r1 = (if now - rl_window r \<ge> Second then r\<lparr>rl_window := now, rl_count := 0\<rparr> else r);
          r2 = r1\<lparr>rl_count := rl_count r1 + 1\<rparr>
      in (rl_count r2 \<le> rl_limit r2, r2))"

fun rl_admitted :: "message_rate_limiter \<Rightarrow> time list \<Rightarrow> time list" where
  "rl_admitted r [] = []"
| "rl_admitted r (now # ts) =
     (case rl_allow r now of (ok, r') \<Rightarrow>
        if ok then now # rl_admitted r' ts else rl_admitted r' ts)"

definition in_second :: "time \<Rightarrow> time list \<Rightarrow> nat" where
  "in_second t H = length (filter (\<lambda>x. t - Second < x \<and> x \<le> t) H)"

lemma in_second_append [simp]: "in_second t (G @ H) = in_second t G + in_second t H"
  by (simp add: in_second_def)

lemma in_second_le_length: "in_second t H \<le> length H"
  by (simp add: in_second_def)

text \<open>What holds between messages: \<open>G\<close> are the messages let through before the current window
  opened, \<open>C\<close> those in it.\<close>

definition rl_inv :: "message_rate_limiter \<Rightarrow> time list \<Rightarrow> time list \<Rightarrow> bool" where
  "rl_inv r G C \<longleftrightarrow>
     (\<forall>x\<in>set C. rl_window r \<le> x) \<and> (\<forall>x\<in>set G. x < rl_window r)
   \<and> 0 \<le> rl_count r \<and> int (length C) = min (rl_count r) (rl_limit r)
   \<and> (\<forall>t. int (in_second t G) \<le> 2 * rl_limit r)
   \<and> int (length (filter (\<lambda>x. rl_window r - Second < x) G)) \<le> rl_limit r"

lemma rl_inv_bound:
  assumes "rl_inv r G C"
  shows "int (in_second t (G @ C)) \<le> 2 * rl_limit r"
proof (cases "t < rl_window r")
  case True
  have "filter (\<lambda>x. t - Second < x \<and> x \<le> t) C = []"
    using assms True by (auto simp: rl_inv_def filter_empty_conv)
  then have "in_second t C = 0" by (simp add: in_second_def)
  then show ?thesis using assms by (simp add: rl_inv_def)
next
  case False
  then have "in_second t G \<le> length (filter (\<lambda>x. rl_window r - Second < x) G)"
    unfolding in_second_def by (intro length_filter_mono) auto
  moreover have "int (length (filter (\<lambda>x. rl_window r - Second < x) G)) \<le> rl_limit r"
    "int (length C) \<le> rl_limit r" using assms by (simp_all add: rl_inv_def)
  moreover note in_second_le_length [of t C]
  ultimately show ?thesis unfolding in_second_append of_nat_add by linarith
qed

text \<open>A new window opens: what was current becomes the past.\<close>

lemma rl_inv_reopen:
  assumes inv: "rl_inv r G C" and "rl_window r + Second \<le> now" and C: "\<forall>x\<in>set C. x < now"
  shows "rl_inv (r\<lparr>rl_window := now, rl_count := 0\<rparr>) (G @ C) []"
proof -
  have G: "\<forall>x\<in>set G. x < rl_window r" and lim: "int (length C) \<le> rl_limit r"
    using inv by (simp_all add: rl_inv_def)
  then have "\<forall>x\<in>set G. x \<le> now - Second" using assms(2) by fastforce
  then have "filter (\<lambda>x. now - Second < x) G = []" by (auto simp: filter_empty_conv)
  then have len: "int (length (filter (\<lambda>x. now - Second < x) (G @ C))) \<le> rl_limit r"
    using lim order_trans [OF of_nat_mono [OF length_filter_le [of "(<) (now - Second)" C]]] by simp
  have old: "\<forall>x\<in>set (G @ C). x < now"
  proof
    fix x assume "x \<in> set (G @ C)"
    then consider "x < rl_window r" | "x < now" using G C by auto
    then show "x < now" using assms(2) units_pos(2) by cases linarith+
  qed
  show ?thesis
    unfolding rl_inv_def
    using old len lim rl_inv_bound [OF inv] by simp
qed

lemma rl_admitted_bound:
  assumes "rl_inv r G C" and "sorted ts" and "\<forall>x\<in>set ts. rl_window r \<le> x \<and> (\<forall>c\<in>set C. c \<le> x)"
    and "\<forall>c\<in>set C. c < rl_window r + Second"
  shows "int (in_second t (G @ C @ rl_admitted r ts)) \<le> 2 * rl_limit r"
  using assms
proof (induction ts arbitrary: r G C)
  case Nil
  then show ?case using rl_inv_bound by fastforce
next
  case (Cons now ts)
  define fresh where "fresh = (now - rl_window r \<ge> Second)"
  define r1 where "r1 = (if fresh then r\<lparr>rl_window := now, rl_count := 0\<rparr> else r)"
  define G1 where "G1 = (if fresh then G @ C else G)"
  define C1 where "C1 = (if fresh then [] else C)"
  have GC: "G1 @ C1 = G @ C" by (simp add: G1_def C1_def)
  have now: "rl_window r \<le> now" "\<forall>c\<in>set C. c \<le> now" using Cons.prems(3) by auto
  have inv1: "rl_inv r1 G1 C1"
  proof (cases fresh)
    case True
    then have w: "rl_window r + Second \<le> now" by (simp add: fresh_def)
    then have "\<forall>c\<in>set C. c < now" using Cons.prems(4) by fastforce
    from rl_inv_reopen [OF Cons.prems(1) w this] show ?thesis
      using True by (simp add: r1_def G1_def C1_def)
  next
    case False
    then show ?thesis using Cons.prems(1) by (simp add: r1_def G1_def C1_def)
  qed
  define ok where "ok = (rl_count r1 + 1 \<le> rl_limit r1)"
  define r2 where "r2 = r1\<lparr>rl_count := rl_count r1 + 1\<rparr>"
  define C2 where "C2 = (if ok then C1 @ [now] else C1)"
  have al: "rl_allow r now = (ok, r2)"
    by (simp add: rl_allow_def Let_def r1_def r2_def ok_def fresh_def)
  have w1: "rl_window r1 \<le> now" "now < rl_window r1 + Second" "\<forall>c\<in>set C1. c < rl_window r1 + Second"
    "\<forall>c\<in>set C1. c \<le> now"
    using now Cons.prems(4) by (auto simp: r1_def fresh_def C1_def)
  have inv2: "rl_inv r2 G1 C2"
    using inv1 w1(1) by (auto simp: rl_inv_def r2_def C2_def ok_def)
  have "\<forall>x\<in>set ts. rl_window r2 \<le> x \<and> (\<forall>c\<in>set C2. c \<le> x)"
    using Cons.prems(2) w1 by (fastforce simp: r2_def C2_def split: if_splits)
  moreover have "\<forall>c\<in>set C2. c < rl_window r2 + Second"
    using w1 by (auto simp: C2_def r2_def)
  moreover have "sorted ts" using Cons.prems(2) by simp
  ultimately have "int (in_second t (G1 @ C2 @ rl_admitted r2 ts)) \<le> 2 * rl_limit r2"
    using Cons.IH [OF inv2] by blast
  moreover have "G1 @ C2 @ rl_admitted r2 ts = G @ C @ rl_admitted r (now # ts)"
    using GC by (simp add: al C2_def flip: append_assoc)
  moreover have "rl_limit r2 = rl_limit r" by (simp add: r2_def r1_def)
  ultimately show ?case by simp
qed

text \<open>The control-message limiter. Whatever the arrival times, at most twice the configured
  number of messages passes in any one second (the window is fixed, so two adjacent windows can
  both spend their budget within a second); a message that arrives when less than the limit was
  counted since the window opened always passes, and the first one a second or more after the
  window opened starts a new window.\<close>

theorem rl_admits_at_most_twice:
  assumes "sorted ts" and "\<forall>x\<in>set ts. start \<le> x" and "0 \<le> n"
  shows "int (in_second t (rl_admitted (newMessageRateLimiter n start) ts)) \<le> 2 * n
    \<and> (0 \<le> rl_count r \<and> rl_count r < rl_limit r \<longrightarrow> fst (rl_allow r now))
    \<and> (rl_window r + Second \<le> now \<longrightarrow> 0 < rl_limit r
         \<longrightarrow> fst (rl_allow r now) \<and> rl_window (snd (rl_allow r now)) = now)"
proof -
  have "rl_inv (newMessageRateLimiter n start) [] []"
    using assms(3) by (simp add: rl_inv_def newMessageRateLimiter_def in_second_def)
  from rl_admitted_bound [OF this assms(1), of t] assms(2)
  have "int (in_second t (rl_admitted (newMessageRateLimiter n start) ts)) \<le> 2 * n"
    by (simp add: newMessageRateLimiter_def)
  then show ?thesis by (auto simp: rl_allow_def Let_def)
qed

lemma rl_admits_at_most_twice_witness:
  "let ts = [0, 999999999, 1000000000, 1000000001] in
   rl_admitted (newMessageRateLimiter 1 0) ts = [0, 1000000000]
   \<and> int (in_second 1000000001 (rl_admitted (newMessageRateLimiter 1 0) ts)) \<le> 2"
proof -
  let ?ts = "[0, 999999999, 1000000000, 1000000001] :: time list"
  have "sorted ?ts" "\<forall>x\<in>set ?ts. 0 \<le> x" by simp_all
  from rl_admits_at_most_twice [OF this zero_le_one, of 1000000001, THEN conjunct1]
  have "int (in_second 1000000001 (rl_admitted (newMessageRateLimiter 1 0) ?ts)) \<le> 2 * 1" .
  then have "int (in_second 1000000001 (rl_admitted (newMessageRateLimiter 1 0) ?ts)) \<le> 2"
    by (simp only: mult_1_right)
  moreover have "rl_admitted (newMessageRateLimiter 1 0) ?ts = [0, 1000000000]"
    by (simp add: rl_allow_def newMessageRateLimiter_def Second_def Let_def)
  ultimately show ?thesis by (simp only: Let_def)
qed

end
