(* ===== verification/GoIo.thy ===== *)
theory GoIo
  imports KErrors
begin

text \<open>
  The parts of Go's \<open>net/http\<close> and \<open>bufio\<close> that several components use: requests a client sends
  and what comes back, responses a handler writes, and the line scanner. The network is outside
  the program: what a client's \<open>Do\<close> gives for a request is an argument of the definitions.
\<close>

section \<open>HTTP clients\<close>

record http_request =
  rq_method :: string
  rq_url :: string
  rq_query :: "(string \<times> string) list"
  rq_headers :: "(string \<times> string) list"
  rq_body :: string

text \<open>A failed call (with \<open>ctx.Err()\<close> at that point), or a response: status, the body bytes that
  could be read, and the error that ended the reading, if one did.\<close>

datatype http_outcome =
    Fails goerr "goerr option"
  | Response nat string "goerr option"

text \<open>What a call sees of the outside: the error of building the request (a malformed URL), if any,
  and the network.\<close>

record net =
  build_error :: "goerr option"
  client_do :: "http_request \<Rightarrow> http_outcome"

definition StatusOK :: nat where "StatusOK = 200"
definition StatusCreated :: nat where "StatusCreated = 201"
definition StatusAccepted :: nat where "StatusAccepted = 202"
definition StatusNoContent :: nat where "StatusNoContent = 204"
definition StatusBadRequest :: nat where "StatusBadRequest = 400"
definition StatusUnauthorized :: nat where "StatusUnauthorized = 401"
definition StatusForbidden :: nat where "StatusForbidden = 403"
definition StatusNotFound :: nat where "StatusNotFound = 404"
definition StatusMethodNotAllowed :: nat where "StatusMethodNotAllowed = 405"
definition StatusConflict :: nat where "StatusConflict = 409"
definition StatusTooManyRequests :: nat where "StatusTooManyRequests = 429"
definition StatusInternalServerError :: nat where "StatusInternalServerError = 500"

lemmas status_defs = StatusOK_def StatusCreated_def StatusAccepted_def StatusNoContent_def
  StatusBadRequest_def StatusUnauthorized_def StatusForbidden_def StatusNotFound_def
  StatusMethodNotAllowed_def StatusConflict_def StatusTooManyRequests_def
  StatusInternalServerError_def

section \<open>bufio.Scanner over lines\<close>

text \<open>The scanner splits at newlines and drops one carriage return before the newline; text after
  the last newline is a last line if it is not empty. A line that does not fit the buffer ends the
  scan with an error, as does an error of the reader (after the bytes read so far). The result is
  the tokens and \<open>scanner.Err()\<close>.\<close>

definition ErrTooLong :: goerr where "ErrTooLong = Plain ''bufio.Scanner: token too long''"

definition raw_lines :: "string \<Rightarrow> string list" where
  "raw_lines s = (let ps = split_on nl s in if last ps = [] then butlast ps else ps)"

definition drop_cr :: "string \<Rightarrow> string" where
  "drop_cr l = (if l \<noteq> [] \<and> last l = cr then butlast l else l)"

fun scan_tokens :: "nat \<Rightarrow> string list \<Rightarrow> goerr option \<Rightarrow> string list \<times> goerr option" where
  "scan_tokens m [] err = ([], err)"
| "scan_tokens m (l # ls) err =
     (if length l \<ge> m then ([], Some ErrTooLong)
      else (case scan_tokens m ls err of (ts, e) \<Rightarrow> (drop_cr l # ts, e)))"

definition scan_lines :: "nat \<Rightarrow> string \<Rightarrow> goerr option \<Rightarrow> string list \<times> goerr option" where
  "scan_lines m body read_err = scan_tokens m (raw_lines body) read_err"

lemma scan_tokens_all:
  "\<forall>l\<in>set ls. length l < m \<Longrightarrow> scan_tokens m ls err = (map drop_cr ls, err)"
  by (induction ls) auto

lemma scan_tokens_cut:
  "\<forall>l\<in>set ls. length l < m \<Longrightarrow> length big \<ge> m
   \<Longrightarrow> scan_tokens m (ls @ big # rest) err = (map drop_cr ls, Some ErrTooLong)"
  by (induction ls) auto

end
