(* ===== verification/ResultCache.thy ===== *)
theory ResultCache
  imports Prelude
begin

text \<open>\<open>engine/querybroker/cache.go\<close>: the result cache with a time to live, expired lazily. The
  interface the broker relies on is a locale; its consequence is that a lookup gives exactly the
  last value stored under the key, if that was at most the time to live ago.\<close>

record cache_entry =
  ce_body :: string
  ce_expiresAt :: time

record cache =
  c_ttl :: duration
  c_entries :: "string \<rightharpoonup> cache_entry"

definition NewCache :: "duration \<Rightarrow> cache" where
  "NewCache ttl = \<lparr>c_ttl = ttl, c_entries = Map.empty\<rparr>"

definition Get :: "cache \<Rightarrow> time \<Rightarrow> string \<Rightarrow> string option \<times> cache" where
  "Get c now key =
     (if c_ttl c \<le> 0 then (None, c)
      else
        (case c_entries c key of
           None \<Rightarrow> (None, c)
         | Some entry \<Rightarrow>
             if now > ce_expiresAt entry
             then (None, c\<lparr>c_entries := (c_entries c)(key := None)\<rparr>)
             else (Some (ce_body entry), c)))"

definition Set :: "cache \<Rightarrow> time \<Rightarrow> string \<Rightarrow> string \<Rightarrow> cache" where
  "Set c now key body =
     (if c_ttl c \<le> 0 then c
      else c\<lparr>c_entries := (c_entries c)(key \<mapsto> \<lparr>ce_body = body, ce_expiresAt = now + c_ttl c\<rparr>)\<rparr>)"

text \<open>What a lookup would give, without the lazy removal.\<close>

definition peek :: "cache \<Rightarrow> time \<Rightarrow> string \<Rightarrow> string option" where
  "peek c now key =
     (if c_ttl c \<le> 0 then None
      else (case c_entries c key of None \<Rightarrow> None
            | Some e \<Rightarrow> if now > ce_expiresAt e then None else Some (ce_body e)))"

section \<open>The interface\<close>

datatype 'v store_op = Lookup time string | Store time string 'v

fun op_time :: "'v store_op \<Rightarrow> time" where
  "op_time (Lookup t _) = t"
| "op_time (Store t _ _) = t"

text \<open>The specification: the last value stored under a key, with the instant it was stored.\<close>

fun last_store :: "string \<Rightarrow> 'v store_op list \<Rightarrow> (time \<times> 'v) option" where
  "last_store k [] = None"
| "last_store k (Lookup _ _ # ops) = last_store k ops"
| "last_store k (Store t k' v # ops) =
     (case last_store k ops of Some r \<Rightarrow> Some r | None \<Rightarrow> if k' = k then Some (t, v) else None)"

fun run_store ::
  "('s \<Rightarrow> time \<Rightarrow> string \<Rightarrow> 'v option \<times> 's) \<Rightarrow> ('s \<Rightarrow> time \<Rightarrow> string \<Rightarrow> 'v \<Rightarrow> 's)
   \<Rightarrow> 's \<Rightarrow> 'v store_op list \<Rightarrow> 's" where
  "run_store g p s [] = s"
| "run_store g p s (Lookup t k # ops) = run_store g p (snd (g s t k)) ops"
| "run_store g p s (Store t k v # ops) = run_store g p (p s t k v) ops"

locale expiring_store =
  fixes get :: "'s \<Rightarrow> time \<Rightarrow> string \<Rightarrow> 'v option \<times> 's"
    and put :: "'s \<Rightarrow> time \<Rightarrow> string \<Rightarrow> 'v \<Rightarrow> 's"
    and view :: "'s \<Rightarrow> time \<Rightarrow> string \<Rightarrow> 'v option"
    and life :: "'s \<Rightarrow> duration"
  assumes get_view: "fst (get s now k) = view s now k"
    and get_keeps: "now \<le> t \<Longrightarrow> view (snd (get s now k)) t k' = view s t k'"
    and put_own: "view (put s now k v) t k = (if 0 < life s \<and> t \<le> now + life s then Some v else None)"
    and put_other: "k' \<noteq> k \<Longrightarrow> view (put s now k v) t k' = view s t k'"
    and life_get: "life (snd (get s now k)) = life s"
    and life_put: "life (put s now k v) = life s"
begin

lemma view_run:
  assumes "sorted (map op_time ops)" and "\<forall>x\<in>set ops. op_time x \<le> now"
  shows "view (run_store get put s ops) now k =
    (case last_store k ops of
       None \<Rightarrow> view s now k
     | Some (t, v) \<Rightarrow> if 0 < life s \<and> now \<le> t + life s then Some v else None)"
  using assms
proof (induction ops arbitrary: s)
  case (Cons x ops)
  show ?case
  proof (cases x)
    case (Lookup t k')
    have "view (snd (get s t k')) now k = view s now k"
      using Cons.prems(2) Lookup by (intro get_keeps) simp
    then show ?thesis using Cons Lookup by (simp add: life_get split: option.split)
  next
    case (Store t k' v)
    show ?thesis using Cons Store
      by (cases "k' = k") (simp_all add: life_put put_own put_other split: option.split)
  qed
qed simp

lemma get_run:
  assumes "sorted (map op_time ops)" and "\<forall>x\<in>set ops. op_time x \<le> now"
    and "\<forall>t k. view s t k = None"
  shows "fst (get (run_store get put s ops) now k) =
    (case last_store k ops of
       None \<Rightarrow> None
     | Some (t, v) \<Rightarrow> if 0 < life s \<and> now \<le> t + life s then Some v else None)"
  using view_run [OF assms(1,2), of s k] assms(3) by (simp add: get_view split: option.split)

end

interpretation rc: expiring_store Get Set peek c_ttl
  by unfold_locales (auto simp: Get_def Set_def peek_def split: option.splits)

text \<open>C31: after any sequence of cache reads and writes in clock order, a read returns a body
  exactly when the last write of that key stored this body and lies no further back than the time
  to live; a non-positive time to live disables the cache. Removing expired entries lazily is never
  visible.\<close>

theorem cache_returns_last_fresh_write:
  assumes "sorted (map op_time ops)" and "\<forall>x\<in>set ops. op_time x \<le> now"
  shows "fst (Get (run_store Get Set (NewCache ttl) ops) now k) =
    (case last_store k ops of
       None \<Rightarrow> None
     | Some (t, v) \<Rightarrow> if 0 < ttl \<and> now \<le> t + ttl then Some v else None)"
proof -
  have ttl: "c_ttl (NewCache ttl) = ttl" and empty: "\<forall>t k. peek (NewCache ttl) t k = None"
    by (simp_all add: NewCache_def peek_def)
  show ?thesis using rc.get_run [OF assms empty, of k] unfolding ttl .
qed

lemma cache_returns_last_fresh_write_witness:
  "let ops = [Store 0 ''q'' ''old'', Lookup 3 ''q'', Store 5 ''q'' ''new'', Store 6 ''r'' ''x''] in
   fst (Get (run_store Get Set (NewCache 10) ops) 15 ''q'') = Some ''new''
   \<and> fst (Get (run_store Get Set (NewCache 10) ops) 16 ''q'') = None"
proof -
  let ?ops = "[Store 0 ''q'' ''old'', Lookup 3 ''q'', Store 5 ''q'' ''new'', Store 6 ''r'' ''x'']"
  have s: "sorted (map op_time ?ops)" and a: "\<forall>x\<in>set ?ops. op_time x \<le> 15"
    and b: "\<forall>x\<in>set ?ops. op_time x \<le> 16" by simp_all
  show ?thesis
    using cache_returns_last_fresh_write [OF s a, of 10 "''q''"]
      cache_returns_last_fresh_write [OF s b, of 10 "''q''"]
    unfolding Let_def by simp
qed

end
