(* ===== verification/AuditLog.thy ===== *)
theory AuditLog
  imports KErrors
begin

text \<open>\<open>engine/querybroker/audit.go\<close>: the append-only query journal, one entry per line. Encoding an
  entry cannot fail, so the file holds entries; a write to the file may fail, which \<open>Record\<close>
  ignores (\<open>al_writable\<close> says whether writes succeed).\<close>

record audit_entry =
  UserID :: string
  SQL :: string
  StartedAt :: time
  DurationMs :: int
  RowCount :: nat
  Cached :: bool
  Success :: bool
  ErrText :: string

record audit_log =
  al_entries :: "audit_entry list"
  al_writable :: bool

definition OpenAuditLog :: "audit_log result \<Rightarrow> audit_log result" where
  "OpenAuditLog open_file =
     (case open_file of Inl e \<Rightarrow> Inl (Wrap CodeInternal ''open audit log'' e) | Inr f \<Rightarrow> Inr f)"

definition Record :: "audit_log \<Rightarrow> audit_entry \<Rightarrow> audit_log" where
  "Record a entry =
     (if al_writable a then a\<lparr>al_entries := al_entries a @ [entry]\<rparr> else a)"

lemma Record_simps [simp]:
  "al_writable (Record a e) = al_writable a"
  "al_entries (Record a e) = (if al_writable a then al_entries a @ [e] else al_entries a)"
  by (simp_all add: Record_def)

end
