(* ===== verification/Broker.thy ===== *)
theory Broker
  imports GoIo Quota ResultCache AuditLog
begin

text \<open>
  \<open>engine/querybroker/broker.go\<close>: SQL execution on behalf of a user. \<open>Execute\<close> passes the quota,
  then the cache, then ClickHouse, and journals every outcome; \<open>Stream\<close> delivers rows one by one
  to a callback. The readings of the clock each call makes are arguments, in the order of the
  calls; the callback of \<open>Stream\<close> is a function on a state of its own.
\<close>

record broker_config =
  cfg_url :: string
  cfg_quota :: quota
  cfg_cache_ttl :: duration

record broker =
  b_url :: string
  b_cache :: cache
  b_quotas :: quota_tracker
  b_audit :: audit_log

definition NewBroker :: "broker_config \<Rightarrow> audit_log result \<Rightarrow> broker result" where
  "NewBroker cfg open_file =
     (case OpenAuditLog open_file of
        Inl e \<Rightarrow> Inl e
      | Inr audit \<Rightarrow>
          Inr \<lparr>b_url = cfg_url cfg, b_cache = NewCache (cfg_cache_ttl cfg),
               b_quotas = NewQuotaTracker (cfg_quota cfg), b_audit = audit\<rparr>)"

record query_result =
  Rows :: "string list"
  qr_RowCount :: nat
  Duration :: duration
  qr_Cached :: bool

definition splitLines :: "string \<Rightarrow> string list" where
  "splitLines body = filter (\<lambda>l. l \<noteq> []) (split_on nl body)"

definition clickHouseErrorFromBody :: "nat \<Rightarrow> string \<Rightarrow> goerr" where
  "clickHouseErrorFromBody status body =
     (let msg = trim_space body in
      if contains msg ''TOO_MANY_ROWS'' \<or> contains msg ''LIMIT_EXCEEDED''
      then New CodeResourceExhausted (''query exceeded max_rows_to_read: '' @ msg)
      else New CodeInternal (''clickhouse returned '' @ show_nat status @ '': '' @ msg))"

text \<open>The request: the statement with the row format appended, and the scan cap when there is one
  (\<open>url.Values.Encode\<close> orders the parameters by key).\<close>

definition query_request :: "broker \<Rightarrow> string \<Rightarrow> http_request" where
  "query_request b sql =
     \<lparr> rq_method = ''POST'', rq_url = b_url b,
       rq_query =
         (if MaxRowsToRead (qt_quota (b_quotas b)) > 0
          then [(''max_rows_to_read'', show_nat (unat (MaxRowsToRead (qt_quota (b_quotas b)))))]
          else [])
         @ [(''query'', sql @ '' FORMAT JSONEachRow'')],
       rq_headers = [(''Content-Length'', ''0'')],
       rq_body = [] \<rparr>"

definition request :: "net \<Rightarrow> broker \<Rightarrow> string \<Rightarrow> (nat \<times> string \<times> goerr option) result" where
  "request w b sql =
     (case build_error w of
        Some e \<Rightarrow> Inl (Wrap CodeInternal ''build clickhouse request'' e)
      | None \<Rightarrow>
        (case client_do w (query_request b sql) of
           Fails e (Some ctx_err) \<Rightarrow> Inl (Wrap CodeUnavailable ''query canceled or timed out'' ctx_err)
         | Fails e None \<Rightarrow> Inl (Wrap CodeUnavailable ''clickhouse request failed'' e)
         | Response status body read_err \<Rightarrow> Inr (status, body, read_err)))"

definition doQuery :: "net \<Rightarrow> broker \<Rightarrow> string \<Rightarrow> string result" where
  "doQuery w b sql =
     (case request w b sql of
        Inl e \<Rightarrow> Inl e
      | Inr (status, body, read_err) \<Rightarrow>
          if status \<noteq> StatusOK then Inl (clickHouseErrorFromBody status body)
          else (case read_err of
                  Some e \<Rightarrow> Inl (Wrap CodeInternal ''reading clickhouse response'' e)
                | None \<Rightarrow> Inr body))"

text \<open>The clock readings of one call.\<close>

record clock =
  at_quota :: time
  at_cache :: time
  at_audit :: time
  at_start :: time
  at_end :: time
  at_store :: time

definition milliseconds :: "duration \<Rightarrow> int" where
  "milliseconds d = (if d < 0 then - ((- d) div Millisecond) else d div Millisecond)"

definition rate_limit_error :: "string \<Rightarrow> goerr" where
  "rate_limit_error userID =
     New CodeResourceExhausted (''rate limit exceeded for user '' @ quoted userID)"

definition journal :: "broker \<Rightarrow> audit_entry \<Rightarrow> broker" where
  "journal b e = b\<lparr>b_audit := Record (b_audit b) e\<rparr>"

definition Execute ::
  "net \<Rightarrow> clock \<Rightarrow> broker \<Rightarrow> string \<Rightarrow> string \<Rightarrow> query_result result \<times> broker" where
  "Execute w k b userID sql =
     (case Allow (b_quotas b) (at_quota k) userID of
        (False, q) \<Rightarrow>
          let b = b\<lparr>b_quotas := q\<rparr>; err = rate_limit_error userID in
          (Inl err, journal b \<lparr>UserID = userID, SQL = sql, StartedAt = at_audit k, DurationMs = 0,
             RowCount = 0, Cached = False, Success = False, ErrText = Error err\<rparr>)
      | (True, q) \<Rightarrow>
          let b = b\<lparr>b_quotas := q\<rparr> in
          (case Get (b_cache b) (at_cache k) sql of
             (Some cached, c) \<Rightarrow>
               let b = b\<lparr>b_cache := c\<rparr>; rows = splitLines cached in
               (Inr \<lparr>Rows = rows, qr_RowCount = length rows, Duration = 0, qr_Cached = True\<rparr>,
                journal b \<lparr>UserID = userID, SQL = sql, StartedAt = at_audit k, DurationMs = 0,
                  RowCount = length rows, Cached = True, Success = True, ErrText = []\<rparr>)
           | (None, c) \<Rightarrow>
               let b = b\<lparr>b_cache := c\<rparr>; start = at_start k; dur = at_end k - start;
                   entry = \<lparr>UserID = userID, SQL = sql, StartedAt = start,
                     DurationMs = milliseconds dur, RowCount = 0, Cached = False,
                     Success = False, ErrText = []\<rparr>
               in (case doQuery w b sql of
                     Inl err \<Rightarrow> (Inl err, journal b (entry\<lparr>ErrText := Error err\<rparr>))
                   | Inr body \<Rightarrow>
                       let rows = splitLines body;
                           b = journal b (entry\<lparr>Success := True, RowCount := length rows\<rparr>);
                           b = b\<lparr>b_cache := Set (b_cache b) (at_store k) sql body\<rparr>
                       in (Inr \<lparr>Rows = rows, qr_RowCount = length rows, Duration = dur,
                                qr_Cached = False\<rparr>, b))))"

section \<open>Stream\<close>

definition maxRowBytes :: nat where "maxRowBytes = 16 * 1024 * 1024"

text \<open>The row loop: empty lines are skipped; the first error of the callback stops it. The result is
  the number of rows the callback took, its error if it stopped, and its state.\<close>

fun stream_rows ::
  "(string \<Rightarrow> 'cb \<Rightarrow> goerr option \<times> 'cb) \<Rightarrow> nat \<Rightarrow> string list \<Rightarrow> 'cb
   \<Rightarrow> nat \<times> goerr option \<times> 'cb" where
  "stream_rows onRow count [] s = (count, None, s)"
| "stream_rows onRow count (line # ls) s =
     (if line = [] then stream_rows onRow count ls s
      else (case onRow line s of
              (Some cbErr, s') \<Rightarrow> (count, Some cbErr, s')
            | (None, s') \<Rightarrow> stream_rows onRow (count + 1) ls s'))"

definition Stream ::
  "net \<Rightarrow> clock \<Rightarrow> broker \<Rightarrow> string \<Rightarrow> string \<Rightarrow> (string \<Rightarrow> 'cb \<Rightarrow> goerr option \<times> 'cb) \<Rightarrow> 'cb
   \<Rightarrow> nat \<times> goerr option \<times> 'cb \<times> broker" where
  "Stream w k b userID sql onRow s =
     (case Allow (b_quotas b) (at_quota k) userID of
        (False, q) \<Rightarrow>
          let b = b\<lparr>b_quotas := q\<rparr>; err = rate_limit_error userID in
          (0, Some err, s, journal b \<lparr>UserID = userID, SQL = sql, StartedAt = at_audit k,
             DurationMs = 0, RowCount = 0, Cached = False, Success = False, ErrText = Error err\<rparr>)
      | (True, q) \<Rightarrow>
          let b = b\<lparr>b_quotas := q\<rparr>;
              entry = \<lparr>UserID = userID, SQL = sql, StartedAt = at_start k,
                DurationMs = milliseconds (at_end k - at_start k), RowCount = 0, Cached = False,
                Success = False, ErrText = []\<rparr>
          in (case request w b sql of
                Inl err \<Rightarrow> (0, Some err, s, journal b (entry\<lparr>ErrText := Error err\<rparr>))
              | Inr (status, body, read_err) \<Rightarrow>
                  if status \<noteq> StatusOK then
                    let err = clickHouseErrorFromBody status body in
                    (0, Some err, s, journal b (entry\<lparr>ErrText := Error err\<rparr>))
                  else
                    (case scan_lines maxRowBytes body read_err of
                       (lines, scanErr) \<Rightarrow>
                         (case stream_rows onRow 0 lines s of
                            (count, Some cbErr, s') \<Rightarrow>
                              (count, Some cbErr, s',
                               journal b (entry\<lparr>RowCount := count, ErrText := Error cbErr\<rparr>))
                          | (count, None, s') \<Rightarrow>
                              (case scanErr of
                                 Some e \<Rightarrow>
                                   let wrapped = Wrap CodeInternal ''reading clickhouse response'' e in
                                   (count, Some wrapped, s',
                                    journal b (entry\<lparr>RowCount := count, ErrText := Error wrapped\<rparr>))
                               | None \<Rightarrow>
                                   (count, None, s',
                                    journal b (entry\<lparr>RowCount := count, Success := True\<rparr>)))))))"

section \<open>What a call can depend on\<close>

lemma doQuery_cong:
  assumes "b_url b = b_url b'" "qt_quota (b_quotas b) = qt_quota (b_quotas b')"
  shows "request w b sql = request w b' sql" "doQuery w b sql = doQuery w b' sql"
proof -
  have "query_request b sql = query_request b' sql"
    using assms by (simp add: query_request_def)
  then show r: "request w b sql = request w b' sql"
    unfolding request_def by (rule ssubst) (rule refl)
  show "doQuery w b sql = doQuery w b' sql"
    unfolding doQuery_def r by (rule refl)
qed

lemma Get_split: "Get c now key = (peek c now key, snd (Get c now key))"
  by (simp add: rc.get_view [symmetric])

lemma Execute_denied:
  "\<not> fst (Allow (b_quotas b) (at_quota k) u) \<Longrightarrow>
   Execute w k b u sql =
     (Inl (rate_limit_error u),
      journal (b\<lparr>b_quotas := snd (Allow (b_quotas b) (at_quota k) u)\<rparr>)
        \<lparr>UserID = u, SQL = sql, StartedAt = at_audit k, DurationMs = 0, RowCount = 0,
          Cached = False, Success = False, ErrText = Error (rate_limit_error u)\<rparr>)"
  by (cases "Allow (b_quotas b) (at_quota k) u") (simp add: Execute_def Let_def)

lemma Execute_hit:
  assumes "fst (Allow (b_quotas b) (at_quota k) u)" "peek (b_cache b) (at_cache k) sql = Some body"
  shows "Execute w k b u sql =
     (Inr \<lparr>Rows = splitLines body, qr_RowCount = length (splitLines body), Duration = 0, qr_Cached = True\<rparr>,
      journal (b\<lparr>b_quotas := snd (Allow (b_quotas b) (at_quota k) u),
                b_cache := snd (Get (b_cache b) (at_cache k) sql)\<rparr>)
        \<lparr>UserID = u, SQL = sql, StartedAt = at_audit k, DurationMs = 0,
          RowCount = length (splitLines body), Cached = True, Success = True, ErrText = []\<rparr>)"
proof -
  obtain q where a: "Allow (b_quotas b) (at_quota k) u = (True, q)"
    using assms(1) by (cases "Allow (b_quotas b) (at_quota k) u") simp
  obtain c where g: "Get (b_cache b) (at_cache k) sql = (Some body, c)"
    using Get_split [of "b_cache b" "at_cache k" sql] assms(2) by simp
  show ?thesis by (simp add: Execute_def a g Let_def)
qed

lemma Execute_query:
  assumes "fst (Allow (b_quotas b) (at_quota k) u)" "peek (b_cache b) (at_cache k) sql = None"
  shows "Execute w k b u sql =
    (let b1 = b\<lparr>b_quotas := snd (Allow (b_quotas b) (at_quota k) u),
                b_cache := snd (Get (b_cache b) (at_cache k) sql)\<rparr>;
         entry = \<lparr>UserID = u, SQL = sql, StartedAt = at_start k,
                DurationMs = milliseconds (at_end k - at_start k), RowCount = 0, Cached = False,
                Success = False, ErrText = []\<rparr>
     in (case doQuery w b sql of
           Inl err \<Rightarrow> (Inl err, journal b1 (entry\<lparr>ErrText := Error err\<rparr>))
         | Inr body \<Rightarrow>
             (Inr \<lparr>Rows = splitLines body, qr_RowCount = length (splitLines body),
                   Duration = at_end k - at_start k, qr_Cached = False\<rparr>,
              (journal b1 (entry\<lparr>Success := True, RowCount := length (splitLines body)\<rparr>))
                \<lparr>b_cache := Set (snd (Get (b_cache b) (at_cache k) sql)) (at_store k) sql body\<rparr>)))"
proof -
  obtain q where a: "Allow (b_quotas b) (at_quota k) u = (True, q)"
    using assms(1) by (cases "Allow (b_quotas b) (at_quota k) u") simp
  have d: "doQuery w (b\<lparr>b_quotas := q, b_cache := c\<rparr>) sql = doQuery w b sql" for c
    using Allow_quota [of "b_quotas b" "at_quota k" u] a by (intro doQuery_cong) simp_all
  obtain c where g: "Get (b_cache b) (at_cache k) sql = (None, c)"
    using Get_split [of "b_cache b" "at_cache k" sql] assms(2) by simp
  show ?thesis
    by (cases "doQuery w b sql") (simp_all add: Execute_def a g d journal_def Let_def)
qed

lemmas Execute_branches = Execute_denied Execute_hit Execute_query

text \<open>The order of the guards. A call over quota answers "resource exhausted", and a call whose
  statement has a live cache entry answers from it; in neither case is anything sent to ClickHouse
  (the answer is the same for every network), and the first one leaves the cache alone. Any other
  call answers with exactly what the query gave, and only a successful query stores its body.\<close>

theorem Execute_guard_order:
  "(\<not> fst (Allow (b_quotas b) (at_quota k) u) \<longrightarrow>
      fst (Execute w k b u sql) = Inl (rate_limit_error u)
      \<and> IsResourceExhausted (rate_limit_error u)
      \<and> b_cache (snd (Execute w k b u sql)) = b_cache b
      \<and> Execute w' k b u sql = Execute w k b u sql)
   \<and> (fst (Allow (b_quotas b) (at_quota k) u) \<and> peek (b_cache b) (at_cache k) sql = Some body \<longrightarrow>
      (\<exists>r. fst (Execute w k b u sql) = Inr r \<and> qr_Cached r \<and> Rows r = splitLines body)
      \<and> Execute w' k b u sql = Execute w k b u sql)
   \<and> (fst (Allow (b_quotas b) (at_quota k) u) \<and> peek (b_cache b) (at_cache k) sql = None \<longrightarrow>
      (case doQuery w b sql of
         Inl e \<Rightarrow> fst (Execute w k b u sql) = Inl e
           \<and> (\<forall>t\<ge>at_cache k. \<forall>key. peek (b_cache (snd (Execute w k b u sql))) t key = peek (b_cache b) t key)
       | Inr bd \<Rightarrow> (\<exists>r. fst (Execute w k b u sql) = Inr r \<and> \<not> qr_Cached r \<and> Rows r = splitLines bd)
           \<and> (0 < c_ttl (b_cache b) \<longrightarrow>
                peek (b_cache (snd (Execute w k b u sql))) (at_store k) sql = Some bd)))"
proof (intro conjI impI, goal_cases)
  case 7
  then show ?case
    by (auto simp: Execute_query Let_def journal_def rc.get_keeps rc.put_own rc.life_get
        split: sum.split)
qed (auto simp: Execute_denied Execute_hit journal_def rate_limit_error_def err_class)

definition sample_broker :: "int \<Rightarrow> duration \<Rightarrow> time list \<Rightarrow> broker" where
  "sample_broker n ttl w =
     \<lparr>b_url = ''http://ch:8123'', b_cache = NewCache ttl,
      b_quotas = \<lparr>qt_quota = \<lparr>RequestsPerMinute = n, MaxRowsToRead = 5\<rparr>, qt_windows = (\<lambda>_. w)\<rparr>,
      b_audit = \<lparr>al_entries = [], al_writable = True\<rparr>\<rparr>"

definition sample_clock :: "time \<Rightarrow> clock" where
  "sample_clock t = \<lparr>at_quota = t, at_cache = t, at_audit = t, at_start = t, at_end = t, at_store = t\<rparr>"

definition sample_net :: "nat \<Rightarrow> string \<Rightarrow> net" where
  "sample_net status body = \<lparr>build_error = None, client_do = (\<lambda>_. Response status body None)\<rparr>"

lemma Execute_guard_order_witness:
  "let b = sample_broker 1 100 [0]; k = sample_clock 5 in
   fst (Execute (sample_net 200 ''x'') k b ''ana'' ''SELECT 1'') = Inl (rate_limit_error ''ana'')
   \<and> Execute (sample_net 500 ''y'') k b ''ana'' ''SELECT 1''
       = Execute (sample_net 200 ''x'') k b ''ana'' ''SELECT 1''"
proof -
  have "\<not> fst (Allow (b_quotas (sample_broker 1 100 [0])) (at_quota (sample_clock 5)) ''ana'')"
    by (simp add: sample_broker_def sample_clock_def Allow_def Minute_def Let_def)
  then show ?thesis
    using Execute_guard_order [of "sample_broker 1 100 [0]" "sample_clock 5" "''ana''"
        "sample_net 200 ''x''" "''SELECT 1''" "sample_net 500 ''y''" "[]"]
    unfolding Let_def by blast
qed

section \<open>The journal\<close>

lemma Execute_audit:
  "\<exists>e. b_audit (snd (Execute w k b u sql)) = Record (b_audit b) e
     \<and> UserID e = u \<and> SQL e = sql
     \<and> (case fst (Execute w k b u sql) of
          Inl err \<Rightarrow> \<not> Success e \<and> ErrText e = Error err \<and> RowCount e = 0
        | Inr r \<Rightarrow> Success e \<and> ErrText e = [] \<and> RowCount e = length (Rows r)
                   \<and> Cached e = qr_Cached r)"
proof (cases "fst (Allow (b_quotas b) (at_quota k) u)")
  case False
  then show ?thesis by (auto simp: Execute_denied journal_def)
next
  case True
  show ?thesis
  proof (cases "peek (b_cache b) (at_cache k) sql")
    case (Some body)
    then show ?thesis using True by (auto simp: Execute_hit journal_def)
  next
    case None
    then show ?thesis using True
      by (cases "doQuery w b sql") (auto simp: Execute_query Let_def journal_def)
  qed
qed

lemma Stream_audit:
  "\<exists>e. b_audit (snd (snd (snd (Stream w k b u sql f s)))) = Record (b_audit b) e
     \<and> UserID e = u \<and> SQL e = sql \<and> \<not> Cached e
     \<and> RowCount e = fst (Stream w k b u sql f s)
     \<and> (case fst (snd (Stream w k b u sql f s)) of
          Some err \<Rightarrow> \<not> Success e \<and> ErrText e = Error err
        | None \<Rightarrow> Success e \<and> ErrText e = [])"
  by (auto simp: Stream_def Let_def journal_def split: prod.split bool.split sum.split option.split)

text \<open>Every call, buffered or streamed, whatever its outcome, writes exactly one journal entry
  after all earlier ones, with the caller, the statement, success exactly when the call returned no
  error, the error's text when it did, and the number of rows delivered.\<close>

theorem every_call_is_journaled_once:
  assumes "al_writable (b_audit b)"
  shows "(\<exists>e. al_entries (b_audit (snd (Execute w k b u sql))) = al_entries (b_audit b) @ [e]
       \<and> UserID e = u \<and> SQL e = sql
       \<and> (case fst (Execute w k b u sql) of
            Inl err \<Rightarrow> \<not> Success e \<and> ErrText e = Error err \<and> RowCount e = 0
          | Inr r \<Rightarrow> Success e \<and> ErrText e = [] \<and> RowCount e = length (Rows r)
                     \<and> Cached e = qr_Cached r))
   \<and> (\<exists>e. al_entries (b_audit (snd (snd (snd (Stream w k b u sql f s))))) = al_entries (b_audit b) @ [e]
       \<and> UserID e = u \<and> SQL e = sql \<and> \<not> Cached e \<and> RowCount e = fst (Stream w k b u sql f s)
       \<and> (case fst (snd (Stream w k b u sql f s)) of
            Some err \<Rightarrow> \<not> Success e \<and> ErrText e = Error err
          | None \<Rightarrow> Success e \<and> ErrText e = []))"
proof -
  obtain e where "b_audit (snd (Execute w k b u sql)) = Record (b_audit b) e" "UserID e = u"
    "SQL e = sql" "case fst (Execute w k b u sql) of
            Inl err \<Rightarrow> \<not> Success e \<and> ErrText e = Error err \<and> RowCount e = 0
          | Inr r \<Rightarrow> Success e \<and> ErrText e = [] \<and> RowCount e = length (Rows r)
                     \<and> Cached e = qr_Cached r"
    using Execute_audit [of w k b u sql] by blast
  moreover obtain e' where "b_audit (snd (snd (snd (Stream w k b u sql f s)))) = Record (b_audit b) e'"
    "UserID e' = u" "SQL e' = sql" "\<not> Cached e'" "RowCount e' = fst (Stream w k b u sql f s)"
    "case fst (snd (Stream w k b u sql f s)) of
            Some err \<Rightarrow> \<not> Success e' \<and> ErrText e' = Error err
          | None \<Rightarrow> Success e' \<and> ErrText e' = []"
    using Stream_audit [of w k b u sql f s] by blast
  ultimately show ?thesis using assms by auto
qed

lemma every_call_is_journaled_once_witness:
  "\<exists>e. al_entries (b_audit (snd (Execute (sample_net 500 ''Code: 158. TOO_MANY_ROWS'')
          (sample_clock 5) (sample_broker 0 0 []) ''ana'' ''SELECT 1''))) = [e]
     \<and> UserID e = ''ana'' \<and> SQL e = ''SELECT 1''"
proof -
  have wr: "al_writable (b_audit (sample_broker 0 0 []))"
    and none: "al_entries (b_audit (sample_broker 0 0 [])) = []"
    by (simp_all add: sample_broker_def)
  show ?thesis
    using every_call_is_journaled_once [OF wr, THEN conjunct1, unfolded none append_Nil]
    by blast
qed

section \<open>Histories\<close>

record call =
  call_net :: net
  call_clock :: clock
  call_user :: string
  call_sql :: string

definition do_call :: "broker \<Rightarrow> call \<Rightarrow> query_result result \<times> broker" where
  "do_call b c = Execute (call_net c) (call_clock c) b (call_user c) (call_sql c)"

fun run_calls :: "broker \<Rightarrow> call list \<Rightarrow> (call \<times> query_result result) list \<times> broker" where
  "run_calls b [] = ([], b)"
| "run_calls b (c # cs) =
     (case do_call b c of (r, b') \<Rightarrow> case run_calls b' cs of (h, b'') \<Rightarrow> ((c, r) # h, b''))"

text \<open>An earlier call from which a body in the cache came.\<close>

definition origin ::
  "duration \<Rightarrow> (call \<times> query_result result) list \<Rightarrow> string \<Rightarrow> string list \<Rightarrow> time \<Rightarrow> bool" where
  "origin ttl h sql rows expires \<longleftrightarrow>
     (\<exists>(c, res)\<in>set h. call_sql c = sql \<and> expires = at_store (call_clock c) + ttl
        \<and> (\<exists>r. res = Inr r \<and> \<not> qr_Cached r \<and> Rows r = rows))"

definition cache_inv :: "duration \<Rightarrow> (call \<times> query_result result) list \<Rightarrow> broker \<Rightarrow> bool" where
  "cache_inv ttl h b \<longleftrightarrow> c_ttl (b_cache b) = ttl
     \<and> (\<forall>sql e. c_entries (b_cache b) sql = Some e
          \<longrightarrow> origin ttl h sql (splitLines (ce_body e)) (ce_expiresAt e))"

lemma origin_append: "origin ttl h sql rows x \<Longrightarrow> origin ttl (h @ h') sql rows x"
  by (auto simp: origin_def)

lemma Get_entries: "c_entries (snd (Get c t k)) k' = Some e \<Longrightarrow> c_entries c k' = Some e"
  by (auto simp: Get_def split: if_splits option.splits)

lemma do_call_cache_inv:
  assumes inv: "cache_inv ttl h b" and step: "do_call b c = (r, b')"
  shows "cache_inv ttl (h @ [(c, r)]) b'"
proof -
  let ?k = "call_clock c" and ?sql = "call_sql c" and ?w = "call_net c"
  let ?c1 = "snd (Get (b_cache b) (at_cache ?k) ?sql)"
  have keep: "cache_inv ttl (h @ [(c, r)]) b'" if "b_cache b' = b_cache b \<or> b_cache b' = ?c1"
  proof -
    have "c_ttl (b_cache b') = c_ttl (b_cache b)" using that by (auto simp: rc.life_get)
    moreover have "c_entries (b_cache b) s = Some e" if "c_entries (b_cache b') s = Some e" for s e
      using that \<open>b_cache b' = b_cache b \<or> b_cache b' = ?c1\<close> by (metis Get_entries)
    ultimately show ?thesis using inv by (simp add: cache_inv_def origin_append)
  qed
  show ?thesis
  proof (cases "fst (Allow (b_quotas b) (at_quota ?k) (call_user c))")
    case False
    then show ?thesis using step by (intro keep) (auto simp: do_call_def Execute_denied journal_def)
  next
    case True
    show ?thesis
    proof (cases "peek (b_cache b) (at_cache ?k) ?sql")
      case (Some body)
      then show ?thesis using step True
        by (intro keep) (auto simp: do_call_def Execute_hit journal_def)
    next
      case None
      show ?thesis
      proof (cases "doQuery ?w b ?sql")
        case (Inl e)
        then show ?thesis using step True None
          by (intro keep) (auto simp: do_call_def Execute_query journal_def)
      next
        case (Inr body)
        then have c': "b_cache b' = Set ?c1 (at_store ?k) ?sql body"
          and r: "\<exists>x. r = Inr x \<and> \<not> qr_Cached x \<and> Rows x = splitLines body"
          using step True None by (auto simp: do_call_def Execute_query journal_def)
        show ?thesis
          unfolding cache_inv_def
        proof (intro conjI allI impI)
          show "c_ttl (b_cache b') = ttl"
            using inv by (simp add: c' rc.life_put rc.life_get cache_inv_def)
          fix sql e
          assume e: "c_entries (b_cache b') sql = Some e"
          show "origin ttl (h @ [(c, r)]) sql (splitLines (ce_body e)) (ce_expiresAt e)"
          proof (cases "sql = ?sql \<and> 0 < ttl")
            case True
            then have "ce_body e = body \<and> ce_expiresAt e = at_store ?k + ttl"
              using e inv by (auto simp: c' Set_def rc.life_get cache_inv_def)
            then show ?thesis using r True by (auto simp: origin_def)
          next
            case False
            then have "c_entries ?c1 sql = Some e"
              using e inv by (auto simp: c' Set_def rc.life_get cache_inv_def split: if_splits)
            then show ?thesis
              using inv by (auto simp: cache_inv_def dest!: Get_entries intro: origin_append)
          qed
        qed
      qed
    qed
  qed
qed

lemma run_calls_cache_inv:
  "cache_inv ttl h b \<Longrightarrow> run_calls b cs = (h', b') \<Longrightarrow> cache_inv ttl (h @ h') b'"
proof (induction cs arbitrary: h h' b b')
  case (Cons c cs)
  obtain r b1 where s: "do_call b c = (r, b1)" by (cases "do_call b c")
  obtain h1 b2 where t: "run_calls b1 cs = (h1, b2)" by (cases "run_calls b1 cs")
  from Cons.IH [OF do_call_cache_inv [OF Cons.prems(1) s] t] Cons.prems(2) s t
  show ?case by auto
qed auto

text \<open>No made-up and no stale answers. Whatever calls came before, an answer served from the
  cache has exactly the rows of an earlier answer to the same statement that ClickHouse itself
  gave, and that answer was stored no longer than the time to live before. (It may have been given
  to another user: the cache is keyed by the statement alone.)\<close>

theorem cached_answers_are_genuine:
  assumes "NewBroker cfg f = Inr b0" and "run_calls b0 cs = (h, b)"
    and "Execute w k b u sql = (Inr r, b')" and "qr_Cached r"
  shows "\<exists>(c, res)\<in>set h. call_sql c = sql
    \<and> at_cache k \<le> at_store (call_clock c) + cfg_cache_ttl cfg
    \<and> (\<exists>r0. res = Inr r0 \<and> \<not> qr_Cached r0 \<and> Rows r0 = Rows r)"
proof -
  have "cache_inv (cfg_cache_ttl cfg) [] b0"
    using assms(1)
    by (auto simp: NewBroker_def NewCache_def cache_inv_def split: sum.splits)
  from run_calls_cache_inv [OF this assms(2)] have inv: "cache_inv (cfg_cache_ttl cfg) h b" by simp
  have al: "fst (Allow (b_quotas b) (at_quota k) u)"
    using assms(3) Execute_denied [of b k u w sql] by auto
  have "peek (b_cache b) (at_cache k) sql \<noteq> None"
  proof
    assume "peek (b_cache b) (at_cache k) sql = None"
    from Execute_query [OF al this, of w] assms(3,4) show False
      by (auto simp: Let_def split: sum.splits)
  qed
  then obtain body where p: "peek (b_cache b) (at_cache k) sql = Some body" by auto
  then have rows: "Rows r = splitLines body" using Execute_hit [OF al p, of w] assms(3) by auto
  from p obtain e where "c_entries (b_cache b) sql = Some e" "ce_body e = body"
    "at_cache k \<le> ce_expiresAt e"
    by (auto simp: peek_def split: if_splits option.splits)
  then show ?thesis using inv rows by (force simp: cache_inv_def origin_def)
qed

lemma cached_answers_are_genuine_witness:
  "\<exists>b0 h b r b'. NewBroker \<lparr>cfg_url = ''u'', cfg_quota = \<lparr>RequestsPerMinute = 0, MaxRowsToRead = 0\<rparr>,
        cfg_cache_ttl = 100\<rparr> (Inr \<lparr>al_entries = [], al_writable = True\<rparr>) = Inr b0
     \<and> run_calls b0 [\<lparr>call_net = sample_net 200 ''7'', call_clock = sample_clock 0,
         call_user = ''ana'', call_sql = ''SELECT 7''\<rparr>] = (h, b)
     \<and> Execute (sample_net 500 []) (sample_clock 5) b ''bob'' ''SELECT 7'' = (Inr r, b')
     \<and> (\<exists>(c, res)\<in>set h. call_sql c = ''SELECT 7''
          \<and> (\<exists>r0. res = Inr r0 \<and> \<not> qr_Cached r0 \<and> Rows r0 = Rows r))"
proof -
  let ?cfg = "\<lparr>cfg_url = ''u'', cfg_quota = \<lparr>RequestsPerMinute = 0, MaxRowsToRead = 0\<rparr>,
        cfg_cache_ttl = 100\<rparr>"
  let ?f = "Inr \<lparr>al_entries = [], al_writable = True\<rparr> :: audit_log result"
  let ?c = "\<lparr>call_net = sample_net 200 ''7'', call_clock = sample_clock 0,
         call_user = ''ana'', call_sql = ''SELECT 7''\<rparr>"
  obtain b0 where b0: "NewBroker ?cfg ?f = Inr b0" by (simp add: NewBroker_def OpenAuditLog_def)
  obtain h b where run: "run_calls b0 [?c] = (h, b)" by (cases "run_calls b0 [?c]")
  obtain r b' where ex: "Execute (sample_net 500 []) (sample_clock 5) b ''bob'' ''SELECT 7'' = (Inr r, b')"
    "qr_Cached r"
    using b0 run
    by (auto simp: NewBroker_def OpenAuditLog_def NewCache_def NewQuotaTracker_def do_call_def
        Execute_def Allow_def Get_def Set_def doQuery_def request_def sample_net_def
        sample_clock_def journal_def StatusOK_def Let_def)
  from cached_answers_are_genuine [OF b0 run ex] b0 run ex show ?thesis by blast
qed

section \<open>Streaming\<close>

lemma stream_rows_collect:
  "stream_rows (\<lambda>l s. (None, s @ [l])) n ls s
   = (n + length (filter (\<lambda>l. l \<noteq> []) ls), None, s @ filter (\<lambda>l. l \<noteq> []) ls)"
  by (induction ls arbitrary: n s) auto

lemma stream_rows_error:
  "stream_rows f n ls s = (m, Some e, s') \<Longrightarrow>
   \<exists>pre l post t. ls = pre @ l # post \<and> stream_rows f n pre s = (m, None, t) \<and> f l t = (Some e, s')"
proof (induction ls arbitrary: n s)
  case (Cons l ls)
  show ?case
  proof (cases "l = []")
    case True
    with Cons.prems have "stream_rows f n ls s = (m, Some e, s')" by simp
    from Cons.IH [OF this] True obtain pre l' post t where
      "l # ls = (l # pre) @ l' # post" "stream_rows f n (l # pre) s = (m, None, t)"
      "f l' t = (Some e, s')" by auto
    then show ?thesis by blast
  next
    case False
    obtain o' t where f: "f l s = (o', t)" by (cases "f l s")
    show ?thesis
    proof (cases o')
      case None
      with Cons.prems False f have "stream_rows f (n + 1) ls t = (m, Some e, s')" by simp
      from Cons.IH [OF this] obtain pre l' post u where
        "ls = pre @ l' # post" "stream_rows f (n + 1) pre t = (m, None, u)" "f l' u = (Some e, s')"
        by blast
      then have "l # ls = (l # pre) @ l' # post" "stream_rows f n (l # pre) s = (m, None, u)"
        "f l' u = (Some e, s')" using False f None by auto
      then show ?thesis by blast
    next
      case (Some e')
      with Cons.prems False f have "l # ls = [] @ l # ls" "stream_rows f n [] s = (m, None, s)"
        "f l s = (Some e, s')" by auto
      then show ?thesis by blast
    qed
  qed
qed simp

lemma raw_lines_filter: "filter (\<lambda>l. l \<noteq> []) (raw_lines s) = splitLines s"
proof -
  have "filter (\<lambda>l. l \<noteq> []) (butlast ps) = filter (\<lambda>l. l \<noteq> []) ps"
    if "ps \<noteq> []" "last ps = []" for ps :: "string list"
    using that by (induction ps) (auto split: if_splits)
  then show ?thesis by (simp add: raw_lines_def splitLines_def Let_def)
qed

text \<open>C30: streaming and buffering agree. For a successful response without carriage returns whose
  lines fit the scanner's buffer, a callback that takes every row is given exactly the rows the
  buffered call returns for that response, in order, and both report their number.\<close>

theorem Stream_equals_Execute:
  assumes ok: "fst (Allow (b_quotas b) (at_quota k) u)"
    and miss: "peek (b_cache b) (at_cache k) sql = None"
    and resp: "request w b sql = Inr (StatusOK, body, None)"
    and short: "\<forall>l\<in>set (split_on nl body). length l < maxRowBytes" and nocr: "cr \<notin> set body"
  shows "\<exists>r b' b''. Execute w k b u sql = (Inr r, b')
    \<and> Stream w k b u sql (\<lambda>l s. (None, s @ [l])) s0 = (qr_RowCount r, None, s0 @ Rows r, b'')"
proof -
  obtain q where a: "Allow (b_quotas b) (at_quota k) u = (True, q)"
    using ok by (cases "Allow (b_quotas b) (at_quota k) u") simp
  have rq: "request w (b\<lparr>b_quotas := q\<rparr>) sql = Inr (StatusOK, body, None)"
    using doQuery_cong(1) [of "b\<lparr>b_quotas := q\<rparr>" b w sql] Allow_quota [of "b_quotas b" "at_quota k" u]
      a resp by simp
  have dq: "doQuery w b sql = Inr body" by (simp add: doQuery_def resp)
  have sub: "set (raw_lines body) \<subseteq> set (split_on nl body)"
    by (auto simp: raw_lines_def Let_def dest: in_set_butlastD)
  have crl: "drop_cr l = l" if "l \<in> set (raw_lines body)" for l
  proof -
    have "set l \<subseteq> set body"
      using that sub by (metis join_split_on set_join_subset subset_eq)
    then show ?thesis using nocr by (metis drop_cr_def last_in_set subsetD)
  qed
  have "scan_lines maxRowBytes body None = (map drop_cr (raw_lines body), None)"
    unfolding scan_lines_def using short sub by (intro scan_tokens_all) blast
  also have "map drop_cr (raw_lines body) = raw_lines body"
    using crl by (simp add: map_idI)
  finally have sc: "scan_lines maxRowBytes body None = (raw_lines body, None)" .
  show ?thesis
    using Execute_query [OF ok miss, of w]
    by (simp add: dq Let_def Stream_def a rq sc stream_rows_collect raw_lines_filter)
qed

lemma Stream_equals_Execute_witness:
  "\<exists>r b' b''. Execute (sample_net 200 [CHR ''1'', nl, CHR ''2'', nl]) (sample_clock 5)
        (sample_broker 1 100 []) ''ana'' ''SELECT n'' = (Inr r, b')
    \<and> Stream (sample_net 200 [CHR ''1'', nl, CHR ''2'', nl]) (sample_clock 5)
        (sample_broker 1 100 []) ''ana'' ''SELECT n'' (\<lambda>l s. (None, s @ [l])) []
      = (qr_RowCount r, None, Rows r, b'')"
proof -
  let ?b = "sample_broker 1 100 []" and ?k = "sample_clock 5"
  let ?body = "[CHR ''1'', nl, CHR ''2'', nl]"
  have ok: "fst (Allow (b_quotas ?b) (at_quota ?k) ''ana'')"
    by (simp add: sample_broker_def Allow_def Let_def)
  have miss: "peek (b_cache ?b) (at_cache ?k) ''SELECT n'' = None"
    by (simp add: sample_broker_def NewCache_def peek_def)
  have resp: "request (sample_net 200 ?body) ?b ''SELECT n'' = Inr (StatusOK, ?body, None)"
    by (simp add: request_def sample_net_def StatusOK_def)
  have short: "\<forall>l\<in>set (split_on nl ?body). length l < maxRowBytes"
    by (simp add: maxRowBytes_def)
  have nocr: "cr \<notin> set ?body" by simp
  from Stream_equals_Execute [OF ok miss resp short nocr, of "[]"]
  show ?thesis by (simp only: append_Nil)
qed

end
