(* ===== verification/SqlTables.thy ===== *)
theory SqlTables
  imports KErrors
begin

text \<open>
  The SQL statements of the two SQLite stores (\<open>engine/schemamgr/store.go\<close>, \<open>engine/auth/store.go\<close>)
  over tables as lists of rows in insertion order: lookup by a key column, insertion under a
  PRIMARY KEY or UNIQUE constraint, INSERT with ON CONFLICT DO UPDATE, and UPDATE with its row
  count. The interface of a keyed table is a locale; each store interprets it on its own tables.
\<close>

definition tbl_select :: "('r \<Rightarrow> 'k) \<Rightarrow> 'k \<Rightarrow> 'r list \<Rightarrow> 'r option" where
  "tbl_select key k rows = find (\<lambda>r. key r = k) rows"

text \<open>INSERT under a uniqueness constraint: no result when the constraint is violated.\<close>

definition tbl_insert :: "('r \<Rightarrow> 'k) \<Rightarrow> 'r \<Rightarrow> 'r list \<Rightarrow> 'r list option" where
  "tbl_insert key r rows = (if key r \<in> key ` set rows then None else Some (rows @ [r]))"

text \<open>INSERT ... ON CONFLICT(key) DO UPDATE: \<open>upd old new\<close> is the row after the update.\<close>

definition tbl_upsert :: "('r \<Rightarrow> 'k) \<Rightarrow> ('r \<Rightarrow> 'r \<Rightarrow> 'r) \<Rightarrow> 'r \<Rightarrow> 'r list \<Rightarrow> 'r list" where
  "tbl_upsert key upd r rows =
     (if key r \<in> key ` set rows then map (\<lambda>x. if key x = key r then upd x r else x) rows
      else rows @ [r])"

text \<open>UPDATE ... WHERE: the table and the number of rows affected.\<close>

definition tbl_update :: "('r \<Rightarrow> bool) \<Rightarrow> ('r \<Rightarrow> 'r) \<Rightarrow> 'r list \<Rightarrow> 'r list \<times> nat" where
  "tbl_update p f rows = (map (\<lambda>r. if p r then f r else r) rows, length (filter p rows))"

definition tbl_ok :: "('r \<Rightarrow> 'k) \<Rightarrow> 'r list \<Rightarrow> bool" where
  "tbl_ok key rows \<longleftrightarrow> distinct (map key rows)"

section \<open>The interface of a keyed table\<close>

locale keyed_table =
  fixes key :: "'r \<Rightarrow> 'k"
    and select :: "'k \<Rightarrow> 't \<Rightarrow> 'r option"
    and insert_row :: "'r \<Rightarrow> 't \<Rightarrow> 't option"
    and ok :: "'t \<Rightarrow> bool"
  assumes select_key: "select k t = Some r \<Longrightarrow> key r = k"
    and insert_refused: "insert_row r t = None \<longleftrightarrow> select (key r) t \<noteq> None"
    and select_inserted: "insert_row r t = Some t' \<Longrightarrow>
          select k t' = (if k = key r then Some r else select k t)"
    and ok_inserted: "ok t \<Longrightarrow> insert_row r t = Some t' \<Longrightarrow> ok t'"
begin

lemma insert_twice_refused: "insert_row r t = Some t' \<Longrightarrow> key r' = key r \<Longrightarrow> insert_row r' t' = None"
  by (simp add: insert_refused select_inserted)

lemma insert_keeps_rows: "insert_row r t = Some t' \<Longrightarrow> select k t = Some x \<Longrightarrow> select k t' = Some x"
proof -
  assume i: "insert_row r t = Some t'" and s: "select k t = Some x"
  then have "k \<noteq> key r" using insert_refused [of r t] by auto
  then show ?thesis using i s by (simp add: select_inserted)
qed

lemma insert_fresh:
  assumes "select (key r) t = None"
  obtains t' where "insert_row r t = Some t'" "select (key r) t' = Some r"
    "\<And>k. k \<noteq> key r \<Longrightarrow> select k t' = select k t"
proof -
  from assms have "insert_row r t \<noteq> None" by (simp add: insert_refused)
  then obtain t' where t': "insert_row r t = Some t'" by auto
  show thesis
    by (rule that [OF t']) (simp_all add: select_inserted [OF t'])
qed

end

section \<open>The row lists have it\<close>

lemma tbl_select_None: "tbl_select key k rows = None \<longleftrightarrow> k \<notin> key ` set rows"
  by (auto simp: tbl_select_def find_None_iff_all)

lemma keyed_table_rows: "keyed_table key (tbl_select key) (tbl_insert key) (tbl_ok key)"
proof
  show "tbl_select key k t = Some r \<Longrightarrow> key r = k" for k t r
    using find_SomeD [of "\<lambda>r. key r = k" t r] by (simp add: tbl_select_def)
  show "tbl_insert key r t = None \<longleftrightarrow> tbl_select key (key r) t \<noteq> None" for r t
    using tbl_select_None [of key "key r" t] by (auto simp: tbl_insert_def)
  show "tbl_select key k t' = (if k = key r then Some r else tbl_select key k t)"
    if "tbl_insert key r t = Some t'" for r t t' k
  proof -
    have t': "t' = t @ [r]" "key r \<notin> key ` set t"
      using that by (auto simp: tbl_insert_def split: if_splits)
    then have "tbl_select key (key r) t = None" using tbl_select_None by metis
    then show ?thesis
      by (auto simp: t'(1) tbl_select_def find_append split: option.split)
  qed
  show "tbl_ok key t \<Longrightarrow> tbl_insert key r t = Some t' \<Longrightarrow> tbl_ok key t'" for t r t'
    by (auto simp: tbl_insert_def tbl_ok_def split: if_splits)
qed

lemma select_upsert:
  assumes "tbl_ok key t" and "\<And>x. key x = key r \<Longrightarrow> key (upd x r) = key r"
  shows "tbl_select key k (tbl_upsert key upd r t) =
    (if k = key r
     then Some (case tbl_select key k t of None \<Rightarrow> r | Some x \<Rightarrow> upd x r)
     else tbl_select key k t)"
proof (cases "key r \<in> key ` set t")
  case False
  then have "tbl_select key (key r) t = None" by (simp add: tbl_select_None)
  then show ?thesis using False
    by (auto simp: tbl_upsert_def tbl_select_def find_append split: option.split)
next
  case True
  have "find (\<lambda>x. key x = k) (map (\<lambda>x. if key x = key r then upd x r else x) t) =
     (if k = key r then map_option (\<lambda>x. upd x r) (find (\<lambda>x. key x = k) t)
      else find (\<lambda>x. key x = k) t)"
    by (induction t) (auto simp: assms(2))
  moreover have "tbl_select key (key r) t \<noteq> None" using True by (simp add: tbl_select_None)
  ultimately show ?thesis using True
    by (auto simp: tbl_upsert_def tbl_select_def)
qed

lemma ok_upsert:
  assumes "tbl_ok key t" and "\<And>x. key x = key r \<Longrightarrow> key (upd x r) = key r"
  shows "tbl_ok key (tbl_upsert key upd r t)"
proof -
  have eq: "map key (map (\<lambda>x. if key x = key r then upd x r else x) t) = map key t"
    by (auto simp: assms(2))
  show ?thesis
    using assms(1) unfolding tbl_ok_def tbl_upsert_def by (simp add: eq del: map_map)
qed

end
