(* ===== verification/Infer.thy ===== *)
theory Infer
  imports GoFloat "HOL-Library.Multiset"
begin

text \<open>
  \<open>engine/schemamgr/infer.go\<close>: columns from one sample record. A decoded JSON value (\<open>any\<close> after
  \<open>json.Unmarshal\<close>) is one of six shapes. A Go map has no order: a record is given as the list of
  its entries in the order one iteration happened to visit them.
\<close>

datatype goval =
    GNil
  | GBool bool
  | GNum f64
  | GStr string
  | GMap "(string \<times> goval) list"
  | GSlice "goval list"

type_synonym record_map = "(string \<times> goval) list"

record column =
  col_name :: string
  col_type :: string
  col_nullable :: bool

text \<open>\<open>oor\<close> is what the platform gives for a float outside the \<open>int64\<close> range.\<close>

fun inferType :: "(f64 \<Rightarrow> int) \<Rightarrow> goval \<Rightarrow> string" where
  "inferType oor GNil = ''String''"
| "inferType oor (GBool _) = ''Bool''"
| "inferType oor (GNum v) =
     (if f64_eq v (f64_of_int (f64_to_int64 oor v)) then ''Int64'' else ''Float64'')"
| "inferType oor (GStr _) = ''String''"
| "inferType oor _ = ''String''"

definition InferColumns :: "(f64 \<Rightarrow> int) \<Rightarrow> record_map \<Rightarrow> column list" where
  "InferColumns oor sample =
     sort_key col_name
       (map (\<lambda>(name, value). \<lparr>col_name = name, col_type = inferType oor value,
                             col_nullable = (value = GNil)\<rparr>) sample)"

section \<open>Inference does not depend on the order of the map\<close>

lemma map_col_name:
  "map col_name (map (\<lambda>(name, value). \<lparr>col_name = name, col_type = inferType oor value,
      col_nullable = (value = GNil)\<rparr>) sample) = map fst sample"
  by (induction sample) auto

lemma names_InferColumns: "set (map col_name (InferColumns oor s)) = set (map fst s)"
  unfolding InferColumns_def by (simp add: image_image split_beta)

lemma distinct_InferColumns:
  assumes "distinct (map fst s)"
  shows "distinct (map col_name (InferColumns oor s))"
proof -
  have "mset (map col_name (InferColumns oor s)) = mset (map fst s)"
    unfolding map_col_name [of oor s, symmetric] by (simp add: InferColumns_def del: map_map)
  then show ?thesis using assms mset_eq_imp_distinct_iff by blast
qed

text \<open>The columns inferred from a record depend only on the record, not on the order in which
  its map is visited; they come out in strictly ascending byte order of their names, one per
  field, nullable exactly for null values.\<close>

theorem InferColumns_deterministic:
  assumes "distinct (map fst s)" and "set s' = set s" and "distinct (map fst s')"
  shows "InferColumns oor s' = InferColumns oor s
    \<and> sorted_wrt (<) (map col_name (InferColumns oor s))
    \<and> set (InferColumns oor s) =
        (\<lambda>(n, v). \<lparr>col_name = n, col_type = inferType oor v, col_nullable = (v = GNil)\<rparr>) ` set s"
proof -
  let ?f = "\<lambda>(n, v). \<lparr>col_name = n, col_type = inferType oor v, col_nullable = (v = GNil)\<rparr>"
  have "distinct s" "distinct s'" using assms by (simp_all add: distinct_map)
  then have "mset s' = mset s" using assms(2) by (simp add: set_eq_iff_mset_eq_distinct)
  then have m: "mset (map ?f s') = mset (map ?f s)" by simp
  have sorted: "sorted (map col_name (InferColumns oor t))" for t
    by (simp add: InferColumns_def)
  have d: "distinct (map col_name (InferColumns oor s))"
    by (rule distinct_InferColumns [OF assms(1)])
  have inj: "inj_on col_name (set (InferColumns oor s))"
    using d by (simp add: distinct_map)
  have ms: "mset (map ?f s') = mset (InferColumns oor s)" using m by (simp add: InferColumns_def)
  have "InferColumns oor s' = InferColumns oor s"
    unfolding InferColumns_def [of oor s']
    by (rule sort_key_inj_key_eq [OF ms _ sorted]) (simp only: mset_eq_setD [OF ms] inj)
  then show ?thesis using sorted [of s] d
    by (auto simp: InferColumns_def strict_sorted_iff)
qed

lemma InferColumns_deterministic_witness:
  "InferColumns amd64_oor [(''b'', GNum (F64 3 0)), (''a'', GNil)]
     = InferColumns amd64_oor [(''a'', GNil), (''b'', GNum (F64 3 0))]
   \<and> map col_name (InferColumns amd64_oor [(''a'', GNil), (''b'', GNum (F64 3 0))]) = [''a'', ''b'']"
proof -
  let ?s = "[(''a'', GNil), (''b'', GNum (F64 3 0))]" and ?s' = "[(''b'', GNum (F64 3 0)), (''a'', GNil)]"
  have "distinct (map fst ?s)" "set ?s' = set ?s" "distinct (map fst ?s')" by auto
  from InferColumns_deterministic [OF this, of amd64_oor, THEN conjunct1]
  show ?thesis by (simp add: InferColumns_def)
qed

section \<open>Which numbers are inferred as integers\<close>

lemma in_int64_unfold: "in_int64 i \<longleftrightarrow> - 9223372036854775808 \<le> i \<and> i < 9223372036854775808"
  by (simp add: in_int64_def)

text \<open>A float with a fraction bit is below 2^53 in size, so its integer part converts exactly.\<close>

lemma neg_exponent_trunc:
  assumes "e < 0" and "\<bar>m\<bar> < 2 ^ 53"
  shows "\<bar>f64_trunc (F64 m e)\<bar> < 9007199254740992"
    and "f64_eq (F64 m e) (F64 (f64_trunc (F64 m e)) 0) \<longleftrightarrow> (\<exists>i. f64_eq (F64 m e) (F64 i 0))"
proof -
  let ?k = "(2::int) ^ nat (- e)"
  have "\<bar>m\<bar> div ?k \<le> \<bar>m\<bar>" using zdiv_mono2 [of "\<bar>m\<bar>" 1 ?k] by simp
  moreover have "\<bar>sgn m * (\<bar>m\<bar> div ?k)\<bar> \<le> \<bar>m\<bar> div ?k"
    by (auto simp: abs_mult sgn_if pos_imp_zdiv_nonneg_iff)
  ultimately show "\<bar>f64_trunc (F64 m e)\<bar> < 9007199254740992"
    using assms by simp
  have "m = sgn m * (\<bar>m\<bar> div ?k) * ?k" if "m = i * ?k" for i
  proof -
    have "\<bar>m\<bar> div ?k = \<bar>i\<bar>" using that by (simp add: abs_mult)
    then show ?thesis using that by (simp add: sgn_mult mult.assoc [symmetric])
        (simp add: mult_sgn_abs)
  qed
  then show "f64_eq (F64 m e) (F64 (f64_trunc (F64 m e)) 0) \<longleftrightarrow> (\<exists>i. f64_eq (F64 m e) (F64 i 0))"
    using assms(1) by auto
qed

lemma f64_of_int_least: "f64_of_int (- (2 ^ 63)) = F64 (- (2 ^ 52)) 11"
proof -
  have "f64_eq (F64 (- 1) (int 63)) (f64_of_int ((- 1) * 2 ^ 63))" by (rule f64_of_int_exact) simp
  have "bitlen 9223372036854775808 = 64" by (simp add: bitlen.simps)
  then show ?thesis
    by (simp add: f64_of_int_def round53.simps Let_def div_half_even_def)
qed

lemma f64_eq_exact_int:
  assumes "\<bar>m\<bar> < 2 ^ 53" "0 \<le> e"
  shows "f64_eq (F64 m e) (f64_of_int (m * 2 ^ nat e))"
  using f64_of_int_exact [OF assms(1), of "nat e"] assms(2) by simp

text \<open>On x86-64 a JSON number becomes an \<open>Int64\<close> column exactly when it is an integer that an
  \<open>int64\<close> holds; every other number becomes \<open>Float64\<close>. The test is not portable: on arm64, where
  the conversion saturates, 2^63 passes it although no \<open>int64\<close> holds that number.\<close>

theorem inferType_Int64:
  assumes "f64_wf x"
  shows "inferType amd64_oor (GNum x) =
     (if \<exists>i. in_int64 i \<and> f64_eq x (F64 i 0) then ''Int64'' else ''Float64'')
   \<and> inferType arm64_oor (GNum (F64 1 63)) = ''Int64'' \<and> inferType amd64_oor (GNum (F64 1 63)) = ''Float64''"
proof -
  obtain m e where x: "x = F64 m e" and m: "\<bar>m\<bar> < 2 ^ 53"
    using assms by (cases x) auto
  let ?t = "f64_trunc x"
  have out: "inferType amd64_oor (GNum x) = ''Float64''" and no: "\<not> (\<exists>i. in_int64 i \<and> f64_eq x (F64 i 0))"
    if "\<not> in_int64 ?t" "0 \<le> e"
  proof -
    have "m * 2 ^ nat e \<noteq> - 9223372036854775808" using that by (auto simp: x in_int64_unfold)
    moreover have "m * 2 ^ nat e = - 9223372036854775808" if "f64_eq x (F64 (- 4503599627370496) 11)"
    proof (cases "e \<le> 11")
      case True
      have "(2::int) ^ nat (11 - e) * 2 ^ nat e = 2 ^ 11"
        using True \<open>0 \<le> e\<close> by (simp add: power_add [symmetric] nat_add_distrib [symmetric])
      then show ?thesis using that True by (simp add: x mult.commute)
    next
      case False
      then have "nat e = nat (e - 11) + 11" by simp
      then have "(2::int) ^ nat e = 2 ^ nat (e - 11) * 2 ^ 11" by (metis power_add)
      then show ?thesis using that False by (simp add: x)
    qed
    ultimately have "\<not> f64_eq x (F64 (- 4503599627370496) 11)" by blast
    then show "inferType amd64_oor (GNum x) = ''Float64''"
      using that by (simp add: f64_to_int64_def amd64_oor_def f64_of_int_least [simplified])
    show "\<not> (\<exists>i. in_int64 i \<and> f64_eq x (F64 i 0))"
      using that by (auto simp: x in_int64_unfold)
  qed
  have "inferType amd64_oor (GNum x) =
     (if \<exists>i. in_int64 i \<and> f64_eq x (F64 i 0) then ''Int64'' else ''Float64'')"
  proof (cases "0 \<le> e")
    case True
    show ?thesis
    proof (cases "in_int64 ?t")
      case t: True
      have "f64_eq x (f64_of_int ?t)" using f64_eq_exact_int [OF m True] True by (simp add: x)
      moreover have "f64_eq x (F64 ?t 0)" using True by (simp add: x)
      ultimately show ?thesis using t by (auto simp: f64_to_int64_def)
    next
      case False
      then show ?thesis using out no True by auto
    qed
  next
    case False
    then have e: "e < 0" by simp
    note tr = neg_exponent_trunc [OF e m, folded x]
    have "in_int64 ?t" using tr(1) by (auto simp: in_int64_unfold)
    moreover have "f64_of_int ?t = F64 ?t 0" using tr(1) by (rule f64_of_int_small)
    moreover have "i = ?t" if "f64_eq x (F64 i 0)" for i
    proof -
      have "m = i * 2 ^ nat (- e)" using that e by (simp add: x)
      then show ?thesis using e by (simp add: x abs_mult sgn_mult mult.assoc [symmetric])
          (simp add: mult_sgn_abs)
    qed
    ultimately show ?thesis using tr(2) by (auto simp: f64_to_int64_def)
  qed
  moreover have "inferType arm64_oor (GNum (F64 1 63)) = ''Int64''"
  proof -
    have "bitlen 9223372036854775807 = 63" by (simp add: bitlen.simps)
    then have "f64_of_int 9223372036854775807 = F64 9007199254740992 10"
      by (simp add: f64_of_int_def round53.simps Let_def div_half_even_def)
    then show ?thesis by (simp add: f64_to_int64_def arm64_oor_def in_int64_unfold)
  qed
  moreover have "inferType amd64_oor (GNum (F64 1 63)) = ''Float64''"
    using f64_of_int_least by (simp add: f64_to_int64_def amd64_oor_def in_int64_unfold)
  ultimately show ?thesis by blast
qed

lemma inferType_Int64_witness:
  "inferType amd64_oor (GNum (F64 3 1)) = ''Int64'' \<and> inferType amd64_oor (GNum (F64 3 (- 1))) = ''Float64''"
proof -
  have "f64_wf (F64 3 1)" "f64_wf (F64 3 (- 1))" by simp_all
  note t = this [THEN inferType_Int64, THEN conjunct1]
  have "\<exists>i. in_int64 i \<and> f64_eq (F64 3 1) (F64 i 0)"
    by (rule exI [of _ 6]) (simp add: in_int64_unfold)
  moreover have "\<not> (\<exists>i. in_int64 i \<and> f64_eq (F64 3 (- 1)) (F64 i 0))"
    by (auto, presburger)
  ultimately show ?thesis using t by auto
qed

end
