(* ===== verification/Dataset.thy ===== *)
theory Dataset
  imports KErrors Infer
begin

text \<open>
  \<open>engine/schemamgr/dataset.go\<close>: a dataset definition, its validation and the compatibility check
  between two definitions. A validation gives the error it returns, if any.
\<close>

record dataset =
  Name :: string
  Columns :: "column list"
  OrderBy :: "string list"
  PartitionByColumn :: string
  TTLDays :: int
  Version :: int
  CreatedAt :: time
  UpdatedAt :: time

definition column_of :: "dataset \<Rightarrow> string \<Rightarrow> column option" where
  "column_of d name = find (\<lambda>c. col_name c = name) (Columns d)"

definition invalid :: "string \<Rightarrow> goerr option" where
  "invalid m = Some (New CodeInvalidArgument m)"

fun check_columns :: "string set \<Rightarrow> column list \<Rightarrow> goerr option" where
  "check_columns seen [] = None"
| "check_columns seen (c # cs) =
     (if col_name c = [] \<or> col_type c = [] then invalid ''column name and type are required''
      else if col_name c \<in> seen then invalid (''duplicate column '' @ quoted (col_name c))
      else check_columns (insert (col_name c) seen) cs)"

fun check_order_by :: "dataset \<Rightarrow> string list \<Rightarrow> goerr option" where
  "check_order_by d [] = None"
| "check_order_by d (ob # obs) =
     (case column_of d ob of
        None \<Rightarrow> invalid (''order_by column '' @ quoted ob @ '' not defined'')
      | Some _ \<Rightarrow> check_order_by d obs)"

definition Validate :: "dataset \<Rightarrow> goerr option" where
  "Validate d =
     (if Name d = [] then invalid ''dataset name is required''
      else if Columns d = [] then invalid ''dataset must have at least one column''
      else (case check_columns {} (Columns d) of
        Some e \<Rightarrow> Some e
      | None \<Rightarrow> (case check_order_by d (OrderBy d) of
        Some e \<Rightarrow> Some e
      | None \<Rightarrow>
          if PartitionByColumn d \<noteq> [] \<and> column_of d (PartitionByColumn d) = None
          then invalid (''partition_by_column '' @ quoted (PartitionByColumn d) @ '' not defined'')
          else if TTLDays d > 0 \<and> PartitionByColumn d = []
          then invalid ''ttl_days requires partition_by_column (TTL needs a date/time column)''
          else None)))"

fun check_old_columns :: "column list \<Rightarrow> dataset \<Rightarrow> goerr option" where
  "check_old_columns [] next_d = None"
| "check_old_columns (oldCol # cs) next_d =
     (case column_of next_d (col_name oldCol) of
        None \<Rightarrow> invalid (''cannot remove column '' @ quoted (col_name oldCol))
      | Some newCol \<Rightarrow>
          if col_type newCol \<noteq> col_type oldCol
          then invalid (''cannot change column '' @ quoted (col_name oldCol) @ '' type from ''
                 @ col_type oldCol @ '' to '' @ col_type newCol)
          else if col_nullable newCol \<noteq> col_nullable oldCol \<and> col_nullable oldCol
          then invalid (''cannot make column '' @ quoted (col_name oldCol) @ '' non-nullable'')
          else check_old_columns cs next_d)"

definition CheckBackwardCompatible :: "dataset \<Rightarrow> dataset \<Rightarrow> goerr option" where
  "CheckBackwardCompatible previous next_d = check_old_columns (Columns previous) next_d"

section \<open>What validation accepts\<close>

definition column_names :: "dataset \<Rightarrow> string set" where
  "column_names d = set (map col_name (Columns d))"

definition well_formed :: "dataset \<Rightarrow> bool" where
  "well_formed d \<longleftrightarrow> Name d \<noteq> [] \<and> Columns d \<noteq> []
     \<and> (\<forall>c\<in>set (Columns d). col_name c \<noteq> [] \<and> col_type c \<noteq> [])
     \<and> distinct (map col_name (Columns d))
     \<and> set (OrderBy d) \<subseteq> column_names d
     \<and> (PartitionByColumn d = [] \<and> TTLDays d \<le> 0 \<or> PartitionByColumn d \<in> column_names d)"

lemma invalid_simps [simp]:
  "invalid m \<noteq> None" "(invalid m = Some e) = (e = New CodeInvalidArgument m)"
  by (auto simp: invalid_def)

lemma column_of_None: "column_of d n = None \<longleftrightarrow> n \<notin> column_names d"
  by (auto simp: column_of_def column_names_def find_None_iff_all)

lemma column_of_SomeD: "column_of d n = Some c \<Longrightarrow> c \<in> set (Columns d) \<and> col_name c = n"
  by (auto simp: column_of_def dest: find_SomeD)

lemma check_columns_None:
  "check_columns seen cs = None \<longleftrightarrow> (\<forall>c\<in>set cs. col_name c \<noteq> [] \<and> col_type c \<noteq> [])
     \<and> distinct (map col_name cs) \<and> set (map col_name cs) \<inter> seen = {}"
  by (induction cs arbitrary: seen) auto

lemma check_order_by_None: "check_order_by d obs = None \<longleftrightarrow> set obs \<subseteq> column_names d"
proof (induction obs)
  case (Cons ob obs)
  then show ?case using column_of_None [of d ob] by (cases "column_of d ob") auto
qed simp

lemma check_columns_error: "check_columns seen cs = Some e \<Longrightarrow> IsInvalidArgument e"
  by (induction cs arbitrary: seen) (auto simp: IsInvalidArgument_def split: if_splits)

lemma check_order_by_error: "check_order_by d obs = Some e \<Longrightarrow> IsInvalidArgument e"
  by (induction obs) (auto simp: IsInvalidArgument_def split: option.splits)

lemma Validate_None: "Validate d = None \<longleftrightarrow> well_formed d"
proof (cases "Name d = [] \<or> Columns d = [] \<or> check_columns {} (Columns d) \<noteq> None
    \<or> check_order_by d (OrderBy d) \<noteq> None")
  case True
  moreover have "\<not> well_formed d"
    using True check_columns_None [of "{}" "Columns d"] check_order_by_None [of d "OrderBy d"]
    unfolding well_formed_def by fastforce
  ultimately show ?thesis unfolding Validate_def by (auto split: option.split)
next
  case False
  then have ok: "\<forall>c\<in>set (Columns d). col_name c \<noteq> [] \<and> col_type c \<noteq> []"
    "distinct (map col_name (Columns d))" "set (OrderBy d) \<subseteq> column_names d"
    by (simp_all add: check_columns_None check_order_by_None)
  then have "[] \<notin> column_names d" by (auto simp: column_names_def)
  with False ok show ?thesis
    by (auto simp: Validate_def well_formed_def column_of_None)
qed

lemma Validate_error: "Validate d = Some e \<Longrightarrow> IsInvalidArgument e"
  by (auto simp: Validate_def IsInvalidArgument_def split: if_splits option.splits
      dest: check_columns_error [unfolded IsInvalidArgument_def]
        check_order_by_error [unfolded IsInvalidArgument_def])

text \<open>Validation accepts exactly the well-formed definitions: a name, at least one column, every
  column with a name and a type, no name twice, sort key and partition column among the columns,
  and a time to live only with a partition column. Every refusal is an invalid-argument error.\<close>

theorem Validate_characterised:
  "(case Validate d of None \<Rightarrow> well_formed d | Some e \<Rightarrow> \<not> well_formed d \<and> IsInvalidArgument e)"
  using Validate_None [of d] Validate_error [of d] by (auto split: option.split)

section \<open>Compatibility as an order on schemas\<close>

text \<open>The schema a reader of the table relies on: type and nullability by column name. A schema is
  below another one when every column is still there with its type, and no column that may be null
  has stopped being so.\<close>

type_synonym schema = "string \<rightharpoonup> string \<times> bool"

definition schema_of :: "dataset \<Rightarrow> schema" where
  "schema_of d = (\<lambda>n. map_option (\<lambda>c. (col_type c, col_nullable c)) (column_of d n))"

definition schema_le :: "schema \<Rightarrow> schema \<Rightarrow> bool" where
  "schema_le s t \<longleftrightarrow> (\<forall>n ty nullable. s n = Some (ty, nullable) \<longrightarrow>
     (\<exists>nullable'. t n = Some (ty, nullable') \<and> (nullable \<longrightarrow> nullable')))"

lemma schema_le_refl [simp]: "schema_le s s"
  by (auto simp: schema_le_def)

lemma schema_le_trans: "schema_le s t \<Longrightarrow> schema_le t u \<Longrightarrow> schema_le s u"
  unfolding schema_le_def by metis

lemma check_old_columns_None:
  "check_old_columns cs d = None \<longleftrightarrow>
     (\<forall>c\<in>set cs. \<exists>c'. column_of d (col_name c) = Some c' \<and> col_type c' = col_type c
        \<and> (col_nullable c \<longrightarrow> col_nullable c'))"
  by (induction cs) (auto split: option.split)

lemma check_old_columns_error: "check_old_columns cs d = Some e \<Longrightarrow> IsInvalidArgument e"
  by (induction cs) (auto simp: IsInvalidArgument_def split: option.splits if_splits)

lemma column_of_distinct:
  "distinct (map col_name (Columns d)) \<Longrightarrow> c \<in> set (Columns d) \<Longrightarrow> column_of d (col_name c) = Some c"
  unfolding column_of_def by (rule find_distinct_key) auto

lemma compatible_iff:
  assumes "distinct (map col_name (Columns previous))"
  shows "CheckBackwardCompatible previous next_d = None \<longleftrightarrow> schema_le (schema_of previous) (schema_of next_d)"
proof
  assume "CheckBackwardCompatible previous next_d = None"
  then have c: "\<exists>c'. column_of next_d (col_name c) = Some c' \<and> col_type c' = col_type c
      \<and> (col_nullable c \<longrightarrow> col_nullable c')" if "c \<in> set (Columns previous)" for c
    using that by (simp add: CheckBackwardCompatible_def check_old_columns_None)
  show "schema_le (schema_of previous) (schema_of next_d)"
    unfolding schema_le_def
  proof (intro allI impI)
    fix n ty nullable
    assume "schema_of previous n = Some (ty, nullable)"
    then obtain col where "column_of previous n = Some col" "ty = col_type col" "nullable = col_nullable col"
      by (auto simp: schema_of_def)
    with c [of col] column_of_SomeD [of previous n col]
    show "\<exists>nullable'. schema_of next_d n = Some (ty, nullable') \<and> (nullable \<longrightarrow> nullable')"
      by (auto simp: schema_of_def)
  qed
next
  assume le: "schema_le (schema_of previous) (schema_of next_d)"
  show "CheckBackwardCompatible previous next_d = None"
    unfolding CheckBackwardCompatible_def check_old_columns_None
  proof
    fix c assume "c \<in> set (Columns previous)"
    then have "schema_of previous (col_name c) = Some (col_type c, col_nullable c)"
      using column_of_distinct [OF assms] by (simp add: schema_of_def)
    with le obtain b where "schema_of next_d (col_name c) = Some (col_type c, b)" "col_nullable c \<longrightarrow> b"
      unfolding schema_le_def by blast
    then show "\<exists>c'. column_of next_d (col_name c) = Some c' \<and> col_type c' = col_type c
        \<and> (col_nullable c \<longrightarrow> col_nullable c')"
      by (auto simp: schema_of_def)
  qed
qed

text \<open>Appending columns after the existing ones is always compatible, so for such a change the check
  can only pass.\<close>

lemma append_compatible:
  assumes "distinct (map col_name (Columns d))" and "Columns d' = Columns d @ cs"
  shows "CheckBackwardCompatible d d' = None"
proof -
  have "column_of d' (col_name c) = Some c" if "c \<in> set (Columns d)" for c
    using column_of_distinct [OF assms(1) that] assms(2)
    by (simp add: column_of_def find_append)
  then show ?thesis by (simp add: CheckBackwardCompatible_def check_old_columns_None)
qed


definition sample_dataset :: dataset where
  "sample_dataset = \<lparr>Name = ''events'',
     Columns = [\<lparr>col_name = ''at'', col_type = ''DateTime64(3)'', col_nullable = False\<rparr>,
                \<lparr>col_name = ''user'', col_type = ''String'', col_nullable = True\<rparr>],
     OrderBy = [''at''], PartitionByColumn = ''at'', TTLDays = 30,
     Version = 1, CreatedAt = 0, UpdatedAt = 0\<rparr>"

lemma well_formed_sample: "well_formed sample_dataset"
  by (simp add: well_formed_def sample_dataset_def column_names_def)


end
