(* ===== verification/Ddl.thy ===== *)
theory Ddl
  imports Dataset
begin

text \<open>
  \<open>engine/schemamgr/ddl.go\<close>: the statements generated from a definition, and a reader of such
  statements that shows what they declare.
\<close>

definition quoteIdent :: "string \<Rightarrow> string" where
  "quoteIdent name = [backtick] @ replace_char backtick [backtick, backtick] name @ [backtick]"

definition column_type_text :: "column \<Rightarrow> string" where
  "column_type_text col =
     (if col_nullable col then ''Nullable('' @ col_type col @ '')'' else col_type col)"

text \<open>The loop over the columns of both statements: one line per column, a comma after every line
  but the last.\<close>

fun column_lines :: "string \<Rightarrow> column list \<Rightarrow> string" where
  "column_lines lead [] = []"
| "column_lines lead (col # cols) =
     lead @ quoteIdent (col_name col) @ '' '' @ column_type_text col
       @ (if cols = [] then [] else '','') @ [nl] @ column_lines lead cols"

definition GenerateDDL :: "dataset \<Rightarrow> string" where
  "GenerateDDL d = trim_right_nl
     (''CREATE TABLE IF NOT EXISTS '' @ quoteIdent (Name d) @ '' ('' @ [nl]
      @ column_lines ''    '' (Columns d)
      @ '') ENGINE = MergeTree()'' @ [nl]
      @ (if PartitionByColumn d \<noteq> []
         then ''PARTITION BY toYYYYMM('' @ quoteIdent (PartitionByColumn d) @ '')'' @ [nl] else [])
      @ (if length (OrderBy d) > 0
         then ''ORDER BY ('' @ join '', '' (map quoteIdent (OrderBy d)) @ '')'' @ [nl]
         else ''ORDER BY tuple()'' @ [nl])
      @ (if TTLDays d > 0
         then ''TTL '' @ quoteIdent (PartitionByColumn d) @ '' + INTERVAL '' @ show_int (TTLDays d)
              @ '' DAY'' @ [nl]
         else []))"

definition GenerateAlterDDL :: "string \<Rightarrow> column list \<Rightarrow> string" where
  "GenerateAlterDDL datasetName newColumns = trim_right_nl
     (''ALTER TABLE '' @ quoteIdent datasetName @ [nl] @ column_lines ''    ADD COLUMN '' newColumns)"

section \<open>Reading identifiers\<close>

text \<open>A quoted identifier ends at the first backtick that is not doubled. A dialect with \<open>esc\<close> also
  takes a backslash as an escape of the character after it, as ClickHouse does.\<close>

fun read_body :: "bool \<Rightarrow> string \<Rightarrow> (string \<times> string) option" where
  "read_body esc [] = None"
| "read_body esc [c] = (if c = backtick then Some ([], []) else None)"
| "read_body esc (c # d # cs) =
     (if c = backtick
      then (if d = backtick then map_option (apfst ((#) backtick)) (read_body esc cs)
            else Some ([], d # cs))
      else if esc \<and> c = backslash then map_option (apfst ((#) d)) (read_body esc cs)
      else map_option (apfst ((#) c)) (read_body esc (d # cs)))"

definition read_ident :: "bool \<Rightarrow> string \<Rightarrow> (string \<times> string) option" where
  "read_ident esc s = (case s of c # cs \<Rightarrow> if c = backtick then read_body esc cs else None | [] \<Rightarrow> None)"

definition readable :: "bool \<Rightarrow> string \<Rightarrow> bool" where
  "readable esc n \<longleftrightarrow> (esc \<longrightarrow> backslash \<notin> set n)"

lemma read_body_replace:
  "readable esc n \<Longrightarrow> (rest = [] \<or> hd rest \<noteq> backtick) \<Longrightarrow>
   read_body esc (replace_char backtick [backtick, backtick] n @ backtick # rest) = Some (n, rest)"
proof (induction n)
  case Nil
  then show ?case by (cases rest) auto
next
  case (Cons c n)
  have r: "readable esc n" using Cons.prems(1) by (simp add: readable_def)
  note IH = Cons.IH [OF r Cons.prems(2)]
  show ?case
  proof (cases "c = backtick")
    case True
    then show ?thesis using IH by simp
  next
    case False
    obtain d ds where tail: "replace_char backtick [backtick, backtick] n @ backtick # rest = d # ds"
      by (cases "replace_char backtick [backtick, backtick] n") auto
    then show ?thesis using IH False Cons.prems(1) by (auto simp: readable_def)
  qed
qed

lemma read_quoteIdent:
  "readable esc n \<Longrightarrow> (rest = [] \<or> hd rest \<noteq> backtick) \<Longrightarrow>
   read_ident esc (quoteIdent n @ rest) = Some (n, rest)"
  by (simp add: read_ident_def quoteIdent_def read_body_replace)

text \<open>Quoting is safe for a reader for which only the backtick is special: whatever the name,
  such a reader gets the name back and stops exactly at its end, so no name can leave its quotes.
  A reader that also honours backslash escapes, as ClickHouse documents for its identifiers, does so
  only for names without a backslash: the one-character name that is a backslash takes the closing
  quote with it, and the text after the identifier is read as part of the name.\<close>

theorem quoteIdent_roundtrip:
  assumes "rest = [] \<or> hd rest \<noteq> backtick"
  shows "read_ident False (quoteIdent n @ rest) = Some (n, rest)
   \<and> (backslash \<notin> set n \<longrightarrow> read_ident True (quoteIdent n @ rest) = Some (n, rest))
   \<and> read_ident True (quoteIdent [backslash] @ '' UInt8, '' @ quoteIdent ''b'')
       = Some (backtick # '' UInt8, '', ''b'' @ [backtick])"
proof -
  have "read_ident True (quoteIdent [backslash] @ '' UInt8, '' @ quoteIdent ''b'')
       = Some (backtick # '' UInt8, '', ''b'' @ [backtick])"
    by (simp add: read_ident_def quoteIdent_def)
  then show ?thesis
    using read_quoteIdent [OF _ assms, of _ n] by (simp add: readable_def)
qed

lemma quoteIdent_roundtrip_witness:
  "read_ident False (quoteIdent [CHR ''a'', backtick, CHR ''b''] @ '' String'')
     = Some ([CHR ''a'', backtick, CHR ''b''], '' String'')"
proof -
  have "'' String'' = [] \<or> hd '' String'' \<noteq> backtick" by simp
  from quoteIdent_roundtrip [OF this, THEN conjunct1] show ?thesis .
qed

section \<open>Reading the column list\<close>

text \<open>One column line after another: the name, the text of the type up to the end of the line, and a
  comma when another line follows.\<close>

function read_columns :: "bool \<Rightarrow> string \<Rightarrow> string \<Rightarrow> ((string \<times> string) list \<times> string) option" where
  "read_columns esc lead s =
     (case cut_prefix s lead of
        (r, found) \<Rightarrow>
          if \<not> found then None
          else (case read_ident esc r of
              None \<Rightarrow> None
            | Some (n, []) \<Rightarrow> None
            | Some (n, sp # r') \<Rightarrow>
                let line = takeWhile (\<lambda>c. c \<noteq> nl) r'; after = drop (Suc (length line)) r' in
                if length s \<le> length after then None
                else if line \<noteq> [] \<and> last line = CHR '',''
                then map_option (apfst ((#) (n, butlast line))) (read_columns esc lead after)
                else Some ([(n, line)], after)))"
  by pat_completeness auto
termination by (relation "measure (\<lambda>(esc, lead, s). length s)") auto

declare read_columns.simps [simp del]

definition plain_type :: "string \<Rightarrow> bool" where
  "plain_type t \<longleftrightarrow> t \<noteq> [] \<and> nl \<notin> set t \<and> last t \<noteq> CHR '',''"

lemma plain_type_text: "plain_type (col_type c) \<Longrightarrow> plain_type (column_type_text c)"
  by (auto simp: plain_type_def column_type_text_def)

lemma takeWhile_line: "nl \<notin> set t \<Longrightarrow> takeWhile (\<lambda>c. c \<noteq> nl) (t @ nl # rest) = t"
  by (induction t) auto

lemma read_column_lines:
  assumes "cols \<noteq> []" and "\<forall>c\<in>set cols. plain_type (col_type c) \<and> readable esc (col_name c)"
  shows "read_columns esc lead (column_lines lead cols @ rest) =
    Some (map (\<lambda>c. (col_name c, column_type_text c)) cols, rest)"
  using assms
proof (induction cols)
  case (Cons c cols)
  have t: "plain_type (column_type_text c)" and rd: "readable esc (col_name c)"
    using Cons.prems plain_type_text by auto
  show ?case
  proof (cases "cols = []")
    case True
    let ?r = "'' '' @ column_type_text c @ nl # rest"
    have "read_ident esc (quoteIdent (col_name c) @ ?r) = Some (col_name c, ?r)"
      using rd by (rule read_quoteIdent) simp
    then show ?thesis
      using t True takeWhile_line [of "column_type_text c" rest]
      by (subst read_columns.simps) (auto simp: plain_type_def Let_def)
  next
    case False
    let ?r = "'' '' @ (column_type_text c @ '','') @ nl # column_lines lead cols @ rest"
    have "read_ident esc (quoteIdent (col_name c) @ ?r) = Some (col_name c, ?r)"
      using rd by (rule read_quoteIdent) simp
    moreover have "takeWhile (\<lambda>c. c \<noteq> nl) ((column_type_text c @ '','') @ nl # column_lines lead cols @ rest)
        = column_type_text c @ '',''"
      using t by (intro takeWhile_line) (auto simp: plain_type_def)
    moreover have "read_columns esc lead (column_lines lead cols @ rest)
        = Some (map (\<lambda>c. (col_name c, column_type_text c)) cols, rest)"
      using Cons False by auto
    ultimately show ?thesis
      using False by (subst read_columns.simps) (simp add: Let_def)
  qed
qed simp

lemma trim_right_nl_keeps:
  assumes "a \<noteq> []" "last a \<noteq> nl"
  shows "\<exists>r. trim_right_nl (a @ b) = a @ r"
proof (cases "\<exists>c\<in>set b. c \<noteq> nl")
  case True
  then have "trim_right_nl (a @ b) = a @ trim_right_nl b"
    unfolding trim_right_nl_def by (auto simp: dropWhile_append)
  then show ?thesis by blast
next
  case False
  have "dropWhile (\<lambda>c. c = nl) (rev a) = rev a"
    using assms by (cases a rule: rev_cases) auto
  moreover have "dropWhile (\<lambda>c. c = nl) (rev b) = []" using False by simp
  ultimately have "trim_right_nl (a @ b) = a @ []"
    unfolding trim_right_nl_def by (simp add: dropWhile_append)
  then show ?thesis by blast
qed

lemma GenerateDDL_shape:
  "\<exists>rest. GenerateDDL d = ''CREATE TABLE IF NOT EXISTS '' @ quoteIdent (Name d)
      @ ('' ('' @ [nl]) @ column_lines ''    '' (Columns d) @ '') ENGINE = MergeTree()'' @ rest"
proof -
  let ?a = "''CREATE TABLE IF NOT EXISTS '' @ quoteIdent (Name d) @ ('' ('' @ [nl])
      @ column_lines ''    '' (Columns d) @ '') ENGINE = MergeTree()''"
  obtain b where "GenerateDDL d = trim_right_nl (?a @ b)"
    unfolding GenerateDDL_def append_assoc by blast
  moreover obtain r where "trim_right_nl (?a @ b) = ?a @ r"
    using trim_right_nl_keeps [of ?a b] by auto
  ultimately show ?thesis by auto
qed

definition read_create :: "bool \<Rightarrow> string \<Rightarrow> (string \<times> (string \<times> string) list \<times> string) option" where
  "read_create esc s =
     (case cut_prefix s ''CREATE TABLE IF NOT EXISTS '' of
        (r, found) \<Rightarrow> if \<not> found then None
          else (case read_ident esc r of
              None \<Rightarrow> None
            | Some (n, r') \<Rightarrow>
                (case cut_prefix r' ('' ('' @ [nl]) of
                   (r'', found') \<Rightarrow> if \<not> found' then None
                     else map_option (\<lambda>(cols, rest). (n, cols, rest)) (read_columns esc ''    '' r''))))"

text \<open>C39: the CREATE statement declares the table. For a well-formed definition whose type texts are
  single lines not ending in a comma, reading the statement gives back the table name and exactly
  the columns of the definition, in order, with their types (wrapped in Nullable where the column
  may be null), and what follows the column list opens with the table engine. The backslash-aware
  reader is allowed when no name has a backslash.\<close>

theorem GenerateDDL_declares_columns:
  assumes "well_formed d" and "\<forall>c\<in>set (Columns d). plain_type (col_type c) \<and> readable esc (col_name c)"
    and "readable esc (Name d)"
  shows "\<exists>rest. read_create esc (GenerateDDL d) =
    Some (Name d, map (\<lambda>c. (col_name c, column_type_text c)) (Columns d), '') ENGINE = MergeTree()'' @ rest)"
proof -
  have ne: "Columns d \<noteq> []" using assms(1) by (simp add: well_formed_def)
  obtain rest where g: "GenerateDDL d = ''CREATE TABLE IF NOT EXISTS '' @ quoteIdent (Name d)
      @ ('' ('' @ [nl]) @ column_lines ''    '' (Columns d) @ '') ENGINE = MergeTree()'' @ rest"
    using GenerateDDL_shape by blast
  let ?c = "column_lines ''    '' (Columns d) @ '') ENGINE = MergeTree()'' @ rest"
  have "read_ident esc (quoteIdent (Name d) @ (('' ('' @ [nl]) @ ?c)) = Some (Name d, ('' ('' @ [nl]) @ ?c)"
    using assms(3) by (rule read_quoteIdent) simp
  moreover have "read_columns esc ''    '' ?c =
      Some (map (\<lambda>c. (col_name c, column_type_text c)) (Columns d), '') ENGINE = MergeTree()'' @ rest)"
    by (rule read_column_lines [OF ne assms(2)])
  ultimately show ?thesis
    unfolding read_create_def g cut_prefix_append by (auto simp: cut_prefix_append [of "'' ('' @ [nl]", simplified])
qed

lemma GenerateDDL_declares_columns_witness:
  "\<exists>rest. read_create True (GenerateDDL sample_dataset) =
    Some (''events'', [(''at'', ''DateTime64(3)''), (''user'', ''Nullable(String)'')],
          '') ENGINE = MergeTree()'' @ rest)"
proof -
  have "\<forall>c\<in>set (Columns sample_dataset). plain_type (col_type c) \<and> readable True (col_name c)"
    "readable True (Name sample_dataset)"
    by (simp_all add: sample_dataset_def plain_type_def readable_def)
  from GenerateDDL_declares_columns [OF well_formed_sample this] show ?thesis
    by (simp add: sample_dataset_def column_type_text_def)
qed

section \<open>The ALTER statement\<close>

definition read_alter :: "bool \<Rightarrow> string \<Rightarrow> (string \<times> (string \<times> string) list \<times> string) option" where
  "read_alter esc s =
     (case cut_prefix s ''ALTER TABLE '' of
        (r, found) \<Rightarrow> if \<not> found then None
          else (case read_ident esc r of
              None \<Rightarrow> None
            | Some (n, r') \<Rightarrow>
                (case cut_prefix r' [nl] of
                   (r'', found') \<Rightarrow> if \<not> found' then None
                     else map_option (\<lambda>(cols, rest). (n, cols, rest))
                            (read_columns esc ''    ADD COLUMN '' r''))))"

lemma column_lines_last:
  "cols \<noteq> [] \<Longrightarrow> \<forall>c\<in>set cols. plain_type (col_type c) \<Longrightarrow>
   \<exists>pre x. column_lines lead cols = pre @ [x, nl] \<and> x \<noteq> nl"
proof (induction cols)
  case (Cons c cols)
  show ?case
  proof (cases "cols = []")
    case True
    have "plain_type (column_type_text c)" using Cons.prems(2) plain_type_text [of c] by simp
    then have "column_type_text c \<noteq> []" "last (column_type_text c) \<noteq> nl"
      unfolding plain_type_def by (simp, metis last_in_set)
    then obtain pre x where "column_type_text c = pre @ [x]" "x \<noteq> nl"
      by (metis append_butlast_last_id)
    then have "column_lines lead (c # cols) = (lead @ quoteIdent (col_name c) @ '' '' @ pre) @ [x, nl]"
      using True by simp
    then show ?thesis using \<open>x \<noteq> nl\<close> by blast
  next
    case False
    with Cons obtain pre x where "column_lines lead cols = pre @ [x, nl]" "x \<noteq> nl" by auto
    then have "column_lines lead (c # cols) =
      (lead @ quoteIdent (col_name c) @ '' '' @ column_type_text c @ '','' @ [nl] @ pre) @ [x, nl]"
      using False by simp
    then show ?thesis using \<open>x \<noteq> nl\<close> by blast
  qed
qed simp

lemma GenerateAlterDDL_shape:
  assumes "cols \<noteq> []" "\<forall>c\<in>set cols. plain_type (col_type c)"
  shows "GenerateAlterDDL n cols @ [nl] =
    ''ALTER TABLE '' @ quoteIdent n @ [nl] @ column_lines ''    ADD COLUMN '' cols"
proof -
  obtain pre x where "column_lines ''    ADD COLUMN '' cols = pre @ [x, nl]" "x \<noteq> nl"
    using column_lines_last [OF assms] by blast
  then show ?thesis unfolding GenerateAlterDDL_def trim_right_nl_def by simp
qed

lemma GenerateAlterDDL_nothing: "GenerateAlterDDL n [] = ''ALTER TABLE '' @ quoteIdent n"
  by (simp add: GenerateAlterDDL_def trim_right_nl_def quoteIdent_def)

text \<open>The ALTER statement adds exactly the new columns: with its final newline put back, it reads
  as one ADD COLUMN clause per new column, in order, and nothing else. With no new columns it is
  not a statement at all: the table name with no clause after it.\<close>

theorem GenerateAlterDDL_adds_columns:
  assumes "\<forall>c\<in>set cols. plain_type (col_type c) \<and> readable esc (col_name c)" and "readable esc n"
  shows "(cols \<noteq> [] \<longrightarrow> read_alter esc (GenerateAlterDDL n cols @ [nl]) =
      Some (n, map (\<lambda>c. (col_name c, column_type_text c)) cols, []))
    \<and> GenerateAlterDDL n [] = ''ALTER TABLE '' @ quoteIdent n"
proof
  show "GenerateAlterDDL n [] = ''ALTER TABLE '' @ quoteIdent n" by (rule GenerateAlterDDL_nothing)
  show "cols \<noteq> [] \<longrightarrow> read_alter esc (GenerateAlterDDL n cols @ [nl]) =
      Some (n, map (\<lambda>c. (col_name c, column_type_text c)) cols, [])"
  proof
    assume ne: "cols \<noteq> []"
    let ?c = "column_lines ''    ADD COLUMN '' cols"
    have s: "GenerateAlterDDL n cols @ [nl] = ''ALTER TABLE '' @ quoteIdent n @ [nl] @ ?c"
      using assms(1) by (intro GenerateAlterDDL_shape [OF ne]) blast
    have "read_ident esc (quoteIdent n @ [nl] @ ?c) = Some (n, [nl] @ ?c)"
      using assms(2) by (rule read_quoteIdent) simp
    moreover have "read_columns esc ''    ADD COLUMN '' ?c =
        Some (map (\<lambda>c. (col_name c, column_type_text c)) cols, [])"
      using read_column_lines [OF ne assms(1), of _ "[]"] by simp
    moreover have "cut_prefix (nl # ?c) [nl] = (?c, True)" by (simp add: cut_prefix_True)
    ultimately show "read_alter esc (GenerateAlterDDL n cols @ [nl]) =
        Some (n, map (\<lambda>c. (col_name c, column_type_text c)) cols, [])"
      unfolding read_alter_def s cut_prefix_append by simp
  qed
qed

lemma GenerateAlterDDL_adds_columns_witness:
  "read_alter True (GenerateAlterDDL ''t'' [\<lparr>col_name = ''x'', col_type = ''Int64'', col_nullable = False\<rparr>] @ [nl])
     = Some (''t'', [(''x'', ''Int64'')], [])"
proof -
  have "\<forall>c\<in>set [\<lparr>col_name = ''x'', col_type = ''Int64'', col_nullable = False\<rparr>].
      plain_type (col_type c) \<and> readable True (col_name c)" "readable True ''t''"
    by (simp_all add: plain_type_def readable_def)
  from GenerateAlterDDL_adds_columns [OF this, THEN conjunct1] show ?thesis
    by (simp add: column_type_text_def)
qed

end
