(* ===== verification/SchemaStore.thy ===== *)
theory SchemaStore
  imports Dataset SqlTables
begin

text \<open>
  \<open>engine/schemamgr/store.go\<close>: the versioned dataset registry over its two SQLite tables. Every
  statement may fail: \<open>sql_faults\<close> says what the driver reports during one call. \<open>Create\<close> and
  \<open>AddColumns\<close> read first and write later in a transaction of its own, so each is given as the part
  that reads (\<open>prepare_create\<close>, \<open>prepare_columns\<close>) followed by \<open>persist\<close>; requests interleave
  between the two.
\<close>

text \<open>The JSON text of a definition, as far as decoding it is concerned.\<close>

datatype cell = Encoded dataset | Garbled goerr

record dataset_row =
  r_name :: string
  r_definition :: cell
  r_version :: int
  r_created_at :: time
  r_updated_at :: time

record version_row =
  v_name :: string
  v_version :: int
  v_definition :: cell
  v_created_at :: time

record schema_db =
  datasets :: "dataset_row list"
  dataset_versions :: "version_row list"

definition version_key :: "version_row \<Rightarrow> string \<times> int" where
  "version_key r = (v_name r, v_version r)"

record sql_faults =
  on_query :: "goerr option"
  on_rows :: "goerr option"
  on_encode :: "goerr option"
  on_begin :: "goerr option"
  on_upsert :: "goerr option"
  on_insert :: "goerr option"
  on_commit :: "goerr option"
  violation :: goerr

definition no_faults :: "goerr \<Rightarrow> sql_faults" where
  "no_faults v = \<lparr>on_query = None, on_rows = None, on_encode = None, on_begin = None,
     on_upsert = None, on_insert = None, on_commit = None, violation = v\<rparr>"

text \<open>\<open>CREATE TABLE IF NOT EXISTS\<close> leaves the tables of an existing file as they are.\<close>

definition Open :: "goerr option \<Rightarrow> goerr option \<Rightarrow> schema_db option \<Rightarrow> schema_db result" where
  "Open open_err exec_err file =
     (case open_err of
        Some e \<Rightarrow> Inl (Wrap CodeInternal ''open sqlite'' e)
      | None \<Rightarrow> (case exec_err of
          Some e \<Rightarrow> Inl (Wrap CodeInternal ''create schemamgr tables'' e)
        | None \<Rightarrow> Inr (case file of Some db \<Rightarrow> db | None \<Rightarrow> \<lparr>datasets = [], dataset_versions = []\<rparr>)))"

section \<open>Reading\<close>

definition Get :: "sql_faults \<Rightarrow> schema_db \<Rightarrow> string \<Rightarrow> dataset result" where
  "Get flt db name =
     (case on_query flt of
        Some e \<Rightarrow> Inl (Wrap CodeInternal ''query dataset'' e)
      | None \<Rightarrow> (case tbl_select r_name name (datasets db) of
          None \<Rightarrow> Inl (New CodeNotFound (''dataset '' @ quoted name @ '' not found''))
        | Some row \<Rightarrow> (case r_definition row of
            Garbled e \<Rightarrow> Inl (Wrap CodeInternal ''decode dataset definition'' e)
          | Encoded d \<Rightarrow> Inr d)))"

fun decode_rows :: "string \<Rightarrow> cell list \<Rightarrow> dataset list \<Rightarrow> dataset list result" where
  "decode_rows what [] out = Inr out"
| "decode_rows what (Garbled e # cells) out = Inl (Wrap CodeInternal what e)"
| "decode_rows what (Encoded d # cells) out = decode_rows what cells (out @ [d])"

definition rows_result :: "sql_faults \<Rightarrow> dataset list result \<Rightarrow> dataset list result" where
  "rows_result flt r = (case r of Inl e \<Rightarrow> Inl e
     | Inr out \<Rightarrow> (case on_rows flt of Some e \<Rightarrow> Inl e | None \<Rightarrow> Inr out))"

definition List :: "sql_faults \<Rightarrow> schema_db \<Rightarrow> dataset list result" where
  "List flt db =
     (case on_query flt of
        Some e \<Rightarrow> Inl (Wrap CodeInternal ''list datasets'' e)
      | None \<Rightarrow> rows_result flt
          (decode_rows ''decode dataset definition'' (map r_definition (sort_key r_name (datasets db))) []))"

definition Versions :: "sql_faults \<Rightarrow> schema_db \<Rightarrow> string \<Rightarrow> dataset list result" where
  "Versions flt db name =
     (case on_query flt of
        Some e \<Rightarrow> Inl (Wrap CodeInternal ''list dataset versions'' e)
      | None \<Rightarrow> rows_result flt
          (decode_rows ''decode dataset version''
             (map v_definition (sort_key v_version (filter (\<lambda>r. v_name r = name) (dataset_versions db)))) []))"

section \<open>Writing\<close>

definition upsert_row :: "dataset_row \<Rightarrow> dataset_row \<Rightarrow> dataset_row" where
  "upsert_row old excluded = old\<lparr>r_definition := r_definition excluded,
     r_version := r_version excluded, r_updated_at := r_updated_at excluded\<rparr>"

definition row_of :: "dataset \<Rightarrow> dataset_row" where
  "row_of d = \<lparr>r_name = Name d, r_definition = Encoded d, r_version = Version d,
     r_created_at = CreatedAt d, r_updated_at = UpdatedAt d\<rparr>"

definition version_of :: "dataset \<Rightarrow> version_row" where
  "version_of d = \<lparr>v_name = Name d, v_version = Version d, v_definition = Encoded d,
     v_created_at = UpdatedAt d\<rparr>"

text \<open>The transaction: every early return rolls back, so the database it leaves is the one before.\<close>

definition persist :: "sql_faults \<Rightarrow> schema_db \<Rightarrow> dataset \<Rightarrow> goerr option \<times> schema_db" where
  "persist flt db d =
     (case on_encode flt of Some e \<Rightarrow> (Some (Wrap CodeInternal ''encode dataset definition'' e), db)
      | None \<Rightarrow> (case on_begin flt of Some e \<Rightarrow> (Some (Wrap CodeInternal ''begin transaction'' e), db)
      | None \<Rightarrow> (case on_upsert flt of Some e \<Rightarrow> (Some (Wrap CodeInternal ''upsert dataset'' e), db)
      | None \<Rightarrow>
        let tx = db\<lparr>datasets := tbl_upsert r_name upsert_row (row_of d) (datasets db)\<rparr> in
        (case on_insert flt of Some e \<Rightarrow> (Some (Wrap CodeInternal ''insert dataset version'' e), db)
         | None \<Rightarrow> (case tbl_insert version_key (version_of d) (dataset_versions tx) of
             None \<Rightarrow> (Some (Wrap CodeInternal ''insert dataset version'' (violation flt)), db)
           | Some vs \<Rightarrow> (case on_commit flt of
               Some e \<Rightarrow> (Some (Wrap CodeInternal ''commit transaction'' e), db)
             | None \<Rightarrow> (None, tx\<lparr>dataset_versions := vs\<rparr>)))))))"

definition finish :: "sql_faults \<Rightarrow> schema_db \<Rightarrow> dataset result \<Rightarrow> dataset result \<times> schema_db" where
  "finish flt db prepared =
     (case prepared of
        Inl e \<Rightarrow> (Inl e, db)
      | Inr d \<Rightarrow> (case persist flt db d of (Some e, db') \<Rightarrow> (Inl e, db') | (None, db') \<Rightarrow> (Inr d, db')))"

definition prepare_create :: "sql_faults \<Rightarrow> time \<Rightarrow> schema_db \<Rightarrow> dataset \<Rightarrow> dataset result" where
  "prepare_create flt now db d =
     (case Validate d of
        Some e \<Rightarrow> Inl e
      | None \<Rightarrow> (case Get flt db (Name d) of
          Inr _ \<Rightarrow> Inl (New CodeAlreadyExists (''dataset '' @ quoted (Name d) @ '' already exists''))
        | Inl _ \<Rightarrow> Inr (d\<lparr>Version := 1, CreatedAt := now, UpdatedAt := now\<rparr>)))"

definition Create :: "sql_faults \<Rightarrow> time \<Rightarrow> schema_db \<Rightarrow> dataset \<Rightarrow> dataset result \<times> schema_db" where
  "Create flt now db d = finish flt db (prepare_create flt now db d)"

definition prepare_columns ::
  "sql_faults \<Rightarrow> time \<Rightarrow> schema_db \<Rightarrow> string \<Rightarrow> column list \<Rightarrow> dataset result" where
  "prepare_columns flt now db name newColumns =
     (case Get flt db name of
        Inl e \<Rightarrow> Inl e
      | Inr current \<Rightarrow>
          let next_d = current\<lparr>Columns := Columns current @ newColumns,
                Version := Version current + 1, UpdatedAt := now\<rparr>
          in (case Validate next_d of
                Some e \<Rightarrow> Inl e
              | None \<Rightarrow> (case CheckBackwardCompatible current next_d of
                  Some e \<Rightarrow> Inl e
                | None \<Rightarrow> Inr next_d)))"

definition AddColumns ::
  "sql_faults \<Rightarrow> time \<Rightarrow> schema_db \<Rightarrow> string \<Rightarrow> column list \<Rightarrow> dataset result \<times> schema_db" where
  "AddColumns flt now db name newColumns = finish flt db (prepare_columns flt now db name newColumns)"

definition empty_dataset :: dataset where
  "empty_dataset = \<lparr>Name = [], Columns = [], OrderBy = [], PartitionByColumn = [], TTLDays = 0,
     Version = 0, CreatedAt = 0, UpdatedAt = 0\<rparr>"

definition inferred :: "(f64 \<Rightarrow> int) \<Rightarrow> string \<Rightarrow> record_map \<Rightarrow> dataset" where
  "inferred oor name sample =
     (let columns = InferColumns oor sample; d = empty_dataset\<lparr>Name := name, Columns := columns\<rparr> in
      case find (\<lambda>c. col_name c = ''received_at_unix_ms'') columns of
        Some c \<Rightarrow> d\<lparr>OrderBy := [col_name c]\<rparr>
      | None \<Rightarrow> d)"

text \<open>\<open>get_flt\<close> are the faults of the lookup, \<open>flt\<close> those of the creation after it.\<close>

definition EnsureDataset ::
  "(f64 \<Rightarrow> int) \<Rightarrow> sql_faults \<Rightarrow> sql_faults \<Rightarrow> time \<Rightarrow> schema_db \<Rightarrow> string \<Rightarrow> record_map
   \<Rightarrow> (dataset \<times> bool) result \<times> schema_db" where
  "EnsureDataset oor get_flt flt now db name sample =
     (case Get get_flt db name of
        Inr existing \<Rightarrow> (Inr (existing, False), db)
      | Inl err \<Rightarrow>
          if \<not> IsNotFound err then (Inl err, db)
          else (case Create flt now db (inferred oor name sample) of
                  (Inl e, db') \<Rightarrow> (Inl e, db')
                | (Inr created, db') \<Rightarrow> (Inr (created, True), db')))"

section \<open>The registry as append-only histories\<close>

definition decoded :: "cell \<Rightarrow> dataset list" where
  "decoded c = (case c of Encoded d \<Rightarrow> [d] | Garbled _ \<Rightarrow> [])"

definition rows_for :: "schema_db \<Rightarrow> string \<Rightarrow> version_row list" where
  "rows_for db n = filter (\<lambda>r. v_name r = n) (dataset_versions db)"

definition history :: "schema_db \<Rightarrow> string \<Rightarrow> dataset list" where
  "history db n = concat (map (\<lambda>r. decoded (v_definition r)) (rows_for db n))"

text \<open>What one version may change of the one before: more columns, at the end.\<close>

definition extends :: "dataset \<Rightarrow> dataset \<Rightarrow> bool" where
  "extends p d \<longleftrightarrow> Name d = Name p \<and> prefix (Columns p) (Columns d) \<and> OrderBy d = OrderBy p
     \<and> PartitionByColumn d = PartitionByColumn p \<and> TTLDays d = TTLDays p \<and> CreatedAt d = CreatedAt p"

definition history_ok :: "string \<Rightarrow> dataset list \<Rightarrow> bool" where
  "history_ok n ds \<longleftrightarrow> map Version ds = map int [1..<Suc (length ds)]
     \<and> (\<forall>d\<in>set ds. Name d = n \<and> well_formed d) \<and> successively extends ds"

definition store_ok :: "schema_db \<Rightarrow> bool" where
  "store_ok db \<longleftrightarrow> tbl_ok r_name (datasets db)
     \<and> (\<forall>n. map v_definition (rows_for db n) = map Encoded (history db n)
          \<and> map v_version (rows_for db n) = map Version (history db n)
          \<and> history_ok n (history db n)
          \<and> map_option r_definition (tbl_select r_name n (datasets db)) =
              (if history db n = [] then None else Some (Encoded (last (history db n)))))"

text \<open>A definition that was prepared from some state the registry has gone through.\<close>

definition pending_ok :: "schema_db \<Rightarrow> dataset \<Rightarrow> bool" where
  "pending_ok db d \<longleftrightarrow> well_formed d
     \<and> (Version d = 1 \<or> (\<exists>p\<in>set (history db (Name d)). Version d = Version p + 1 \<and> extends p d))"

interpretation ds: keyed_table r_name "tbl_select r_name" "tbl_insert r_name" "tbl_ok r_name"
  by (rule keyed_table_rows)

interpretation vs: keyed_table version_key "tbl_select version_key" "tbl_insert version_key"
    "tbl_ok version_key"
  by (rule keyed_table_rows)

lemma store_okD:
  assumes "store_ok db"
  shows "map v_definition (rows_for db n) = map Encoded (history db n)"
    and "map v_version (rows_for db n) = map Version (history db n)"
    and "history_ok n (history db n)"
    and "map_option r_definition (tbl_select r_name n (datasets db)) =
              (if history db n = [] then None else Some (Encoded (last (history db n))))"
  using assms unfolding store_ok_def by auto

lemma history_versions:
  assumes "history_ok n ds"
  shows "v \<in> Version ` set ds \<longleftrightarrow> 1 \<le> v \<and> v \<le> int (length ds)"
    and "p \<in> set ds \<Longrightarrow> Version p = int (length ds) \<Longrightarrow> p = last ds"
    and "ds \<noteq> [] \<Longrightarrow> Version (last ds) = int (length ds)"
proof -
  have m: "map Version ds = map int [1..<Suc (length ds)]" using assms by (simp add: history_ok_def)
  have "Version ` set ds = int ` {1..<Suc (length ds)}"
    by (metis list.set_map m set_upt)
  also have "\<dots> = {1..<int (Suc (length ds))}" by (simp add: image_int_atLeastLessThan)
  finally show "v \<in> Version ` set ds \<longleftrightarrow> 1 \<le> v \<and> v \<le> int (length ds)" by auto
  have nth: "Version (ds ! i) = int (Suc i)" if "i < length ds" for i
  proof -
    have "map Version ds ! i = map int [1..<Suc (length ds)] ! i" by (simp only: m)
    then show ?thesis using that by (simp del: upt_Suc)
  qed
  show "p = last ds" if "p \<in> set ds" "Version p = int (length ds)"
  proof -
    from that(1) obtain i where i: "i < length ds" "ds ! i = p"
      unfolding in_set_conv_nth by blast
    then have "Suc i = length ds" using nth [OF i(1)] that(2) by simp
    then have "i = length ds - 1" "ds \<noteq> []" by auto
    then show ?thesis using i(2) by (simp add: last_conv_nth)
  qed
  show "Version (last ds) = int (length ds)" if "ds \<noteq> []"
    using nth [of "length ds - 1"] that by (simp add: last_conv_nth)
qed

lemma history_fresh_version:
  assumes "store_ok db" "pending_ok db d"
    and "version_key (version_of d) \<notin> version_key ` set (dataset_versions db)"
  shows "Version d = int (length (history db (Name d))) + 1"
    and "history db (Name d) = [] \<or> extends (last (history db (Name d))) d"
proof -
  let ?H = "history db (Name d)"
  note ok = store_okD [OF assms(1), of "Name d"]
  have "Version d \<notin> set (map v_version (rows_for db (Name d)))"
  proof
    assume "Version d \<in> set (map v_version (rows_for db (Name d)))"
    then obtain r where "r \<in> set (dataset_versions db)" "version_key r = version_key (version_of d)"
      by (auto simp: rows_for_def version_key_def version_of_def)
    then show False using assms(3) by (metis imageI)
  qed
  then have fresh: "Version d \<notin> Version ` set ?H" using ok(2) by (metis set_map)
  from assms(2) consider (first) "Version d = 1"
    | (later) p where "p \<in> set ?H" "Version d = Version p + 1" "extends p d"
    unfolding pending_ok_def by blast
  then have "Version d = int (length ?H) + 1 \<and> (?H = [] \<or> extends (last ?H) d)"
  proof cases
    case first
    then have "\<not> 1 \<le> int (length ?H)" using fresh history_versions(1) [OF ok(3), of 1] by simp
    then have "length ?H = 0" by linarith
    then show ?thesis using first by simp
  next
    case later
    then have "1 \<le> Version p \<and> Version p \<le> int (length ?H)"
      using history_versions(1) [OF ok(3), of "Version p"] by blast
    then have "Version p = int (length ?H)"
      using fresh later(2) history_versions(1) [OF ok(3), of "Version d"] by linarith
    then show ?thesis using later history_versions(2) [OF ok(3) later(1)] by simp
  qed
  then show "Version d = int (length ?H) + 1" "?H = [] \<or> extends (last ?H) d" by blast+
qed

lemma history_ok_snoc:
  assumes "history_ok n ds" and "Name d = n" "well_formed d" "Version d = int (length ds) + 1"
    and "ds = [] \<or> extends (last ds) d"
  shows "history_ok n (ds @ [d])"
  using assms by (auto simp: history_ok_def successively_append_iff)

lemma persist_error_keeps: "persist flt db d = (Some e, db') \<Longrightarrow> db' = db"
  by (auto simp: persist_def Let_def split: option.splits)

lemma persist_okD:
  assumes "persist flt db d = (None, db')"
  shows "version_key (version_of d) \<notin> version_key ` set (dataset_versions db)"
    and "db' = db\<lparr>datasets := tbl_upsert r_name upsert_row (row_of d) (datasets db),
                  dataset_versions := dataset_versions db @ [version_of d]\<rparr>"
  using assms by (auto simp: persist_def Let_def tbl_insert_def split: option.splits if_splits)

text \<open>A committed write appends one version to one history and leaves every other one alone.\<close>

lemma persist_appends:
  assumes ok: "store_ok db" and pend: "pending_ok db d" and p: "persist flt db d = (None, db')"
  shows "history db' n = (if n = Name d then history db n @ [d] else history db n)"
    and "store_ok db'"
proof -
  let ?H = "history db (Name d)"
  note db' = persist_okD(2) [OF p] and new = persist_okD(1) [OF p]
  have rows: "rows_for db' n = rows_for db n @ (if n = Name d then [version_of d] else [])" for n
    by (simp add: db' rows_for_def version_of_def)
  then show h: "history db' n = (if n = Name d then history db n @ [d] else history db n)" for n
    by (simp add: history_def version_of_def decoded_def)
  have up: "r_name (upsert_row x (row_of d)) = r_name (row_of d)" if "r_name x = r_name (row_of d)" for x
    using that by (simp add: upsert_row_def)
  have tok: "tbl_ok r_name (datasets db)" using ok by (simp add: store_ok_def)
  have sel: "map_option r_definition (tbl_select r_name n (datasets db')) =
      (if n = Name d then Some (Encoded d) else map_option r_definition (tbl_select r_name n (datasets db)))" for n
    using select_upsert [where key = r_name and upd = upsert_row and r = "row_of d" and k = n, OF tok up]
    by (auto simp: db' row_of_def upsert_row_def split: option.split)
  show "store_ok db'"
    unfolding store_ok_def
  proof (intro conjI allI)
    show "tbl_ok r_name (datasets db')"
      using ok_upsert [where key = r_name and upd = upsert_row and r = "row_of d", OF tok up] by (simp add: db')
    fix n
    note okn = store_okD [OF ok, of n]
    show "map v_definition (rows_for db' n) = map Encoded (history db' n)"
      using okn(1) by (simp add: rows h version_of_def)
    show "map v_version (rows_for db' n) = map Version (history db' n)"
      using okn(2) by (simp add: rows h version_of_def)
    show "history_ok n (history db' n)"
    proof (cases "n = Name d")
      case True
      then show ?thesis
        using okn(3) pend history_fresh_version [OF ok pend new]
        by (simp add: h history_ok_snoc pending_ok_def)
    next
      case False
      then show ?thesis using okn(3) by (simp add: h)
    qed
    show "map_option r_definition (tbl_select r_name n (datasets db')) =
        (if history db' n = [] then None else Some (Encoded (last (history db' n))))"
      using okn(4) by (simp add: sel h)
  qed
qed

lemma Get_history:
  assumes "store_ok db" and "on_query flt = None"
  shows "Get flt db n = (if history db n = []
      then Inl (New CodeNotFound (''dataset '' @ quoted n @ '' not found'')) else Inr (last (history db n)))"
  using store_okD(4) [OF assms(1), of n] assms(2)
  by (auto simp: Get_def split: option.splits if_splits)

lemma decode_rows_Encoded: "decode_rows what (map Encoded ds) out = Inr (out @ ds)"
  by (induction ds arbitrary: out) auto

lemma Versions_history:
  assumes "store_ok db" and "on_query flt = None" "on_rows flt = None"
  shows "Versions flt db n = Inr (history db n)"
proof -
  note ok = store_okD [OF assms(1), of n]
  have "sorted (map v_version (rows_for db n))"
    using ok(2,3) by (simp add: history_ok_def sorted_map del: upt_Suc)
  then have "sort_key v_version (rows_for db n) = rows_for db n" by (rule sort_key_id_if_sorted)
  then show ?thesis
    using assms(2,3) ok(1)
    by (simp add: Versions_def rows_for_def rows_result_def decode_rows_Encoded)
qed

section \<open>Preparing a write\<close>

lemma prepare_create_pending:
  "prepare_create flt now db d = Inr d' \<Longrightarrow>
   d' = d\<lparr>Version := 1, CreatedAt := now, UpdatedAt := now\<rparr> \<and> pending_ok db d'"
  using Validate_None [of d]
  by (auto simp: prepare_create_def pending_ok_def well_formed_def column_names_def
      split: option.splits sum.splits)

lemma Get_in_history:
  "store_ok db \<Longrightarrow> Get flt db n = Inr d \<Longrightarrow> history db n \<noteq> [] \<and> d = last (history db n)"
  using Get_history [of db flt n] by (cases "on_query flt") (auto simp: Get_def split: if_splits)

lemma history_columns_grow:
  assumes "store_ok db" "d \<in> set (history db n)"
  shows "prefix (Columns d) (Columns (last (history db n)))"
proof -
  have "transp extends" by (auto simp: transp_def extends_def intro: prefix_order.order_trans)
  then have "sorted_wrt extends (history db n)"
    using store_okD(3) [OF assms(1), of n] by (simp add: history_ok_def successively_conv_sorted_wrt)
  then show ?thesis
    using assms(2) by (cases "history db n" rule: rev_cases) (auto simp: sorted_wrt_append extends_def)
qed

lemma prepare_columns_pending:
  assumes ok: "store_ok db" and p: "prepare_columns flt now db n cs = Inr d'"
  shows "\<exists>cur. Get flt db n = Inr cur \<and> pending_ok db d' \<and>
    d' = cur\<lparr>Columns := Columns cur @ cs, Version := Version cur + 1, UpdatedAt := now\<rparr>"
proof -
  obtain cur where g: "Get flt db n = Inr cur"
    and d': "d' = cur\<lparr>Columns := Columns cur @ cs, Version := Version cur + 1, UpdatedAt := now\<rparr>"
    and v: "Validate d' = None"
    using p by (auto simp: prepare_columns_def Let_def split: sum.splits option.splits)
  from Get_in_history [OF ok g] have h: "history db n \<noteq> []" "cur = last (history db n)" by auto
  then have mem: "cur \<in> set (history db n)" by simp
  then have "Name cur = n" using store_okD(3) [OF ok, of n] by (auto simp: history_ok_def)
  then have "pending_ok db d'"
    using v mem unfolding pending_ok_def Validate_None [symmetric]
    by (auto simp: d' extends_def)
  then show ?thesis using g d' by blast
qed

text \<open>The compatibility check in \<open>AddColumns\<close> never refuses: the columns it is given were appended.\<close>

lemma AddColumns_check_redundant:
  assumes "store_ok db" "Get flt db n = Inr cur"
  shows "CheckBackwardCompatible cur
    (cur\<lparr>Columns := Columns cur @ cs, Version := v, UpdatedAt := now\<rparr>) = None"
proof -
  have "cur \<in> set (history db n)" using Get_in_history [OF assms] by simp
  then have "well_formed cur" using store_okD(3) [OF assms(1), of n] by (auto simp: history_ok_def)
  then show ?thesis by (intro append_compatible) (simp_all add: well_formed_def)
qed

lemma finish_cases:
  assumes "finish flt db prepared = (r, db')"
  obtains (refused) e where "r = Inl e" "db' = db"
    | (written) d where "r = Inr d" "prepared = Inr d" "persist flt db d = (None, db')"
  using assms persist_error_keeps [of flt db]
  by (auto simp: finish_def split: sum.splits prod.splits option.splits)

lemma finish_grows:
  assumes "store_ok db" and "\<And>d. prepared = Inr d \<Longrightarrow> pending_ok db d" and "finish flt db prepared = (r, db')"
  shows "store_ok db' \<and> prefix (history db n) (history db' n)"
proof (cases rule: finish_cases [OF assms(3)])
  case (1 e)
  then show ?thesis using assms(1) by simp
next
  case (2 d)
  then show ?thesis
    using persist_appends [OF assms(1) assms(2) [OF 2(2)] 2(3)] by auto
qed

lemma Create_grows:
  "store_ok db \<Longrightarrow> Create flt now db d = (r, db') \<Longrightarrow> store_ok db' \<and> prefix (history db n) (history db' n)"
  using prepare_create_pending [of flt now db d] unfolding Create_def by (intro finish_grows) auto

lemma AddColumns_grows:
  "store_ok db \<Longrightarrow> AddColumns flt now db m cs = (r, db') \<Longrightarrow> store_ok db' \<and> prefix (history db n) (history db' n)"
  using prepare_columns_pending [of db flt now m cs] unfolding AddColumns_def by (intro finish_grows) auto

section \<open>Concurrent requests\<close>

text \<open>Any number of requests are under way: each has prepared a definition from some state of the
  database and will write it at some later one, or never. \<open>pending\<close> holds what they prepared.\<close>

type_synonym registry = "schema_db \<times> dataset list"

definition empty_db :: schema_db where
  "empty_db = \<lparr>datasets = [], dataset_versions = []\<rparr>"

inductive store_step :: "registry \<Rightarrow> registry \<Rightarrow> bool" where
  create: "prepare_create flt now db d = Inr d' \<Longrightarrow> store_step (db, pending) (db, d' # pending)"
| add_columns: "prepare_columns flt now db n cs = Inr d' \<Longrightarrow> store_step (db, pending) (db, d' # pending)"
| commit: "d \<in> set pending \<Longrightarrow> persist flt db d = (r, db') \<Longrightarrow>
     store_step (db, pending) (db', remove1 d pending)"

inductive reachable :: "registry \<Rightarrow> bool" where
  initial: "reachable (empty_db, [])"
| step: "reachable s \<Longrightarrow> store_step s s' \<Longrightarrow> reachable s'"

inductive_cases store_stepE: "store_step (db, pending) s'"

definition registry_ok :: "registry \<Rightarrow> bool" where
  "registry_ok s \<longleftrightarrow> store_ok (fst s) \<and> (\<forall>d\<in>set (snd s). pending_ok (fst s) d)"

lemma store_ok_empty: "store_ok empty_db"
  by (simp add: store_ok_def empty_db_def tbl_ok_def rows_for_def history_def history_ok_def tbl_select_def)

lemma pending_ok_grows:
  assumes "pending_ok db d" and "\<And>n. set (history db n) \<subseteq> set (history db' n)"
  shows "pending_ok db' d"
  using assms unfolding pending_ok_def by blast

lemma store_step_ok: "registry_ok s \<Longrightarrow> store_step s s' \<Longrightarrow> registry_ok s'"
proof -
  assume ok: "registry_ok s" and st: "store_step s s'"
  obtain db pending where s: "s = (db, pending)" by (cases s)
  have sok: "store_ok db" and pok: "pending_ok db d" if "d \<in> set pending" for d
    using ok that by (auto simp: registry_ok_def s)
  have sok: "store_ok db" using ok by (simp add: registry_ok_def s)
  from st [unfolded s] consider
      (create) flt now d d' where "s' = (db, d' # pending)" "prepare_create flt now db d = Inr d'"
    | (add) flt now n cs d' where "s' = (db, d' # pending)" "prepare_columns flt now db n cs = Inr d'"
    | (commits) d flt r db' where "s' = (db', remove1 d pending)" "d \<in> set pending" "persist flt db d = (r, db')"
    by (auto elim!: store_stepE)
  then show "registry_ok s'"
  proof cases
    case create
    then show ?thesis using ok prepare_create_pending [OF create(2)] by (auto simp: registry_ok_def s)
  next
    case add
    then show ?thesis using ok prepare_columns_pending [OF sok add(2)]
      by (auto simp: registry_ok_def s)
  next
    case commits
    show ?thesis
    proof (cases r)
      case (Some e)
      then have "db' = db" using commits(3) persist_error_keeps by blast
      then show ?thesis using commits(1) ok by (auto simp: registry_ok_def s dest: notin_set_remove1)
    next
      case None
      with commits have p: "persist flt db d = (None, db')" by simp
      have "history db' n = (if n = Name d then history db n @ [d] else history db n)" for n
        by (rule persist_appends(1) [OF sok pok [OF commits(2)] p])
      then have "set (history db n) \<subseteq> set (history db' n)" for n by auto
      then have "\<forall>d\<in>set pending. pending_ok db' d" using pok pending_ok_grows by blast
      then show ?thesis
        using commits(1) persist_appends(2) [OF sok pok [OF commits(2)] p] set_remove1_subset [of d pending]
        by (auto simp: registry_ok_def)
    qed
  qed
qed

lemma reachable_ok: "reachable s \<Longrightarrow> registry_ok s"
proof (induction rule: reachable.induct)
  case initial
  then show ?case by (simp add: registry_ok_def store_ok_empty)
next
  case (step s s')
  then show ?case using store_step_ok by blast
qed

section \<open>Properties of the registry\<close>


lemma sample_create:
  "prepare_create (no_faults v) 5 empty_db sample_dataset = Inr (sample_dataset\<lparr>CreatedAt := 5, UpdatedAt := 5\<rparr>)"
  using well_formed_sample
  by (simp add: prepare_create_def Validate_None [symmetric] Get_def no_faults_def empty_db_def
      tbl_select_def sample_dataset_def)

definition sample_registry :: schema_db where
  "sample_registry = snd (Create (no_faults (Plain ''UNIQUE'')) 5 empty_db sample_dataset)"

lemma reachable_sample: "reachable (sample_registry, [])"
proof -
  let ?d = "sample_dataset\<lparr>CreatedAt := 5, UpdatedAt := 5\<rparr>" and ?f = "no_faults (Plain ''UNIQUE'')"
  have "reachable (empty_db, [?d])"
    by (rule reachable.step [OF reachable.initial store_step.create [OF sample_create]])
  moreover have "persist ?f empty_db ?d = (None, sample_registry)"
    unfolding sample_registry_def Create_def sample_create
    by (simp add: finish_def persist_def no_faults_def empty_db_def tbl_insert_def)
  then have "store_step (empty_db, [?d]) (sample_registry, remove1 ?d [?d])"
    by (intro store_step.commit) auto
  ultimately have "reachable (sample_registry, remove1 ?d [?d])" by (rule reachable.step)
  then show ?thesis by simp
qed


text \<open>C19: no lost update and no half write. When a request writes what it prepared, at whatever point,
  either it reports an error and the database is unchanged, or exactly one version is appended to
  the history of that dataset and no other one changes. A version number that is already taken
  makes the write fail, so of two requests that prepared the same next version one loses.\<close>

theorem write_appends_or_fails:
  assumes "reachable (db, pending)" and "d \<in> set pending" and "persist flt db d = (r, db')"
  shows "(\<forall>e. r = Some e \<longrightarrow> db' = db)
    \<and> (r = None \<longrightarrow> (\<forall>n. Versions (no_faults v) db' n =
          map_sum id (\<lambda>ds. if n = Name d then ds @ [d] else ds) (Versions (no_faults v) db n)))
    \<and> ((\<exists>ds. Versions (no_faults v) db (Name d) = Inr ds \<and> Version d \<in> Version ` set ds) \<longrightarrow> r \<noteq> None)"
proof -
  have ok: "store_ok db" and pend: "pending_ok db d"
    using reachable_ok [OF assms(1)] assms(2) by (auto simp: registry_ok_def)
  have vs: "Versions (no_faults v) db0 n = Inr (history db0 n)" if "store_ok db0" for db0 n
    by (rule Versions_history [OF that]) (simp_all add: no_faults_def)
  have fail: "r = Some e \<Longrightarrow> db' = db" for e
    using assms(3) persist_error_keeps by blast
  have appended: "Versions (no_faults v) db' n =
        map_sum id (\<lambda>ds. if n = Name d then ds @ [d] else ds) (Versions (no_faults v) db n)"
    if "r = None" for n
  proof -
    have p: "persist flt db d = (None, db')" using assms(3) that by simp
    show ?thesis
      using persist_appends [OF ok pend p] vs [OF ok, of n] vs [of db' n] by simp
  qed
  have "Version d \<notin> Version ` set (history db (Name d))" if "r = None"
  proof -
    have p: "persist flt db d = (None, db')" using assms(3) that by simp
    have "Version d = int (length (history db (Name d))) + 1"
      by (rule history_fresh_version [OF ok pend persist_okD(1) [OF p]])
    then show ?thesis
      using history_versions(1) [OF store_okD(3) [OF ok], of "Version d" "Name d"] by simp
  qed
  then have "(\<exists>ds. Versions (no_faults v) db (Name d) = Inr ds \<and> Version d \<in> Version ` set ds) \<longrightarrow> r \<noteq> None"
    unfolding vs [OF ok] by blast
  with fail appended show ?thesis by blast
qed

lemma write_appends_or_fails_witness:
  "\<exists>r db'. persist (no_faults (Plain [])) empty_db (sample_dataset\<lparr>CreatedAt := 5, UpdatedAt := 5\<rparr>) = (r, db')
     \<and> (\<forall>e. r = Some e \<longrightarrow> db' = empty_db)
     \<and> (r = None \<longrightarrow> (\<forall>n. Versions (no_faults (Plain [])) db' n =
          map_sum id (\<lambda>ds. if n = ''events'' then ds @ [sample_dataset\<lparr>CreatedAt := 5, UpdatedAt := 5\<rparr>] else ds)
            (Versions (no_faults (Plain [])) empty_db n)))"
proof -
  let ?d = "sample_dataset\<lparr>CreatedAt := 5, UpdatedAt := 5\<rparr>" and ?f = "no_faults (Plain [])"
  have r: "reachable (empty_db, [?d])"
    by (rule reachable.step [OF reachable.initial store_step.create [OF sample_create]])
  obtain r' db' where p: "persist ?f empty_db ?d = (r', db')" by (cases "persist ?f empty_db ?d")
  have "Name ?d = ''events''" by (simp add: sample_dataset_def)
  have "?d \<in> set [?d]" by simp
  note w = write_appends_or_fails [OF r this p, of "Plain []", unfolded \<open>Name ?d = ''events''\<close>]
  show ?thesis
    by (intro exI conjI, rule p) (rule w [THEN conjunct1], rule w [THEN conjunct2, THEN conjunct1])
qed

section \<open>Single requests\<close>

lemma persist_fresh:
  assumes "store_ok db" and "Version d \<notin> Version ` set (history db (Name d))"
  shows "\<exists>db'. persist (no_faults v) db d = (None, db')"
proof -
  have "Version d \<notin> set (map v_version (rows_for db (Name d)))"
    using store_okD(2) [OF assms(1), of "Name d"] assms(2) by simp
  then have "version_key (version_of d) \<notin> version_key ` set (dataset_versions db)"
    by (auto simp: rows_for_def version_key_def version_of_def)
  then show ?thesis by (simp add: persist_def no_faults_def tbl_insert_def Let_def)
qed

lemma Create_written:
  assumes ok: "store_ok db" and prep: "prepare_create flt now db d = Inr d'"
    and p: "persist flt db d' = (None, db')"
  shows "well_formed d \<and> history db (Name d) = []
    \<and> d' = d\<lparr>Version := 1, CreatedAt := now, UpdatedAt := now\<rparr>
    \<and> Get (no_faults v) db' (Name d) = Inr d'"
proof -
  from prepare_create_pending [OF prep]
  have d': "d' = d\<lparr>Version := 1, CreatedAt := now, UpdatedAt := now\<rparr>" and pend: "pending_ok db d'" by auto
  have "Version d' = int (length (history db (Name d'))) + 1"
    by (rule history_fresh_version [OF ok pend persist_okD(1) [OF p]])
  then have h: "history db (Name d) = []" by (simp add: d')
  have wf: "well_formed d" using prep Validate_None [of d]
    by (auto simp: prepare_create_def split: option.splits)
  note ap = persist_appends [OF ok pend p]
  have "Get (no_faults v) db' (Name d) = Inr d'"
    using Get_history [OF ap(2), of "no_faults v" "Name d"] ap(1) [of "Name d"]
    by (simp add: no_faults_def d')
  then show ?thesis using d' h wf by simp
qed

lemma Create_new:
  assumes ok: "store_ok db" and "well_formed d" "history db (Name d) = []"
  shows "\<exists>d' db'. Create (no_faults v) now db d = (Inr d', db') \<and> Get (no_faults v) db' (Name d) = Inr d'"
proof -
  let ?d = "d\<lparr>Version := 1, CreatedAt := now, UpdatedAt := now\<rparr>"
  have "Validate d = None" using assms(2) by (simp add: Validate_None)
  then have prep: "prepare_create (no_faults v) now db d = Inr ?d"
    using assms(3) Get_history [OF ok, of "no_faults v" "Name d"]
    by (simp add: prepare_create_def no_faults_def)
  obtain db2 where "persist (no_faults v) db ?d = (None, db2)"
    using persist_fresh [OF ok, of ?d v] assms(3) by auto
  then show ?thesis
    using Create_written [OF ok prep, of db2 v] prep by (simp add: Create_def finish_def)
qed

lemma Create_refused:
  assumes ok: "store_ok db" and c: "Create (no_faults v) now db d = (Inl e, db')"
  shows "if well_formed d then history db (Name d) \<noteq> [] \<and> IsAlreadyExists e else IsInvalidArgument e"
proof (cases "Validate d")
  case (Some e')
  then show ?thesis using c Validate_error [OF Some] Validate_None [of d]
    by (auto simp: Create_def prepare_create_def finish_def)
next
  case None
  then have wf: "well_formed d" by (simp add: Validate_None)
  then have "history db (Name d) \<noteq> []" using Create_new [OF ok wf, of v now] c by auto
  then show ?thesis
    using c None wf Get_history [OF ok, of "no_faults v" "Name d"]
    by (auto simp: Create_def prepare_create_def finish_def no_faults_def IsAlreadyExists_def)
qed

lemma Create_cases:
  assumes ok: "store_ok db" and c: "Create flt now db d = (r, db')"
  obtains (refused) e where "r = Inl e" "db' = db"
    | (written) d' where "r = Inr d'" "well_formed d" "history db (Name d) = []"
        "d' = d\<lparr>Version := 1, CreatedAt := now, UpdatedAt := now\<rparr>"
        "\<And>v. Get (no_faults v) db' (Name d) = Inr d'"
proof (cases rule: finish_cases [OF c [unfolded Create_def]])
  case (1 e)
  then show ?thesis by (rule refused)
next
  case (2 d')
  show ?thesis using Create_written [OF ok 2(2,3)] by (intro written [OF 2(1)]) auto
qed

text \<open>\<open>Create\<close> never replaces a dataset. Whatever statement fails, the result is either an error
  with the database unchanged, or the well-formed definition as version 1 of a name that had no
  version, which is then what \<open>Get\<close> returns. An existing dataset is safe even when the lookup fails
  and the code goes on to write. Without faults it succeeds exactly for a well-formed definition
  under a new name, and otherwise reports an invalid argument or a dataset that already exists.\<close>

theorem Create_never_replaces:
  assumes ok: "store_ok db" and c: "Create flt now db d = (r, db')"
  shows "(\<forall>e. r = Inl e \<longrightarrow> db' = db)
    \<and> (\<forall>d'. r = Inr d' \<longrightarrow> well_formed d \<and> history db (Name d) = []
        \<and> d' = d\<lparr>Version := 1, CreatedAt := now, UpdatedAt := now\<rparr>
        \<and> Get (no_faults v) db' (Name d) = Inr d')
    \<and> (flt = no_faults v \<longrightarrow> (case r of
          Inr _ \<Rightarrow> True
        | Inl e \<Rightarrow> if well_formed d then history db (Name d) \<noteq> [] \<and> IsAlreadyExists e
                  else IsInvalidArgument e))"
proof (cases rule: Create_cases [OF ok c])
  case (1 e)
  then show ?thesis using Create_refused [OF ok, of v now d e db'] c by auto
next
  case (2 d')
  then show ?thesis by simp
qed

lemma Create_never_replaces_witness:
  "\<exists>r db'. Create (no_faults (Plain [])) 9 sample_registry sample_dataset = (r, db')
     \<and> (\<forall>e. r = Inl e \<longrightarrow> db' = sample_registry)"
proof -
  have ok: "store_ok sample_registry"
    using reachable_ok [OF reachable_sample] by (simp add: registry_ok_def)
  obtain r db' where c: "Create (no_faults (Plain [])) 9 sample_registry sample_dataset = (r, db')"
    by (cases "Create (no_faults (Plain [])) 9 sample_registry sample_dataset")
  from Create_never_replaces [OF ok c, THEN conjunct1] c show ?thesis by blast
qed

lemma AddColumns_no_faults:
  assumes ok: "store_ok db" and c: "AddColumns flt now db n cs = (r, db')" and f: "flt = no_faults v"
  shows "case Get flt db n of
           Inl e \<Rightarrow> r = Inl e \<and> IsNotFound e
         | Inr cur \<Rightarrow>
             let d' = cur\<lparr>Columns := Columns cur @ cs, Version := Version cur + 1, UpdatedAt := now\<rparr> in
             if well_formed d' then r = Inr d' \<and> Get flt db' n = Inr d'
             else (\<exists>e. r = Inl e \<and> IsInvalidArgument e)"
proof -
  note get = Get_history [OF ok, of flt n]
  show ?thesis
  proof (cases "Get flt db n")
    case (Inl e)
    then have "IsNotFound e" using get f by (auto simp: no_faults_def IsNotFound_def split: if_splits)
    moreover have "r = Inl e" using Inl c by (simp add: AddColumns_def prepare_columns_def finish_def)
    ultimately show ?thesis using Inl by simp
  next
    case (Inr cur)
    let ?d = "cur\<lparr>Columns := Columns cur @ cs, Version := Version cur + 1, UpdatedAt := now\<rparr>"
    note compat = AddColumns_check_redundant
      [OF ok Inr, where cs = cs and v = "Version cur + 1" and now = now]
    show ?thesis
    proof (cases "well_formed ?d")
      case False
      then obtain e where "Validate ?d = Some e" using Validate_None [of ?d] by auto
      moreover from this have "IsInvalidArgument e" by (rule Validate_error)
      ultimately show ?thesis
        using c Inr False by (auto simp: AddColumns_def prepare_columns_def finish_def Let_def)
    next
      case True
      then have "Validate ?d = None" by (simp add: Validate_None)
      then have prep: "prepare_columns flt now db n cs = Inr ?d"
        using Inr compat by (simp add: prepare_columns_def Let_def)
      obtain cur' where "Get flt db n = Inr cur'" and pend: "pending_ok db ?d"
        using prepare_columns_pending [OF ok prep] by blast
      have h: "history db n \<noteq> []" "cur = last (history db n)" using Get_in_history [OF ok Inr] by auto
      have nm: "Name cur = n" and v: "Version cur = int (length (history db n))"
        using store_okD(3) [OF ok, of n] h history_versions(3) [OF store_okD(3) [OF ok], of n]
        by (auto simp: history_ok_def)
      have "Version ?d \<notin> Version ` set (history db (Name ?d))"
        using history_versions(1) [OF store_okD(3) [OF ok], of "Version ?d" n] by (simp add: nm v)
      then obtain db2 where "persist flt db ?d = (None, db2)"
        using persist_fresh [OF ok, of ?d] f by blast
      then have p: "persist flt db ?d = (None, db')" and r: "r = Inr ?d"
        using c prep by (auto simp: AddColumns_def finish_def split: prod.splits)
      have "Get flt db' n = Inr ?d"
        using Get_history [OF persist_appends(2) [OF ok pend p], of flt n]
          persist_appends(1) [OF ok pend p, of n] f nm by (simp add: no_faults_def)
      then show ?thesis using Inr True r by (simp add: Let_def)
    qed
  qed
qed

text \<open>\<open>AddColumns\<close> on one dataset. Without faults it succeeds exactly when the dataset exists and
  stays well-formed with the new columns at the end; the result is the next version, which \<open>Get\<close>
  then returns. An unknown name is reported as not found, columns that make the definition
  ill-formed as an invalid argument; the compatibility check after it refuses nothing. With any
  faults, an error leaves the database unchanged.\<close>

theorem AddColumns_next_version:
  assumes ok: "store_ok db" and c: "AddColumns flt now db n cs = (r, db')"
  shows "(\<forall>e. r = Inl e \<longrightarrow> db' = db)
    \<and> (flt = no_faults v \<longrightarrow>
        (case Get flt db n of
           Inl e \<Rightarrow> r = Inl e \<and> IsNotFound e
         | Inr cur \<Rightarrow>
             let d' = cur\<lparr>Columns := Columns cur @ cs, Version := Version cur + 1, UpdatedAt := now\<rparr> in
             if well_formed d' then r = Inr d' \<and> Get flt db' n = Inr d'
             else (\<exists>e. r = Inl e \<and> IsInvalidArgument e)))"
  using AddColumns_no_faults [OF ok c, of v] finish_cases [OF c [unfolded AddColumns_def]] by blast

lemma AddColumns_next_version_witness:
  "\<exists>r db'. AddColumns (no_faults (Plain [])) 9 sample_registry ''nope'' [] = (r, db')
     \<and> (\<exists>e. r = Inl e \<and> IsNotFound e)"
proof -
  let ?f = "no_faults (Plain [])"
  have ok: "store_ok sample_registry"
    using reachable_ok [OF reachable_sample] by (simp add: registry_ok_def)
  obtain r db' where c: "AddColumns ?f 9 sample_registry ''nope'' [] = (r, db')"
    by (cases "AddColumns ?f 9 sample_registry ''nope'' []")
  have "datasets sample_registry = [row_of (sample_dataset\<lparr>CreatedAt := 5, UpdatedAt := 5\<rparr>)]"
    unfolding sample_registry_def Create_def sample_create
    by (simp add: finish_def persist_def no_faults_def empty_db_def tbl_insert_def tbl_upsert_def)
  then have "\<exists>e. Get ?f sample_registry ''nope'' = Inl e"
    by (simp add: Get_def no_faults_def tbl_select_def row_of_def sample_dataset_def)
  then show ?thesis
    using AddColumns_next_version [OF ok c, of "Plain []", THEN conjunct2] c by auto
qed

section \<open>Auto-created datasets\<close>

lemma well_formed_inferred:
  assumes "distinct (map fst sample)" "n \<noteq> []" "sample \<noteq> []" "[] \<notin> set (map fst sample)"
  shows "well_formed (inferred oor n sample)"
proof -
  let ?c = "InferColumns oor sample"
  have names: "col_name ` set ?c = set (map fst sample)" using names_InferColumns [of oor sample] by simp
  have "?c \<noteq> []" using assms(3) names by auto
  moreover have "\<forall>c\<in>set ?c. col_name c \<noteq> []" using names assms(4) by (metis imageI)
  moreover have "inferType oor v \<noteq> []" for v by (cases v) auto
  then have "\<forall>c\<in>set ?c. col_type c \<noteq> []" by (auto simp: InferColumns_def)
  ultimately show ?thesis
    using distinct_InferColumns [OF assms(1), of oor] assms(2)
    by (auto simp: inferred_def well_formed_def empty_dataset_def column_names_def Let_def
        split: option.split dest!: find_SomeD)
qed

lemma EnsureDataset_creates:
  assumes ok: "store_ok db" and new: "history db n = []"
    and "distinct (map fst sample)" "n \<noteq> []" "sample \<noteq> []" "[] \<notin> set (map fst sample)"
  shows "\<exists>d db'. EnsureDataset oor (no_faults v) (no_faults v) now db n sample = (Inr (d, True), db')
    \<and> Get (no_faults v) db' n = Inr d"
proof -
  let ?f = "no_faults v" and ?d = "inferred oor n sample"
  have nm: "Name ?d = n" by (simp add: inferred_def Let_def empty_dataset_def split: option.split)
  obtain d' db' where c: "Create ?f now db ?d = (Inr d', db')" and g: "Get ?f db' n = Inr d'"
    using Create_new [OF ok well_formed_inferred [OF assms(3-6), of oor], of v now] new nm by auto
  have "\<exists>e. Get ?f db n = Inl e \<and> IsNotFound e"
    using Get_history [OF ok, of ?f n] new by (simp add: no_faults_def IsNotFound_def)
  then show ?thesis using c g by (auto simp: EnsureDataset_def)
qed

text \<open>Ingestion creates a dataset once. For a named record with at least one field and no empty
  field name, \<open>EnsureDataset\<close> without faults succeeds, says whether it created the dataset, and from
  then on every further call under that name, whatever its sample, returns the same definition and
  changes nothing.\<close>

theorem EnsureDataset_idempotent:
  assumes "store_ok db" and "distinct (map fst sample)" "n \<noteq> []" "sample \<noteq> []" "[] \<notin> set (map fst sample)"
  shows "\<exists>d db'. EnsureDataset oor (no_faults v) (no_faults v) now db n sample =
      (Inr (d, history db n = []), db')
    \<and> EnsureDataset oor (no_faults v) flt now' db' n sample' = (Inr (d, False), db')"
proof (cases "history db n = []")
  case True
  then show ?thesis using EnsureDataset_creates [OF assms(1) True assms(2-5), of oor v now]
    by (auto simp: EnsureDataset_def)
next
  case False
  then show ?thesis
    using Get_history [OF assms(1), of "no_faults v" n] by (simp add: EnsureDataset_def no_faults_def)
qed

lemma EnsureDataset_idempotent_witness:
  "\<exists>d db'. EnsureDataset amd64_oor (no_faults (Plain [])) (no_faults (Plain [])) 3 empty_db ''logs''
        [(''msg'', GStr ''hi'')] = (Inr (d, True), db')
    \<and> EnsureDataset amd64_oor (no_faults (Plain [])) (no_faults (Plain [])) 4 db' ''logs'' []
        = (Inr (d, False), db')"
proof -
  have "distinct (map fst [(''msg'', GStr ''hi'')])" "''logs'' \<noteq> []" "[(''msg'', GStr ''hi'')] \<noteq> []"
    "[] \<notin> set (map fst [(''msg'', GStr ''hi'')])" by auto
  note e = EnsureDataset_idempotent [OF store_ok_empty this]
  have "history empty_db ''logs'' = []" by (simp add: history_def rows_for_def empty_db_def)
  then show ?thesis
    using e [of amd64_oor "Plain []" 3 "no_faults (Plain [])" 4 "[]"] by simp
qed

end
