(* ===== verification/SchemaHttp.thy ===== *)
theory SchemaHttp
  imports SchemaStore Ddl GoIo
begin

text \<open>
  \<open>engine/schemamgr/http.go\<close>: the dataset handlers. A handler gives the response it writes, the
  database after it, and the DDL statements it ran, in order. What the JSON decoder makes of the
  request body is an argument, as is the \<open>DDLExecutor\<close> behind the interface (\<open>None\<close>: none is wired
  in), which is given by the error it reports for a statement.
\<close>

datatype schema_body =
    ErrorBody string
  | DatasetBody dataset
  | DatasetsBody "dataset list"

record schema_response =
  status :: nat
  body :: schema_body

record create_request =
  cr_Name :: string
  cr_Columns :: "column list"
  cr_OrderBy :: "string list"
  cr_PartitionByColumn :: string
  cr_TTLDays :: int

record add_columns_request =
  ac_Columns :: "column list"

type_synonym ddl_executor = "(string \<Rightarrow> goerr option) option"

definition writeJSON :: "nat \<Rightarrow> schema_body \<Rightarrow> schema_response" where
  "writeJSON st v = \<lparr>status = st, body = v\<rparr>"

definition writeError :: "nat \<Rightarrow> string \<Rightarrow> schema_response" where
  "writeError st message = writeJSON st (ErrorBody message)"

definition writeStoreError :: "goerr \<Rightarrow> schema_response" where
  "writeStoreError err =
     writeError
       (if IsNotFound err then StatusNotFound
        else if IsAlreadyExists err then StatusConflict
        else if IsInvalidArgument err then StatusBadRequest
        else StatusInternalServerError)
       (Error err)"

text \<open>\<open>h.ddl.Exec\<close> when there is an executor: the statements run and its error.\<close>

definition run_ddl :: "ddl_executor \<Rightarrow> string \<Rightarrow> string list \<times> goerr option" where
  "run_ddl ddl stmt = (case ddl of None \<Rightarrow> ([], None) | Some exec \<Rightarrow> ([stmt], exec stmt))"

definition create_handler ::
  "ddl_executor \<Rightarrow> sql_faults \<Rightarrow> time \<Rightarrow> schema_db \<Rightarrow> create_request result
   \<Rightarrow> schema_response \<times> schema_db \<times> string list" where
  "create_handler ddl flt now db decoded_body =
     (case decoded_body of
        Inl err \<Rightarrow> (writeError StatusBadRequest (''invalid JSON body: '' @ Error err), db, [])
      | Inr req \<Rightarrow>
          (case Create flt now db
              \<lparr>Name = cr_Name req, Columns = cr_Columns req, OrderBy = cr_OrderBy req,
               PartitionByColumn = cr_PartitionByColumn req, TTLDays = cr_TTLDays req,
               Version = 0, CreatedAt = 0, UpdatedAt = 0\<rparr> of
             (Inl err, db') \<Rightarrow> (writeStoreError err, db', [])
           | (Inr created, db') \<Rightarrow>
               (case run_ddl ddl (GenerateDDL created) of
                  (stmts, Some err) \<Rightarrow>
                    (writeError StatusInternalServerError
                       (''dataset metadata created but ClickHouse table creation failed: '' @ Error err),
                     db', stmts)
                | (stmts, None) \<Rightarrow> (writeJSON StatusCreated (DatasetBody created), db', stmts))))"

definition list_handler :: "sql_faults \<Rightarrow> schema_db \<Rightarrow> schema_response" where
  "list_handler flt db =
     (case List flt db of
        Inl err \<Rightarrow> writeStoreError err
      | Inr ds \<Rightarrow> writeJSON StatusOK (DatasetsBody ds))"

definition get_handler :: "sql_faults \<Rightarrow> schema_db \<Rightarrow> string \<Rightarrow> schema_response" where
  "get_handler flt db name =
     (case Get flt db name of
        Inl err \<Rightarrow> writeStoreError err
      | Inr d \<Rightarrow> writeJSON StatusOK (DatasetBody d))"

definition versions_handler :: "sql_faults \<Rightarrow> schema_db \<Rightarrow> string \<Rightarrow> schema_response" where
  "versions_handler flt db name =
     (case Versions flt db name of
        Inl err \<Rightarrow> writeStoreError err
      | Inr ds \<Rightarrow> writeJSON StatusOK (DatasetsBody ds))"

definition addColumns_handler ::
  "ddl_executor \<Rightarrow> sql_faults \<Rightarrow> time \<Rightarrow> schema_db \<Rightarrow> string \<Rightarrow> add_columns_request result
   \<Rightarrow> schema_response \<times> schema_db \<times> string list" where
  "addColumns_handler ddl flt now db name decoded_body =
     (case decoded_body of
        Inl err \<Rightarrow> (writeError StatusBadRequest (''invalid JSON body: '' @ Error err), db, [])
      | Inr req \<Rightarrow>
          (case AddColumns flt now db name (ac_Columns req) of
             (Inl err, db') \<Rightarrow> (writeStoreError err, db', [])
           | (Inr d, db') \<Rightarrow>
               (case run_ddl ddl (GenerateAlterDDL name (ac_Columns req)) of
                  (stmts, Some err) \<Rightarrow>
                    (writeError StatusInternalServerError
                       (''dataset metadata evolved but ClickHouse ALTER TABLE failed: '' @ Error err),
                     db', stmts)
                | (stmts, None) \<Rightarrow> (writeJSON StatusOK (DatasetBody d), db', stmts))))"

section \<open>Properties\<close>

definition requested :: "create_request \<Rightarrow> dataset" where
  "requested req = \<lparr>Name = cr_Name req, Columns = cr_Columns req, OrderBy = cr_OrderBy req,
     PartitionByColumn = cr_PartitionByColumn req, TTLDays = cr_TTLDays req,
     Version = 0, CreatedAt = 0, UpdatedAt = 0\<rparr>"

lemma writeStoreError_status:
  "IsInvalidArgument e \<Longrightarrow> status (writeStoreError e) = StatusBadRequest"
  "IsAlreadyExists e \<Longrightarrow> status (writeStoreError e) = StatusConflict"
  "IsNotFound e \<Longrightarrow> status (writeStoreError e) = StatusNotFound"
  by (simp_all add: writeStoreError_def writeError_def writeJSON_def err_class Is_def)

lemma writeStoreError_failure: "status (writeStoreError e) \<in> {400, 404, 409, 500}"
  by (simp add: writeStoreError_def writeError_def writeJSON_def status_defs)

text \<open>What creating a dataset over HTTP does. With a database that answers, a body that does not
  decode or a definition that is not well-formed is a 400, a name that is taken a 409, and nothing
  is stored or run; otherwise the definition is stored as version 1 and exactly one statement runs,
  the CREATE statement of the stored definition, and the answer is 201 with that definition if the
  statement succeeds and 500 if it does not.\<close>

theorem create_handler_outcome:
  assumes ok: "store_ok db"
    and run: "create_handler (Some exec) (no_faults v) now db decoded_req = (resp, db', stmts)"
  shows "case decoded_req of
      Inl _ \<Rightarrow> status resp = StatusBadRequest \<and> db' = db \<and> stmts = []
    | Inr req \<Rightarrow>
        if \<not> well_formed (requested req) then status resp = StatusBadRequest \<and> db' = db \<and> stmts = []
        else if history db (cr_Name req) \<noteq> [] then status resp = StatusConflict \<and> db' = db \<and> stmts = []
        else (\<exists>d. d = requested req\<lparr>Version := 1, CreatedAt := now, UpdatedAt := now\<rparr>
               \<and> Get (no_faults v) db' (cr_Name req) = Inr d \<and> stmts = [GenerateDDL d]
               \<and> (if exec (GenerateDDL d) = None then resp = \<lparr>status = StatusCreated, body = DatasetBody d\<rparr>
                  else status resp = StatusInternalServerError))"
proof (cases decoded_req)
  case (Inl e)
  then show ?thesis using run by (auto simp: create_handler_def writeError_def writeJSON_def)
next
  case (Inr req)
  obtain r db2 where c: "Create (no_faults v) now db (requested req) = (r, db2)"
    by (cases "Create (no_faults v) now db (requested req)")
  have nm: "Name (requested req) = cr_Name req" by (simp add: requested_def)
  show ?thesis
  proof (cases rule: Create_cases [OF ok c])
    case (1 e)
    have "db' = db" "stmts = []" "resp = writeStoreError e"
      using run Inr c 1 by (auto simp: create_handler_def requested_def)
    then show ?thesis
      using Create_refused [OF ok, of v now "requested req" e db2] c 1(1) Inr nm
        writeStoreError_status [of e]
      by (auto split: if_splits)
  next
    case (2 d)
    have "db' = db2" "stmts = [GenerateDDL d]"
      "resp = (case exec (GenerateDDL d) of None \<Rightarrow> writeJSON StatusCreated (DatasetBody d)
        | Some e \<Rightarrow> writeError StatusInternalServerError
             (''dataset metadata created but ClickHouse table creation failed: '' @ Error e))"
      using run Inr c 2(1) by (auto simp: create_handler_def requested_def run_ddl_def split: option.splits)
    moreover have "Get (no_faults v) db2 (cr_Name req) = Inr d" using 2(5) [of v] nm by simp
    ultimately show ?thesis
      using 2(2,3,4) Inr nm by (auto simp: writeJSON_def writeError_def split: option.splits)
  qed
qed

definition sample_request :: create_request where
  "sample_request = \<lparr>cr_Name = ''events'', cr_Columns = Columns sample_dataset,
     cr_OrderBy = [''at''], cr_PartitionByColumn = ''at'', cr_TTLDays = 30\<rparr>"

lemma well_formed_sample_request: "well_formed (requested sample_request)"
  using well_formed_sample
  by (simp add: well_formed_def requested_def sample_request_def sample_dataset_def column_names_def)

lemma history_empty [simp]: "history empty_db n = []"
  by (simp add: history_def rows_for_def empty_db_def)

lemma create_handler_outcome_witness:
  "\<exists>resp db' stmts. create_handler (Some (\<lambda>_. None)) (no_faults (Plain [])) 5 empty_db (Inr sample_request)
      = (resp, db', stmts) \<and> status resp = StatusCreated \<and> length stmts = 1"
proof -
  obtain resp db' stmts where r: "create_handler (Some (\<lambda>_. None)) (no_faults (Plain [])) 5 empty_db
      (Inr sample_request) = (resp, db', stmts)"
    by (cases "create_handler (Some (\<lambda>_. None)) (no_faults (Plain [])) 5 empty_db (Inr sample_request)")
  from create_handler_outcome [OF store_ok_empty r] well_formed_sample_request r
  show ?thesis by auto
qed

lemma create_handler_created:
  assumes ok: "store_ok db" and run: "create_handler ddl flt now db (Inr req) = (resp, db', stmts)"
    and "stmts \<noteq> []"
  shows "history db (cr_Name req) = [] \<and> (\<exists>d. Create flt now db (requested req) = (Inr d, db')
    \<and> d = requested req\<lparr>Version := 1, CreatedAt := now, UpdatedAt := now\<rparr>)
    \<and> store_ok db' \<and> history db' (cr_Name req) \<noteq> []"
proof -
  obtain r db2 where c: "Create flt now db (requested req) = (r, db2)"
    by (cases "Create flt now db (requested req)")
  have nm: "Name (requested req) = cr_Name req" by (simp add: requested_def)
  show ?thesis
  proof (cases rule: Create_cases [OF ok c])
    case (1 e)
    then show ?thesis using run c assms(3) by (auto simp: create_handler_def requested_def)
  next
    case (2 d)
    have db2: "db2 = db'"
      using run c 2(1) by (auto simp: create_handler_def requested_def split: prod.splits option.splits)
    have ok': "store_ok db'" using Create_grows [OF ok c] by (simp add: db2)
    have "history db' (cr_Name req) \<noteq> []"
      using Get_in_history [OF ok' 2(5) [unfolded db2]] nm by simp
    then show ?thesis using 2 c ok' nm by (simp add: db2)
  qed
qed



text \<open>The same of columns. Once the ALTER statement of a request has run and failed, the columns are
  registered, and whatever happens to the registry afterwards, no later request that adds one of them,
  whatever the executor and the faults are then, runs any statement, changes anything or answers 200.\<close>

theorem failed_column_addition_is_final:
  assumes ok: "store_ok db"
    and first: "addColumns_handler (Some exec) flt now db n (Inr req) = (resp, db', stmts)" "stmts \<noteq> []"
      "exec (hd stmts) = Some e"
    and later: "store_ok db2" "prefix (history db' n) (history db2 n)"
    and retry: "addColumns_handler ddl flt' now' db2 n (Inr req') = (resp', db3, stmts')"
      "c \<in> set (ac_Columns req)" "c' \<in> set (ac_Columns req')" "col_name c' = col_name c"
  shows "status resp = StatusInternalServerError \<and> (\<exists>d. d \<in> set (history db2 n) \<and> c \<in> set (Columns d))
    \<and> stmts' = [] \<and> db3 = db2 \<and> status resp' \<noteq> StatusOK"
proof -
  obtain r1 db1 where a: "AddColumns flt now db n (ac_Columns req) = (r1, db1)" by fastforce
  have "\<exists>d. r1 = Inr d" using first(1,2) a by (cases r1) (simp_all add: addColumns_handler_def)
  then obtain d where d: "AddColumns flt now db n (ac_Columns req) = (Inr d, db1)" using a by blast
  with first have 500: "status resp = StatusInternalServerError" and [simp]: "db1 = db'"
    by (auto simp: addColumns_handler_def run_ddl_def writeError_def writeJSON_def split: option.splits)
  have w: "prepare_columns flt now db n (ac_Columns req) = Inr d" "persist flt db d = (None, db')"
    using d by (auto simp: AddColumns_def elim!: finish_cases)
  obtain cur where cur: "Get flt db n = Inr cur" "pending_ok db d"
    "d = cur\<lparr>Columns := Columns cur @ ac_Columns req, Version := Version cur + 1, UpdatedAt := now\<rparr>"
    using prepare_columns_pending [OF ok w(1)] by blast
  have "cur \<in> set (history db n)" using Get_in_history [OF ok cur(1)] by simp
  then have p: "Name d = n" "c \<in> set (Columns d)"
    using store_okD(3) [OF ok, of n] cur(3) retry(2) by (simp_all add: history_ok_def)
  have "d \<in> set (history db' n)" using persist_appends(1) [OF ok cur(2) w(2)] p(1) by simp
  then have h: "d \<in> set (history db2 n)" using later(2) set_mono_prefix by blast
  then have in_last: "c \<in> set (Columns (last (history db2 n)))"
    using history_columns_grow [OF later(1)] p(2) set_mono_prefix by blast
  obtain r db4 where c: "AddColumns flt' now' db2 n (ac_Columns req') = (r, db4)"
    by (cases "AddColumns flt' now' db2 n (ac_Columns req')")
  have "db4 = db2 \<and> (\<exists>e. r = Inl e)"
  proof (cases rule: finish_cases [OF c [unfolded AddColumns_def]])
    case (2 x)
    from prepare_columns_pending [OF later(1) 2(2)] obtain z where
      z: "Get flt' db2 n = Inr z" "pending_ok db2 x" "Columns x = Columns z @ ac_Columns req'" by auto
    then have "z = last (history db2 n)" using Get_in_history [OF later(1)] by blast
    then have "\<not> distinct (map col_name (Columns x))"
      using z(3) in_last retry(3,4) by (force simp: image_iff)
    then show ?thesis using z(2) by (simp add: pending_ok_def well_formed_def)
  qed simp
  then obtain e' where "resp' = writeStoreError e'" "db3 = db2" "stmts' = []"
    using retry(1) c by (auto simp: addColumns_handler_def)
  then show ?thesis using 500 h p(2) writeStoreError_failure [of e'] by (auto simp: StatusOK_def)
qed

definition sample_addition :: add_columns_request where
  "sample_addition = \<lparr>ac_Columns = [\<lparr>col_name = ''z'', col_type = ''String'', col_nullable = True\<rparr>]\<rparr>"

lemma failed_column_addition_is_final_witness:
  "\<exists>resp db' stmts resp' db''.
     addColumns_handler (Some (\<lambda>_. Some (Plain ''down''))) (no_faults (Plain [])) 7 sample_registry ''events''
       (Inr sample_addition) = (resp, db', stmts)
   \<and> addColumns_handler (Some (\<lambda>_. None)) (no_faults (Plain [])) 8 db' ''events'' (Inr sample_addition) = (resp', db'', [])
   \<and> status resp = StatusInternalServerError \<and> status resp' \<noteq> StatusOK"
proof -
  let ?f = "no_faults (Plain [])" and ?d = "sample_dataset\<lparr>CreatedAt := 5, UpdatedAt := 5\<rparr>"
  let ?col = "\<lparr>col_name = ''z'', col_type = ''String'', col_nullable = True\<rparr>"
  have ok: "store_ok sample_registry" using reachable_ok [OF reachable_sample] by (simp add: registry_ok_def)
  have "datasets sample_registry = [row_of ?d]"
    unfolding sample_registry_def Create_def sample_create
    by (simp add: finish_def persist_def no_faults_def empty_db_def tbl_insert_def tbl_upsert_def)
  then have g: "Get ?f sample_registry ''events'' = Inr ?d"
    by (simp add: Get_def no_faults_def tbl_select_def row_of_def sample_dataset_def)
  obtain r db' where c: "AddColumns ?f 7 sample_registry ''events'' (ac_Columns sample_addition) = (r, db')" by fastforce
  have "well_formed (?d\<lparr>Columns := Columns ?d @ ac_Columns sample_addition, Version := Version ?d + 1, UpdatedAt := 7\<rparr>)"
    using well_formed_sample by (auto simp: well_formed_def sample_dataset_def sample_addition_def column_names_def)
  then obtain d where "r = Inr d" using AddColumns_no_faults [OF ok c refl] by (simp add: g Let_def)
  then obtain resp stmts where r: "addColumns_handler (Some (\<lambda>_. Some (Plain ''down''))) ?f 7 sample_registry ''events''
      (Inr sample_addition) = (resp, db', stmts)" "stmts \<noteq> []"
    using c by (simp add: addColumns_handler_def run_ddl_def)
  obtain resp' db'' stmts' where r': "addColumns_handler (Some (\<lambda>_. None)) ?f 8 db' ''events'' (Inr sample_addition)
      = (resp', db'', stmts')" by (cases "addColumns_handler (Some (\<lambda>_. None)) ?f 8 db' ''events'' (Inr sample_addition)")
  have ok': "store_ok db'" using AddColumns_grows [OF ok c] by simp
  have "?col \<in> set (ac_Columns sample_addition)" by (simp add: sample_addition_def)
  from failed_column_addition_is_final [OF ok r refl ok' prefix_order.refl r' this this refl] r r' show ?thesis by auto
qed

text \<open>Adding columns over HTTP, with a database that answers and an executor that accepts every
  statement: a body that does not decode or columns that would make the definition ill-formed are a
  400, an unknown name a 404, and nothing changes; otherwise the next version is stored and returned
  with 200, and exactly the ALTER statement for the new columns runs. A request with no columns is
  not refused: it too makes a version, and the statement it runs names the table and nothing else.\<close>

theorem addColumns_handler_outcome:
  assumes ok: "store_ok db"
    and run: "addColumns_handler (Some (\<lambda>_. None)) (no_faults v) now db n decoded_req = (resp, db', stmts)"
  shows "case decoded_req of
      Inl _ \<Rightarrow> status resp = StatusBadRequest \<and> db' = db \<and> stmts = []
    | Inr req \<Rightarrow> (case Get (no_faults v) db n of
        Inl _ \<Rightarrow> status resp = StatusNotFound \<and> db' = db \<and> stmts = []
      | Inr cur \<Rightarrow>
          let d = cur\<lparr>Columns := Columns cur @ ac_Columns req, Version := Version cur + 1, UpdatedAt := now\<rparr> in
          if well_formed d
          then resp = \<lparr>status = StatusOK, body = DatasetBody d\<rparr> \<and> Get (no_faults v) db' n = Inr d
            \<and> stmts = [GenerateAlterDDL n (ac_Columns req)]
            \<and> (ac_Columns req = [] \<longrightarrow> stmts = [''ALTER TABLE '' @ quoteIdent n])
          else status resp = StatusBadRequest \<and> db' = db \<and> stmts = [])"
proof (cases decoded_req)
  case (Inl e)
  then show ?thesis using run by (auto simp: addColumns_handler_def writeError_def writeJSON_def)
next
  case (Inr req)
  obtain r db2 where c: "AddColumns (no_faults v) now db n (ac_Columns req) = (r, db2)"
    by (cases "AddColumns (no_faults v) now db n (ac_Columns req)")
  note out = AddColumns_no_faults [OF ok c refl]
  have err: "db' = db \<and> stmts = [] \<and> resp = writeStoreError e" if "r = Inl e" for e
    using run Inr c that finish_cases [OF c [unfolded AddColumns_def], of "db2 = db"]
    by (auto simp: addColumns_handler_def)
  have good: "db' = db2 \<and> resp = \<lparr>status = StatusOK, body = DatasetBody d\<rparr>
      \<and> stmts = [GenerateAlterDDL n (ac_Columns req)]" if "r = Inr d" for d
    using run Inr c that by (auto simp: addColumns_handler_def run_ddl_def writeJSON_def)
  have "GenerateAlterDDL n [] = ''ALTER TABLE '' @ quoteIdent n" by (rule GenerateAlterDDL_nothing)
  then show ?thesis
    using out err good Inr writeStoreError_status
    by (cases "Get (no_faults v) db n") (auto simp: Let_def split: if_splits)
qed

lemma addColumns_handler_outcome_witness:
  "\<exists>resp db' stmts. addColumns_handler (Some (\<lambda>_. None)) (no_faults (Plain [])) 7 empty_db ''t''
      (Inr \<lparr>ac_Columns = []\<rparr>) = (resp, db', stmts) \<and> status resp = StatusNotFound \<and> stmts = []"
proof -
  obtain resp db' stmts where r: "addColumns_handler (Some (\<lambda>_. None)) (no_faults (Plain [])) 7 empty_db
      ''t'' (Inr \<lparr>ac_Columns = []\<rparr>) = (resp, db', stmts)"
    by (cases "addColumns_handler (Some (\<lambda>_. None)) (no_faults (Plain [])) 7 empty_db ''t''
      (Inr \<lparr>ac_Columns = []\<rparr>)")
  have "\<exists>e. Get (no_faults (Plain [])) empty_db ''t'' = Inl e"
    by (simp add: Get_def no_faults_def empty_db_def tbl_select_def)
  then show ?thesis using addColumns_handler_outcome [OF store_ok_empty r] r by auto
qed

end
