(* ===== verification/AuthStore.thy ===== *)
theory AuthStore
  imports KErrors Permissions SqlTables
begin

text \<open>
  \<open>engine/auth/store.go\<close>: users and API tokens over their two SQLite tables. The password hash of
  \<open>x/crypto/bcrypt\<close> and SHA-256 are arguments, as are the random bytes a call draws. \<open>auth_faults\<close>
  says which statement the database refuses during one call.
\<close>

record user =
  Username :: string
  PasswordHash :: string
  u_Role :: role
  u_CreatedAt :: time

record api_token =
  ID :: string
  Scopes :: "string list"
  tok_Role :: role
  tok_CreatedAt :: time
  ExpiresAt :: "time option"
  Revoked :: bool

text \<open>A row of \<open>api_tokens\<close>; the scopes column holds JSON text, which may fail to decode.\<close>

record token_row =
  t_id :: string
  t_hash :: string
  t_scopes :: "string list result"
  t_role :: role
  t_created_at :: time
  t_expires_at :: "time option"
  t_revoked :: bool

record auth_db =
  users :: "user list"
  api_tokens :: "token_row list"

record crypto =
  GenerateFromPassword :: "string \<Rightarrow> string result"
  CompareHashAndPassword :: "string \<Rightarrow> string \<Rightarrow> bool"
  Sum256 :: "string \<Rightarrow> string"

record auth_faults =
  on_exec :: "goerr option"
  on_row :: "goerr option"
  on_violation :: goerr

definition auth_no_faults :: "goerr \<Rightarrow> auth_faults" where
  "auth_no_faults v = \<lparr>on_exec = None, on_row = None, on_violation = v\<rparr>"

definition OpenAuth :: "goerr option \<Rightarrow> goerr option \<Rightarrow> auth_db option \<Rightarrow> auth_db result" where
  "OpenAuth open_err exec_err file =
     (case open_err of
        Some e \<Rightarrow> Inl (Wrap CodeInternal ''open auth store'' e)
      | None \<Rightarrow> (case exec_err of
          Some e \<Rightarrow> Inl (Wrap CodeInternal ''create auth tables'' e)
        | None \<Rightarrow> Inr (case file of Some db \<Rightarrow> db | None \<Rightarrow> \<lparr>users = [], api_tokens = []\<rparr>)))"

fun scope_allows :: "string list \<Rightarrow> string \<Rightarrow> bool" where
  "scope_allows [] dataset = False"
| "scope_allows (s # ss) dataset = (s = ''*'' \<or> s = dataset \<or> scope_allows ss dataset)"

definition token_AllowsDataset :: "api_token \<Rightarrow> string \<Rightarrow> bool" where
  "token_AllowsDataset t dataset = scope_allows (Scopes t) dataset"

definition expired :: "time \<Rightarrow> api_token \<Rightarrow> bool" where
  "expired now t = (case ExpiresAt t of None \<Rightarrow> False | Some x \<Rightarrow> now > x)"

section \<open>Users\<close>

definition insert_user :: "auth_faults \<Rightarrow> user \<Rightarrow> user list \<Rightarrow> user list result" where
  "insert_user flt u rows =
     (case on_exec flt of Some e \<Rightarrow> Inl e
      | None \<Rightarrow> (case tbl_insert Username u rows of None \<Rightarrow> Inl (on_violation flt) | Some t \<Rightarrow> Inr t))"

definition CreateUser ::
  "crypto \<Rightarrow> auth_faults \<Rightarrow> time \<Rightarrow> auth_db \<Rightarrow> string \<Rightarrow> string \<Rightarrow> role \<Rightarrow> user result \<times> auth_db" where
  "CreateUser c flt now db username password r =
     (if \<not> Valid r then (Inl (New CodeInvalidArgument ''unknown role''), db)
      else (case GenerateFromPassword c password of
        Inl e \<Rightarrow> (Inl (Wrap CodeInternal ''hash password'' e), db)
      | Inr hash \<Rightarrow>
          let u = \<lparr>Username = username, PasswordHash = hash, u_Role = r, u_CreatedAt = now\<rparr> in
          (case insert_user flt u (users db) of
             Inl e \<Rightarrow> (Inl (Wrap CodeAlreadyExists ''create user'' e), db)
           | Inr rows \<Rightarrow> (Inr u, db\<lparr>users := rows\<rparr>))))"

definition VerifyPassword ::
  "crypto \<Rightarrow> auth_faults \<Rightarrow> auth_db \<Rightarrow> string \<Rightarrow> string \<Rightarrow> user result" where
  "VerifyPassword c flt db username password =
     (case (case on_row flt of Some e \<Rightarrow> None | None \<Rightarrow> tbl_select Username username (users db)) of
        None \<Rightarrow> Inl (New CodeUnauthorized ''invalid username or password'')
      | Some u \<Rightarrow>
          if \<not> CompareHashAndPassword c (PasswordHash u) password
          then Inl (New CodeUnauthorized ''invalid username or password'')
          else Inr u)"

section \<open>API tokens\<close>

text \<open>\<open>base64.RawURLEncoding\<close> and \<open>hex\<close>.\<close>

definition base64_char :: "nat \<Rightarrow> char" where
  "base64_char n =
     (if n < 26 then char_of (65 + n) else if n < 52 then char_of (71 + n)
      else if n < 62 then char_of (n - 4) else if n = 62 then CHR ''-'' else CHR ''_'')"

fun base64 :: "nat list \<Rightarrow> string" where
  "base64 [] = []"
| "base64 [a] = map base64_char [a div 4, a mod 4 * 16]"
| "base64 [a, b] = map base64_char [a div 4, a mod 4 * 16 + b div 16, b mod 16 * 4]"
| "base64 (a # b # c # r) =
     map base64_char [a div 4, a mod 4 * 16 + b div 16, b mod 16 * 4 + c div 64, c mod 64] @ base64 r"

definition randomToken :: "string result \<Rightarrow> string result" where
  "randomToken buf = (case buf of Inl e \<Rightarrow> Inl e | Inr b \<Rightarrow> Inr (base64 (map of_char b)))"

definition hashToken :: "crypto \<Rightarrow> string \<Rightarrow> string" where
  "hashToken c raw =
     concat (map (\<lambda>b. let n = of_char b :: nat in [hexdigit (n div 16), hexdigit (n mod 16)]) (Sum256 c raw))"

text \<open>The table has two uniqueness constraints, on the id and on the hash.\<close>

definition insert_token :: "auth_faults \<Rightarrow> token_row \<Rightarrow> token_row list \<Rightarrow> token_row list result" where
  "insert_token flt t rows =
     (case on_exec flt of Some e \<Rightarrow> Inl e
      | None \<Rightarrow> (case tbl_insert t_id t rows of None \<Rightarrow> Inl (on_violation flt)
        | Some _ \<Rightarrow> (case tbl_insert t_hash t rows of None \<Rightarrow> Inl (on_violation flt) | Some ts \<Rightarrow> Inr ts)))"

definition CreateAPIToken ::
  "crypto \<Rightarrow> auth_faults \<Rightarrow> string result \<Rightarrow> string result \<Rightarrow> time \<Rightarrow> auth_db \<Rightarrow> string list \<Rightarrow> role
   \<Rightarrow> duration \<Rightarrow> (string \<times> api_token) result \<times> auth_db" where
  "CreateAPIToken c flt rand1 rand2 now db scopes r ttl =
     (if \<not> Valid r then (Inl (New CodeInvalidArgument ''unknown role''), db)
      else if length scopes = 0
      then (Inl (New CodeInvalidArgument
             (''at least one scope is required (use '' @ [dquote] @ ''*'' @ [dquote] @ '' for all datasets)'')), db)
      else (case randomToken rand1 of
        Inl e \<Rightarrow> (Inl (Wrap CodeInternal ''generate token'' e), db)
      | Inr raw \<Rightarrow> (case randomToken rand2 of
          Inl e \<Rightarrow> (Inl (Wrap CodeInternal ''generate token id'' e), db)
        | Inr i \<Rightarrow>
            let t = \<lparr>ID = i, Scopes = scopes, tok_Role = r, tok_CreatedAt = now,
                     ExpiresAt = (if ttl > 0 then Some (now + ttl) else None), Revoked = False\<rparr>;
                row = \<lparr>t_id = ID t, t_hash = hashToken c raw, t_scopes = Inr scopes, t_role = tok_Role t,
                     t_created_at = tok_CreatedAt t, t_expires_at = ExpiresAt t, t_revoked = False\<rparr>
            in (case insert_token flt row (api_tokens db) of
                  Inl e \<Rightarrow> (Inl (Wrap CodeInternal ''store api token'' e), db)
                | Inr rows \<Rightarrow> (Inr (raw, t), db\<lparr>api_tokens := rows\<rparr>)))))"

definition token_of :: "token_row \<Rightarrow> string list \<Rightarrow> api_token" where
  "token_of row scopes = \<lparr>ID = t_id row, Scopes = scopes, tok_Role = t_role row,
     tok_CreatedAt = t_created_at row, ExpiresAt = t_expires_at row, Revoked = t_revoked row\<rparr>"

definition VerifyAPIToken ::
  "crypto \<Rightarrow> auth_faults \<Rightarrow> time \<Rightarrow> auth_db \<Rightarrow> string \<Rightarrow> api_token result" where
  "VerifyAPIToken c flt now db rawToken =
     (case (case on_row flt of Some e \<Rightarrow> None
            | None \<Rightarrow> tbl_select t_hash (hashToken c rawToken) (api_tokens db)) of
        None \<Rightarrow> Inl (New CodeUnauthorized ''invalid API token'')
      | Some row \<Rightarrow> (case t_scopes row of
          Inl e \<Rightarrow> Inl (Wrap CodeInternal ''decode token scopes'' e)
        | Inr scopes \<Rightarrow>
            let t = token_of row scopes in
            if Revoked t then Inl (New CodeUnauthorized ''API token has been revoked'')
            else if expired now t then Inl (New CodeUnauthorized ''API token has expired'')
            else Inr t))"

definition RevokeAPIToken :: "auth_faults \<Rightarrow> auth_db \<Rightarrow> string \<Rightarrow> goerr option \<times> auth_db" where
  "RevokeAPIToken flt db i =
     (case on_exec flt of
        Some e \<Rightarrow> (Some (Wrap CodeInternal ''revoke api token'' e), db)
      | None \<Rightarrow> (case tbl_update (\<lambda>t. t_id t = i) (\<lambda>t. t\<lparr>t_revoked := True\<rparr>) (api_tokens db) of
          (rows, n) \<Rightarrow>
            (if n = 0 then Some (New CodeNotFound ''unknown token id'') else None,
             db\<lparr>api_tokens := rows\<rparr>)))"

section \<open>Sequences of operations\<close>

datatype auth_op =
    OpUser auth_faults time string string role
  | OpToken auth_faults "string result" "string result" time "string list" role duration
  | OpRevoke auth_faults string

fun auth_step :: "crypto \<Rightarrow> auth_db \<Rightarrow> auth_op \<Rightarrow> auth_db" where
  "auth_step c db (OpUser flt now u p r) = snd (CreateUser c flt now db u p r)"
| "auth_step c db (OpToken flt r1 r2 now scopes r ttl) = snd (CreateAPIToken c flt r1 r2 now db scopes r ttl)"
| "auth_step c db (OpRevoke flt i) = snd (RevokeAPIToken flt db i)"

definition auth_run :: "crypto \<Rightarrow> auth_db \<Rightarrow> auth_op list \<Rightarrow> auth_db" where
  "auth_run c db ops = foldl (auth_step c) db ops"

fun revokes :: "string \<Rightarrow> auth_op \<Rightarrow> bool" where
  "revokes i (OpRevoke flt j) \<longleftrightarrow> j = i \<and> on_exec flt = None"
| "revokes i _ \<longleftrightarrow> False"

definition auth_ok :: "auth_db \<Rightarrow> bool" where
  "auth_ok db \<longleftrightarrow> tbl_ok Username (users db) \<and> tbl_ok t_id (api_tokens db) \<and> tbl_ok t_hash (api_tokens db)"

interpretation us: keyed_table Username "tbl_select Username" "tbl_insert Username" "tbl_ok Username"
  by (rule keyed_table_rows)

interpretation th: keyed_table t_hash "tbl_select t_hash" "tbl_insert t_hash" "tbl_ok t_hash"
  by (rule keyed_table_rows)

interpretation ti: keyed_table t_id "tbl_select t_id" "tbl_insert t_id" "tbl_ok t_id"
  by (rule keyed_table_rows)

lemma insert_token_okD:
  "insert_token flt t rows = Inr rows' \<Longrightarrow>
   tbl_insert t_hash t rows = Some rows' \<and> tbl_insert t_id t rows = Some rows'"
  by (auto simp: insert_token_def tbl_insert_def split: option.splits if_splits)

lemma insert_user_okD: "insert_user flt u rows = Inr rows' \<Longrightarrow> tbl_insert Username u rows = Some rows'"
  by (auto simp: insert_user_def split: option.splits)

text \<open>What an operation does to the tables: nothing, or one checked insertion, or a revocation.\<close>

lemma auth_step_cases:
  obtains (same) "auth_step c db op = db" "\<And>i. \<not> revokes i op"
    | (user) u rows where "auth_step c db op = db\<lparr>users := rows\<rparr>" "tbl_insert Username u (users db) = Some rows"
        "\<And>i. \<not> revokes i op"
    | (token) t rows where "auth_step c db op = db\<lparr>api_tokens := rows\<rparr>"
        "tbl_insert t_hash t (api_tokens db) = Some rows" "tbl_insert t_id t (api_tokens db) = Some rows"
        "\<And>i. \<not> revokes i op"
    | (revoke) i where "\<And>j. revokes j op \<longleftrightarrow> j = i" "auth_step c db op = db\<lparr>api_tokens :=
          map (\<lambda>t. if t_id t = i then t\<lparr>t_revoked := True\<rparr> else t) (api_tokens db)\<rparr>"
proof (cases op)
  case (OpUser flt now u p r)
  show thesis
  proof (cases "CreateUser c flt now db u p r")
    case (Pair res db')
    then show thesis using OpUser same user
      by (auto simp: CreateUser_def Let_def split: if_splits sum.splits dest!: insert_user_okD)
  qed
next
  case (OpToken flt r1 r2 now scopes r ttl)
  show thesis
  proof (cases "CreateAPIToken c flt r1 r2 now db scopes r ttl")
    case (Pair res db')
    show thesis
    proof (cases "db' = db")
      case True
      then show thesis using OpToken Pair same by simp
    next
      case False
      then obtain t rows where t: "insert_token flt t (api_tokens db) = Inr rows"
        "db' = db\<lparr>api_tokens := rows\<rparr>"
        using Pair by (auto simp: CreateAPIToken_def Let_def split: if_splits sum.splits)
      show thesis
        by (rule token [of rows t]) (use OpToken Pair t insert_token_okD [OF t(1)] in auto)
    qed
  qed
next
  case (OpRevoke flt i)
  then show thesis using same revoke
    by (cases "on_exec flt") (auto simp: RevokeAPIToken_def tbl_update_def)
qed

lemma revoke_keeps:
  "map t_id (map (\<lambda>t. if t_id t = i then t\<lparr>t_revoked := True\<rparr> else t) rows) = map t_id rows"
  "map t_hash (map (\<lambda>t. if t_id t = i then t\<lparr>t_revoked := True\<rparr> else t) rows) = map t_hash rows"
  by (induction rows) auto

lemma auth_step_ok: "auth_ok db \<Longrightarrow> auth_ok (auth_step c db op)"
proof (cases rule: auth_step_cases [of c db op])
  case (user u rows)
  then show "auth_ok db \<Longrightarrow> ?thesis" using us.ok_inserted [of "users db" u rows] by (simp add: auth_ok_def)
next
  case (token t rows)
  then show "auth_ok db \<Longrightarrow> ?thesis"
    using th.ok_inserted [of "api_tokens db" t rows] ti.ok_inserted [of "api_tokens db" t rows]
    by (simp add: auth_ok_def)
next
  case (revoke i)
  then show "auth_ok db \<Longrightarrow> ?thesis"
    unfolding auth_ok_def tbl_ok_def by (simp add: revoke_keeps del: map_map)
qed simp

lemma auth_run_Cons [simp]: "auth_run c db (op # ops) = auth_run c (auth_step c db op) ops"
  and auth_run_Nil [simp]: "auth_run c db [] = db"
  by (simp_all add: auth_run_def)

lemma find_map_revoke:
  "find (\<lambda>r. t_hash r = h) (map (\<lambda>t. if t_id t = i then t\<lparr>t_revoked := True\<rparr> else t) rows) =
   map_option (\<lambda>t. if t_id t = i then t\<lparr>t_revoked := True\<rparr> else t) (find (\<lambda>r. t_hash r = h) rows)"
  by (induction rows) auto

text \<open>A token's row survives every operation; only the revocation of its id changes it.\<close>

lemma token_row_step:
  assumes "tbl_select t_hash h (api_tokens db) = Some row"
  shows "tbl_select t_hash h (api_tokens (auth_step c db op)) =
    Some (row\<lparr>t_revoked := t_revoked row \<or> revokes (t_id row) op\<rparr>)"
proof (cases rule: auth_step_cases [of c db op])
  case same
  then show ?thesis using assms by simp
next
  case (user u rows)
  then show ?thesis using assms by simp
next
  case (token t rows)
  then show ?thesis using th.insert_keeps_rows [OF token(2) assms] by simp
next
  case (revoke i)
  have "tbl_select t_hash h (api_tokens (auth_step c db op)) =
      Some (if t_id row = i then row\<lparr>t_revoked := True\<rparr> else row)"
    using assms unfolding revoke(2) tbl_select_def by (simp add: find_map_revoke del: map_map)
  then show ?thesis by (simp add: revoke(1))
qed

lemma token_row_run:
  "tbl_select t_hash h (api_tokens db) = Some row \<Longrightarrow>
   tbl_select t_hash h (api_tokens (auth_run c db ops)) =
     Some (row\<lparr>t_revoked := t_revoked row \<or> (\<exists>op\<in>set ops. revokes (t_id row) op)\<rparr>)"
proof (induction ops arbitrary: db row)
  case (Cons op ops)
  from Cons.IH [OF token_row_step [OF Cons.prems]] show ?case by (simp add: disj_assoc)
qed simp

lemma user_row_run:
  "tbl_select Username n (users db) = Some u \<Longrightarrow> tbl_select Username n (users (auth_run c db ops)) = Some u"
proof (induction ops arbitrary: db)
  case (Cons op ops)
  have "tbl_select Username n (users (auth_step c db op)) = Some u"
  proof (cases rule: auth_step_cases [of c db op])
    case (user v rows)
    then show ?thesis using us.insert_keeps_rows [OF user(2) Cons.prems] by simp
  qed (use Cons.prems in simp_all)
  then show ?case using Cons.IH by simp
qed simp

section \<open>Properties of the store\<close>


text \<open>Passwords. With a bcrypt whose hashes verify the password they were made from, a user that
  was created can log in with that password after whatever further operations, as the user that was
  created (a second creation under the name changes nothing); a wrong password and an unknown user
  get the very same error.\<close>

theorem password_lifecycle:
  assumes "CreateUser c flt now db n p r = (Inr u, db1)"
    and bcrypt: "\<And>h. GenerateFromPassword c p = Inr h \<Longrightarrow> CompareHashAndPassword c h p"
  shows "VerifyPassword c (auth_no_faults v) (auth_run c db1 ops) n p = Inr u
    \<and> Username u = n \<and> u_Role u = r \<and> Valid r
    \<and> (\<not> CompareHashAndPassword c (PasswordHash u) q
        \<longrightarrow> VerifyPassword c (auth_no_faults v) (auth_run c db1 ops) n q
            = VerifyPassword c (auth_no_faults v) \<lparr>users = [], api_tokens = []\<rparr> n' q')"
proof -
  have u: "Username u = n" "u_Role u = r" "Valid r" "GenerateFromPassword c p = Inr (PasswordHash u)"
    and "insert_user flt u (users db) = Inr (users db1)"
    using assms(1) by (auto simp: CreateUser_def Let_def split: if_splits sum.splits)
  then have "tbl_insert Username u (users db) = Some (users db1)" using insert_user_okD by blast
  then have "tbl_select Username n (users db1) = Some u" by (simp add: us.select_inserted u)
  note row = user_row_run [OF this, of c ops]
  show ?thesis
    using u bcrypt [OF u(4)] row by (simp add: VerifyPassword_def auth_no_faults_def tbl_select_def)
qed

section \<open>The text of tokens\<close>

definition base64_val :: "char \<Rightarrow> nat" where
  "base64_val c = (let n = of_char c in
     if n = 45 then 62 else if n = 95 then 63 else if n \<ge> 97 then n - 71 else if n \<ge> 65 then n - 65 else n + 4)"

lemma base64_val_char [simp]:
  assumes "n < 64"
  shows "base64_val (base64_char n) = n"
proof -
  consider "n < 26" | "26 \<le> n" "n < 52" | "52 \<le> n" "n < 62" | "n = 62" | "n = 63"
    using assms by linarith
  then show ?thesis
    by cases (auto simp: base64_val_def base64_char_def Let_def)
qed

fun unbase64 :: "nat list \<Rightarrow> nat list" where
  "unbase64 (a # b # c # d # r) =
     (a * 4 + b div 16) # (b mod 16 * 16 + c div 4) # (c mod 4 * 64 + d) # unbase64 r"
| "unbase64 [a, b, c] = [a * 4 + b div 16, b mod 16 * 16 + c div 4]"
| "unbase64 [a, b] = [a * 4 + b div 16]"
| "unbase64 _ = []"

lemma sextets:
  fixes a b c :: nat
  assumes "a < 256" "b < 256" "c < 256"
  shows "a div 4 < 64" "a mod 4 * 16 + b div 16 < 64" "b mod 16 * 4 + c div 64 < 64"
    "a mod 4 * 16 < 64" "b mod 16 * 4 < 64"
    "(a mod 4 * 16 + b div 16) div 16 = a mod 4" "(a mod 4 * 16 + b div 16) mod 16 = b div 16"
    "(b mod 16 * 4 + c div 64) div 4 = b mod 16" "(b mod 16 * 4 + c div 64) mod 4 = c div 64"
    "a div 4 * 4 + a mod 4 = a" "b div 16 * 16 + b mod 16 = b" "c div 64 * 64 + c mod 64 = c"
proof -
  have b: "b div 16 < 16" and c: "c div 64 < 4" and m: "a mod 4 < 4" "b mod 16 < 16"
    using assms by (simp_all add: div_less_iff_less_mult)
  show "a div 4 < 64" "a mod 4 * 16 + b div 16 < 64" "b mod 16 * 4 + c div 64 < 64"
    "a mod 4 * 16 < 64" "b mod 16 * 4 < 64"
    using assms b c m by linarith+
  show "(a mod 4 * 16 + b div 16) div 16 = a mod 4" "(a mod 4 * 16 + b div 16) mod 16 = b div 16"
    "(b mod 16 * 4 + c div 64) div 4 = b mod 16" "(b mod 16 * 4 + c div 64) mod 4 = c div 64"
    using b c by simp_all
qed simp_all

lemma unbase64_base64: "\<forall>b\<in>set bs. b < 256 \<Longrightarrow> unbase64 (map base64_val (base64 bs)) = bs"
proof (induction bs rule: base64.induct)
  case (2 a)
  then show ?case using sextets [of a 0 0] by simp
next
  case (3 a b)
  then show ?case using sextets [of a b 0] by simp
next
  case (4 a b c r)
  then have "a < 256" "b < 256" "c < 256" by simp_all
  with 4 show ?case using sextets [of a b c] by simp
qed simp

lemma base64_inject:
  "base64 (map of_char b) = base64 (map of_char b') \<longleftrightarrow> b = b'" for b b' :: string
proof
  assume e: "base64 (map of_char b) = base64 (map of_char b')"
  have "unbase64 (map base64_val (base64 (map of_char s))) = map of_char s" for s :: string
    by (rule unbase64_base64) simp
  then have "map (of_char :: char \<Rightarrow> nat) b = map of_char b'" using e by metis
  then show "b = b'" by (simp add: inj_map_eq_map inj_def)
qed simp

definition url_safe :: "char set" where
  "url_safe = base64_char ` {..<64}"

lemma base64_text:
  "\<forall>b\<in>set bs. b < 256 \<Longrightarrow> length (base64 bs) = (4 * length bs + 2) div 3 \<and> set (base64 bs) \<subseteq> url_safe"
proof (induction bs rule: base64.induct)
  case (2 a)
  then show ?case using sextets [of a 0 0] by (simp add: url_safe_def)
next
  case (3 a b)
  then show ?case using sextets [of a b 0] by (simp add: url_safe_def)
next
  case (4 a b c r)
  then have "a < 256" "b < 256" "c < 256" by simp_all
  with 4 show ?case using sextets [of a b c] by (simp add: url_safe_def)
qed simp

lemma base64_alphabet:
  "map base64_char [0..<64] = ''ABCDEFGHIJKLMNOPQRSTUVWXYZabcdefghijklmnopqrstuvwxyz0123456789-_''"
  by code_simp

lemma url_safe_chars: "url_safe = set ''ABCDEFGHIJKLMNOPQRSTUVWXYZabcdefghijklmnopqrstuvwxyz0123456789-_''"
  unfolding base64_alphabet [symmetric] url_safe_def by auto

definition hexval :: "char \<Rightarrow> nat" where
  "hexval c = (let n = of_char c in if n \<ge> 97 then n - 87 else n - 48)"

lemma hexval_hexdigit [simp]: "n < 16 \<Longrightarrow> hexval (hexdigit n) = n"
  by (simp add: hexval_def hexdigit_def Let_def)

fun unhex :: "char list \<Rightarrow> char list" where
  "unhex (a # b # r) = char_of (hexval a * 16 + hexval b) # unhex r"
| "unhex _ = []"

definition hex_text :: "string \<Rightarrow> string" where
  "hex_text s = concat (map (\<lambda>b. let n = of_char b :: nat in [hexdigit (n div 16), hexdigit (n mod 16)]) s)"

lemma unhex_hex_text: "unhex (hex_text s) = s"
proof (induction s)
  case (Cons c s)
  have "of_char c < (256 :: nat)" by simp
  then have "of_char c div 16 < (16 :: nat)" by (simp add: div_less_iff_less_mult)
  with Cons show ?case by (simp add: hex_text_def Let_def)
qed (simp add: hex_text_def)

lemma hashToken_hex: "hashToken c raw = hex_text (Sum256 c raw)"
  by (simp add: hashToken_def hex_text_def)

text \<open>The text of tokens. The random bytes of a token can be read back from its text, so two tokens
  have the same text only if the same bytes were drawn; 32 bytes give 43 characters, all of them
  letters, digits, \<open>-\<close> and \<open>_\<close>, so that a token needs no escaping in a header or an address. What is
  stored of a token is its SHA-256 alone, and two tokens share a stored value exactly when they
  share that.\<close>

theorem token_text:
  "(randomToken (Inr b) = randomToken (Inr b')) = (b = b')
   \<and> (\<exists>t. randomToken (Inr b) = Inr t \<and> length t = (4 * length b + 2) div 3
        \<and> set t \<subseteq> set ''ABCDEFGHIJKLMNOPQRSTUVWXYZabcdefghijklmnopqrstuvwxyz0123456789-_'')
   \<and> (hashToken c raw = hashToken c raw') = (Sum256 c raw = Sum256 c raw')"
proof (intro conjI)
  show "(randomToken (Inr b) = randomToken (Inr b')) = (b = b')"
    by (simp add: randomToken_def base64_inject)
  have "\<forall>x\<in>set (map of_char b). x < (256 :: nat)" by simp
  from base64_text [OF this]
  show "\<exists>t. randomToken (Inr b) = Inr t \<and> length t = (4 * length b + 2) div 3
        \<and> set t \<subseteq> set ''ABCDEFGHIJKLMNOPQRSTUVWXYZabcdefghijklmnopqrstuvwxyz0123456789-_''"
    unfolding randomToken_def sum.case url_safe_chars length_map by blast
  show "(hashToken c raw = hashToken c raw') = (Sum256 c raw = Sum256 c raw')"
    unfolding hashToken_hex by (metis unhex_hex_text)
qed

section \<open>Witnesses\<close>

definition sample_crypto :: crypto where
  "sample_crypto = \<lparr>GenerateFromPassword = (\<lambda>p. Inr (''h:'' @ p)),
     CompareHashAndPassword = (\<lambda>h p. h = ''h:'' @ p), Sum256 = (\<lambda>s. s)\<rparr>"

definition empty_auth :: auth_db where
  "empty_auth = \<lparr>users = [], api_tokens = []\<rparr>"


lemma password_lifecycle_witness:
  "\<exists>u db1. CreateUser sample_crypto (auth_no_faults (Plain [])) 0 empty_auth ''ana'' ''pw'' RoleAdmin = (Inr u, db1)
    \<and> VerifyPassword sample_crypto (auth_no_faults (Plain [])) (auth_run sample_crypto db1
        [OpUser (auth_no_faults (Plain [])) 1 ''ana'' ''other'' RoleViewer]) ''ana'' ''pw'' = Inr u"
proof -
  let ?f = "auth_no_faults (Plain [])"
  obtain u db1 where c: "CreateUser sample_crypto ?f 0 empty_auth ''ana'' ''pw'' RoleAdmin = (Inr u, db1)"
    by (auto simp: CreateUser_def Valid_iff_All All_def sample_crypto_def insert_user_def
        tbl_insert_def empty_auth_def auth_no_faults_def Let_def)
  have "CompareHashAndPassword sample_crypto h ''pw''" if "GenerateFromPassword sample_crypto ''pw'' = Inr h" for h
    using that by (auto simp: sample_crypto_def)
  from password_lifecycle [OF c this, THEN conjunct1] c show ?thesis by blast
qed

end
