(* ===== verification/Middleware.thy ===== *)
theory Middleware
  imports AuthStore GoIo
begin

text \<open>
  \<open>engine/auth/jwt.go\<close> and \<open>engine/auth/middleware.go\<close>: session tokens, and the HTTP middlewares
  that admit a request. The \<open>golang-jwt\<close> package is an argument (\<open>jwt_lib\<close>); what the code relies on
  is \<open>jwt_lib_ok\<close>. A handler takes the request and the state it works on and gives its reply and the
  state after it; a handler that panics gives no reply (the HTTP server drops the connection).
\<close>

section \<open>jwt.go\<close>

record claims =
  IssuedAt :: time
  cl_ExpiresAt :: time
  cl_Subject :: string
  cl_Username :: string
  cl_Role :: role

record jwt_lib =
  NewNumericDate :: "time \<Rightarrow> time"
  SignedString :: "string \<Rightarrow> string \<Rightarrow> claims \<Rightarrow> string result"
  ParseWithClaims :: "string list \<Rightarrow> string \<Rightarrow> time \<Rightarrow> string \<Rightarrow> (claims \<times> bool) result"

record jwt_manager =
  secret :: string
  ttl :: duration

definition NewJWTManager :: "string \<Rightarrow> duration \<Rightarrow> jwt_manager" where
  "NewJWTManager s d = \<lparr>secret = s, ttl = d\<rparr>"

definition HS256 :: string where "HS256 = ''HS256''"

definition Issue :: "jwt_lib \<Rightarrow> time \<Rightarrow> jwt_manager \<Rightarrow> string \<Rightarrow> role \<Rightarrow> string result" where
  "Issue L now m username r =
     (case SignedString L HS256 (secret m)
         \<lparr>IssuedAt = NewNumericDate L now, cl_ExpiresAt = NewNumericDate L (now + ttl m),
          cl_Subject = username, cl_Username = username, cl_Role = r\<rparr> of
        Inl e \<Rightarrow> Inl (Wrap CodeInternal ''sign JWT'' e)
      | Inr tok \<Rightarrow> Inr tok)"

definition Verify :: "jwt_lib \<Rightarrow> time \<Rightarrow> jwt_manager \<Rightarrow> string \<Rightarrow> claims result" where
  "Verify L now m tokenString =
     (case ParseWithClaims L [HS256] (secret m) now tokenString of
        Inr (c, True) \<Rightarrow> Inr c
      | _ \<Rightarrow> Inl (New CodeUnauthorized ''invalid or expired session token''))"

text \<open>What \<open>golang-jwt\<close> documents: dates are cut to whole seconds; parsing a token with the secret and
  method it was signed with gives its claims as long as its expiry is still to come, and an error
  afterwards.\<close>

definition jwt_lib_ok :: "jwt_lib \<Rightarrow> bool" where
  "jwt_lib_ok L \<longleftrightarrow>
     (\<forall>t. NewNumericDate L t \<le> t \<and> t < NewNumericDate L t + Second)
   \<and> (\<forall>s c tok now. SignedString L HS256 s c = Inr tok \<longrightarrow>
        (if now < cl_ExpiresAt c then ParseWithClaims L [HS256] s now tok = Inr (c, True)
         else \<exists>e. ParseWithClaims L [HS256] s now tok = Inl e))"

section \<open>middleware.go\<close>

record identity =
  Subject :: string
  id_Role :: role
  id_Scopes :: "string list"
  ViaToken :: bool

definition AllowsDataset :: "identity \<Rightarrow> string \<Rightarrow> bool" where
  "AllowsDataset i dataset = (if \<not> ViaToken i then True else scope_allows (id_Scopes i) dataset)"

text \<open>A request as the server hands it to a handler: the path as its segments, the \<open>Authorization\<close>
  header (empty when absent), and the identity in the request's context, if one was put there.\<close>

record request_in =
  in_Method :: string
  in_Path :: "string list"
  in_RemoteAddr :: string
  in_Authorization :: string
  in_Body :: string
  in_Identity :: "identity option"

datatype 'b reply = Reply nat 'b | Panicked

type_synonym ('b, 's) handler = "request_in \<Rightarrow> 's \<Rightarrow> 'b reply \<times> 's"

definition withIdentity :: "request_in \<Rightarrow> identity \<Rightarrow> request_in" where
  "withIdentity r i = r\<lparr>in_Identity := Some i\<rparr>"

definition IdentityFromContext :: "request_in \<Rightarrow> identity option" where
  "IdentityFromContext r = in_Identity r"

text \<open>What authentication works with during one request.\<close>

record auth_env =
  ae_jwt_lib :: jwt_lib
  ae_jwt :: jwt_manager
  ae_crypto :: crypto
  ae_store :: auth_db
  ae_faults :: auth_faults
  ae_now :: time

text \<open>The replies carry the message of the error object; \<open>err\<close> makes it the body of the server's
  reply type.\<close>

definition writeAuthError :: "(string \<Rightarrow> 'b) \<Rightarrow> nat \<Rightarrow> string \<Rightarrow> 'b reply" where
  "writeAuthError err st message = Reply st (err message)"

definition Authenticate ::
  "(string \<Rightarrow> 'b) \<Rightarrow> auth_env \<Rightarrow> ('b, 's) handler \<Rightarrow> ('b, 's) handler" where
  "Authenticate err ae next_h r s =
     (let header = in_Authorization r in
      case cut_prefix header ''Bearer '' of
        (token, ok) \<Rightarrow>
          if header = [] \<or> \<not> ok \<or> token = []
          then (writeAuthError err StatusUnauthorized ''missing or malformed Authorization header'', s)
          else (case Verify (ae_jwt_lib ae) (ae_now ae) (ae_jwt ae) token of
              Inr c \<Rightarrow>
                next_h (withIdentity r \<lparr>Subject = cl_Username c, id_Role = cl_Role c, id_Scopes = [],
                                        ViaToken = False\<rparr>) s
            | Inl _ \<Rightarrow> (case VerifyAPIToken (ae_crypto ae) (ae_faults ae) (ae_now ae) (ae_store ae) token of
                Inr t \<Rightarrow>
                  next_h (withIdentity r \<lparr>Subject = ID t, id_Role = tok_Role t, id_Scopes = Scopes t,
                                          ViaToken = True\<rparr>) s
              | Inl _ \<Rightarrow> (writeAuthError err StatusUnauthorized ''invalid or expired credentials'', s))))"

definition RequireRole :: "(string \<Rightarrow> 'b) \<Rightarrow> role \<Rightarrow> ('b, 's) handler \<Rightarrow> ('b, 's) handler" where
  "RequireRole err m next_h r s =
     (case IdentityFromContext r of
        None \<Rightarrow> (writeAuthError err StatusUnauthorized ''authentication required'', s)
      | Some i \<Rightarrow>
          if \<not> AtLeast (id_Role i) m
          then (writeAuthError err StatusForbidden ''insufficient role'', s)
          else next_h r s)"

definition RequireDatasetScope ::
  "(string \<Rightarrow> 'b) \<Rightarrow> (request_in \<Rightarrow> string) \<Rightarrow> ('b, 's) handler \<Rightarrow> ('b, 's) handler" where
  "RequireDatasetScope err datasetName next_h r s =
     (case IdentityFromContext r of
        None \<Rightarrow> (writeAuthError err StatusUnauthorized ''authentication required'', s)
      | Some i \<Rightarrow>
          if \<not> AllowsDataset i (datasetName r)
          then (writeAuthError err StatusForbidden ''token does not have access to this dataset'', s)
          else next_h r s)"

section \<open>The gate as an interface\<close>

text \<open>\<open>obeys R h\<close>: whatever state \<open>h\<close> starts from, \<open>R\<close> relates it to the reply and the state it leaves.\<close>

definition obeys :: "('s \<Rightarrow> 'b reply \<times> 's \<Rightarrow> bool) \<Rightarrow> ('b, 's) handler \<Rightarrow> bool" where
  "obeys R h \<longleftrightarrow> (\<forall>r s. R s (h r s))"

lemma obeysD: "obeys R h \<Longrightarrow> R s (h r s)"
  by (simp add: obeys_def)

text \<open>A guard in front of a handler: it either answers itself with one of its refusals and leaves the
  state alone, or hands a request it approves of to the handler. \<open>approved\<close> says what is handed on.\<close>

locale guard =
  fixes wrap :: "('b, 's) handler \<Rightarrow> ('b, 's) handler"
    and refusal :: "'b reply \<Rightarrow> bool"
    and approved :: "request_in \<Rightarrow> request_in \<Rightarrow> bool"
  assumes guarded: "(\<exists>rep. refusal rep \<and> (\<forall>h s. wrap h r s = (rep, s)))
      \<or> (\<exists>r'. approved r r' \<and> (\<forall>h s. wrap h r s = h r' s))"
begin

text \<open>Only approved requests reach the handler: whatever holds of every reply the handler gives to
  approved requests, and of refusals, holds behind the guard.\<close>

lemma behind:
  assumes "\<And>r'. approved r r' \<Longrightarrow> h r' s = (rep, s') \<Longrightarrow> P rep s'"
    and "\<And>rep. refusal rep \<Longrightarrow> P rep s"
    and "wrap h r s = (rep, s')"
  shows "P rep s'"
  using guarded [of r] assms by auto

lemma obeys_wrap:
  assumes "obeys R h" and "\<And>rep s. refusal rep \<Longrightarrow> R s (rep, s)"
  shows "obeys R (wrap h)"
  unfolding obeys_def
proof (intro allI)
  fix r :: request_in and s
  show "R s (wrap h r s)"
    by (rule behind [where r = r and h = h and s = s and P = "\<lambda>rep s'. R s (rep, s')"
          and rep = "fst (wrap h r s)" and s' = "snd (wrap h r s)", simplified])
      (use assms obeysD [OF assms(1)] in \<open>auto, metis\<close>)
qed

lemma state_kept_unless_approved:
  "wrap h r s = (rep, s') \<Longrightarrow> s' \<noteq> s \<Longrightarrow> \<exists>r'. approved r r' \<and> h r' s = (rep, s')"
  using guarded [of r] by auto

lemma success_means_approved:
  "wrap h r s = (rep, s') \<Longrightarrow> \<not> refusal rep \<Longrightarrow> \<exists>r'. approved r r' \<and> h r' s = (rep, s')"
  using guarded [of r] by auto

end

text \<open>The identity a request's credentials stand for.\<close>

definition credentials :: "auth_env \<Rightarrow> request_in \<Rightarrow> identity \<Rightarrow> bool" where
  "credentials ae r i \<longleftrightarrow> (\<exists>token. token \<noteq> [] \<and> in_Authorization r = ''Bearer '' @ token
     \<and> ((\<exists>c. Verify (ae_jwt_lib ae) (ae_now ae) (ae_jwt ae) token = Inr c
            \<and> i = \<lparr>Subject = cl_Username c, id_Role = cl_Role c, id_Scopes = [], ViaToken = False\<rparr>)
      \<or> (\<exists>t. VerifyAPIToken (ae_crypto ae) (ae_faults ae) (ae_now ae) (ae_store ae) token = Inr t
            \<and> i = \<lparr>Subject = ID t, id_Role = tok_Role t, id_Scopes = Scopes t, ViaToken = True\<rparr>)))"

definition refused :: "(string \<Rightarrow> 'b) \<Rightarrow> nat set \<Rightarrow> 'b reply \<Rightarrow> bool" where
  "refused err sts rep \<longleftrightarrow> (\<exists>st m. st \<in> sts \<and> rep = Reply st (err m))"

interpretation authn: guard "Authenticate err ae" "refused err {StatusUnauthorized}"
    "\<lambda>r r'. \<exists>i. credentials ae r i \<and> r' = r\<lparr>in_Identity := Some i\<rparr>"
proof
  fix r :: request_in
  obtain token ok where t: "cut_prefix (in_Authorization r) ''Bearer '' = (token, ok)"
    by (cases "cut_prefix (in_Authorization r) ''Bearer ''")
  let ?jwt = "Verify (ae_jwt_lib ae) (ae_now ae) (ae_jwt ae) token"
  let ?api = "VerifyAPIToken (ae_crypto ae) (ae_faults ae) (ae_now ae) (ae_store ae) token"
  show "(\<exists>rep. refused err {StatusUnauthorized} rep \<and> (\<forall>h s. Authenticate err ae h r s = (rep, s)))
      \<or> (\<exists>r'. (\<exists>i. credentials ae r i \<and> r' = r\<lparr>in_Identity := Some i\<rparr>)
           \<and> (\<forall>h s. Authenticate err ae h r s = h r' s))"
  proof (cases "ok \<and> token \<noteq> []")
    case False
    then have "Authenticate err ae h r s =
        (Reply StatusUnauthorized (err ''missing or malformed Authorization header''), s)" for h s
      using t by (auto simp: Authenticate_def writeAuthError_def)
    then show ?thesis by (auto simp: refused_def)
  next
    case True
    from True have hd: "in_Authorization r = ''Bearer '' @ token" "token \<noteq> []"
      using t cut_prefix_True by auto
    then have ne: "in_Authorization r \<noteq> []" by simp
    consider (jwt) c where "?jwt = Inr c" | (api) e a where "?jwt = Inl e" "?api = Inr a"
      | (none) e e' where "?jwt = Inl e" "?api = Inl e'"
      by (cases ?jwt; cases ?api) auto
    then show ?thesis
    proof cases
      case jwt
      let ?i = "\<lparr>Subject = cl_Username c, id_Role = cl_Role c, id_Scopes = [], ViaToken = False\<rparr>"
      have "Authenticate err ae h r s = h (r\<lparr>in_Identity := Some ?i\<rparr>) s" for h s
        using True ne jwt by (simp add: Authenticate_def t withIdentity_def)
      moreover have "credentials ae r ?i" using hd jwt by (auto simp: credentials_def)
      ultimately show ?thesis by blast
    next
      case api
      let ?i = "\<lparr>Subject = ID a, id_Role = tok_Role a, id_Scopes = Scopes a, ViaToken = True\<rparr>"
      have "Authenticate err ae h r s = h (r\<lparr>in_Identity := Some ?i\<rparr>) s" for h s
        using True ne api by (simp add: Authenticate_def t withIdentity_def)
      moreover have "credentials ae r ?i" using hd api by (auto simp: credentials_def)
      ultimately show ?thesis by blast
    next
      case none
      have "Authenticate err ae h r s =
          (Reply StatusUnauthorized (err ''invalid or expired credentials''), s)" for h s
        using True ne none by (simp add: Authenticate_def t writeAuthError_def)
      then show ?thesis by (auto simp: refused_def)
    qed
  qed
qed

interpretation role_guard: guard "RequireRole err m" "refused err {StatusUnauthorized, StatusForbidden}"
    "\<lambda>r r'. r' = r \<and> (\<exists>i. in_Identity r = Some i \<and> AtLeast (id_Role i) m)"
proof
  fix r :: request_in
  show "(\<exists>rep. refused err {StatusUnauthorized, StatusForbidden} rep \<and> (\<forall>h s. RequireRole err m h r s = (rep, s)))
      \<or> (\<exists>r'. (r' = r \<and> (\<exists>i. in_Identity r = Some i \<and> AtLeast (id_Role i) m))
           \<and> (\<forall>h s. RequireRole err m h r s = h r' s))"
  proof (cases "\<exists>i. in_Identity r = Some i \<and> AtLeast (id_Role i) m")
    case True
    then show ?thesis by (auto simp: RequireRole_def IdentityFromContext_def)
  next
    case False
    then show ?thesis
      by (cases "in_Identity r") (auto simp: RequireRole_def IdentityFromContext_def writeAuthError_def refused_def)
  qed
qed

interpretation scope_guard: guard "RequireDatasetScope err name"
    "refused err {StatusUnauthorized, StatusForbidden}"
    "\<lambda>r r'. r' = r \<and> (\<exists>i. in_Identity r = Some i \<and> AllowsDataset i (name r))"
proof
  fix r :: request_in
  show "(\<exists>rep. refused err {StatusUnauthorized, StatusForbidden} rep
        \<and> (\<forall>h s. RequireDatasetScope err name h r s = (rep, s)))
      \<or> (\<exists>r'. (r' = r \<and> (\<exists>i. in_Identity r = Some i \<and> AllowsDataset i (name r)))
           \<and> (\<forall>h s. RequireDatasetScope err name h r s = h r' s))"
  proof (cases "\<exists>i. in_Identity r = Some i \<and> AllowsDataset i (name r)")
    case True
    then show ?thesis by (auto simp: RequireDatasetScope_def IdentityFromContext_def)
  next
    case False
    then show ?thesis
      by (cases "in_Identity r") (auto simp: RequireDatasetScope_def IdentityFromContext_def writeAuthError_def refused_def)
  qed
qed

section \<open>Sessions\<close>

lemma Issue_Verify:
  assumes "jwt_lib_ok L" and "Issue L now m u r = Inr tok"
  shows "\<exists>x. x \<le> now + ttl m \<and> now + ttl m < x + Second \<and>
    (if now' < x then \<exists>c. Verify L now' m tok = Inr c \<and> cl_Username c = u \<and> cl_Role c = r
     else \<exists>e. Verify L now' m tok = Inl e)"
proof -
  let ?c = "\<lparr>IssuedAt = NewNumericDate L now, cl_ExpiresAt = NewNumericDate L (now + ttl m),
          cl_Subject = u, cl_Username = u, cl_Role = r\<rparr>"
  have s: "SignedString L HS256 (secret m) ?c = Inr tok"
    using assms(2) by (auto simp: Issue_def split: sum.splits)
  have x: "NewNumericDate L (now + ttl m) \<le> now + ttl m \<and> now + ttl m < NewNumericDate L (now + ttl m) + Second"
    using assms(1) by (simp add: jwt_lib_ok_def)
  have "if now' < cl_ExpiresAt ?c then ParseWithClaims L [HS256] (secret m) now' tok = Inr (?c, True)
      else \<exists>e. ParseWithClaims L [HS256] (secret m) now' tok = Inl e"
    using assms(1) s unfolding jwt_lib_ok_def by blast
  then have "if now' < NewNumericDate L (now + ttl m)
      then \<exists>c. Verify L now' m tok = Inr c \<and> cl_Username c = u \<and> cl_Role c = r
      else \<exists>e. Verify L now' m tok = Inl e"
    by (auto simp: Verify_def split: if_splits)
  then show ?thesis using x by blast
qed

end
