(* ===== verification/StaticFiles.thy ===== *)
theory StaticFiles
  imports Paths
begin

text \<open>
  \<open>engine/api/static.go\<close>: the built frontend with a fallback to \<open>index.html\<close>. The file system is an
  argument: what \<open>os.Stat\<close> says of a path. \<open>http.ServeFile\<close> and \<open>http.FileServer\<close> are modelled by
  the file they open, or the redirect or refusal they answer with instead.
\<close>

datatype static_reply = File string | LocalRedirect | InvalidPath

type_synonym file_system = "string \<Rightarrow> bool option"

text \<open>\<open>strings.HasSuffix\<close> with the index page: such a URL is redirected to its directory.\<close>

definition is_index_page :: "string \<Rightarrow> bool" where
  "is_index_page urlPath \<longleftrightarrow> suffix ''/index.html'' urlPath"

definition serveFile :: "string \<Rightarrow> string \<Rightarrow> static_reply" where
  "serveFile urlPath file_name =
     (if ''..'' \<in> set (split_on slash urlPath) then InvalidPath
      else if is_index_page urlPath then LocalRedirect
      else File file_name)"

definition fileServer :: "string \<Rightarrow> string \<Rightarrow> static_reply" where
  "fileServer dir urlPath =
     (let upath = (if rooted urlPath then urlPath else slash # urlPath) in
      if is_index_page upath then LocalRedirect
      else if last upath = slash then LocalRedirect
      else File (Join [dir, Clean upath]))"

definition SPAHandler :: "file_system \<Rightarrow> string \<Rightarrow> string \<Rightarrow> static_reply" where
  "SPAHandler stat dir urlPath =
     (let indexPath = Join [dir, ''index.html''];
          full = Join [dir, Clean urlPath]
      in (case stat full of
            None \<Rightarrow> serveFile urlPath indexPath
          | Some is_dir \<Rightarrow> if is_dir then serveFile urlPath indexPath else fileServer dir urlPath))"

definition staticDirAvailable :: "file_system \<Rightarrow> string \<Rightarrow> bool" where
  "staticDirAvailable stat dir =
     (if dir = [] then False else stat (Join [dir, ''index.html'']) \<noteq> None)"

section \<open>Nothing outside the directory is served\<close>

definition render :: "bool \<Rightarrow> string list \<Rightarrow> string" where
  "render root es = (if root then slash # join [slash] es else if es = [] then ''.'' else join [slash] es)"

text \<open>A cleaned path below a directory: the elements of the directory, then names that do not climb.\<close>

definition below :: "string \<Rightarrow> string \<Rightarrow> bool" where
  "below dir f \<longleftrightarrow> (\<exists>es. (\<forall>e\<in>set es. normal e)
     \<and> f = render (rooted dir) (clean_elems (rooted dir) dir @ es))"

lemma Clean_render: "Clean p = render (rooted p) (clean_elems (rooted p) p)"
  by (simp add: Clean_def render_def Let_def)

lemma rooted_append [simp]: "dir \<noteq> [] \<Longrightarrow> rooted (dir @ x) = rooted dir"
  by (cases dir) (simp_all add: rooted_def)

lemma Join_below:
  assumes "dir \<noteq> []"
  shows "below dir (Join [dir, Clean (slash # p)])"
proof -
  have "Clean (slash # p) \<noteq> []" by (simp add: Clean_def rooted_def Let_def)
  then have "Join [dir, Clean (slash # p)] = Clean (dir @ slash # Clean (slash # p))"
    using assms by (simp add: Join_def)
  also have "\<dots> = render (rooted dir) (clean_elems (rooted dir) dir @ clean_elems True (slash # p))"
    using assms by (simp add: Clean_render [of "dir @ slash # Clean (slash # p)"] clean_elems_under)
  finally show ?thesis unfolding below_def using clean_elems_rooted by blast
qed

lemma normal_index: "normal ''index.html''"
  by (simp add: normal_def)

lemma index_below:
  assumes "dir \<noteq> []"
  shows "below dir (Join [dir, ''index.html''])"
proof -
  have "Join [dir, ''index.html''] = Clean (dir @ slash # ''index.html'')"
    using assms by (simp add: Join_def)
  also have "\<dots> = render (rooted dir) (clean_elems (rooted dir) dir @ [''index.html''])"
    using assms by (simp add: Clean_render clean_elems_def split_on_append clean_step_def)
  finally show ?thesis unfolding below_def using normal_index by force
qed

text \<open>C40: the static handler never leaves its directory. Whatever the URL path, with any number of
  climbing elements, encoded or not, and whatever the file system says, a file it serves is the
  index page or lies below the directory: its cleaned path is that of the directory followed by
  names none of which is \<open>..\<close>.\<close>

theorem SPAHandler_stays_below:
  assumes "staticDirAvailable stat dir" and "SPAHandler stat dir urlPath = File f"
  shows "below dir f"
proof -
  have ne: "dir \<noteq> []" using assms(1) by (auto simp: staticDirAvailable_def)
  have "f = Join [dir, ''index.html''] \<or> (\<exists>p. f = Join [dir, Clean (slash # p)])"
    using assms(2)
    by (cases urlPath)
      (auto simp: SPAHandler_def serveFile_def fileServer_def Let_def rooted_def
        split: option.splits if_splits)
  then show ?thesis using Join_below [OF ne] index_below [OF ne] by auto
qed

lemma SPAHandler_stays_below_witness:
  "SPAHandler (\<lambda>_. Some False) ''web/dist'' ''/../../etc/passwd'' = File ''web/dist/etc/passwd''
   \<and> below ''web/dist'' ''web/dist/etc/passwd''"
proof -
  have a: "staticDirAvailable (\<lambda>_. Some False) ''web/dist''" by (simp add: staticDirAvailable_def)
  have b: "SPAHandler (\<lambda>_. Some False) ''web/dist'' ''/../../etc/passwd'' = File ''web/dist/etc/passwd''"
    by code_simp
  from SPAHandler_stays_below [OF a b] b show ?thesis by simp
qed

end
