(* ===== verification/ApiRoutes.thy ===== *)
theory ApiRoutes
  imports Middleware SchemaHttp Broker RateLimit StaticFiles "HOL-Library.AList"
begin

text \<open>
  \<open>engine/api\<close>: the router with its handlers, the DDL executor and the inserter that talk to
  ClickHouse, the rate limit and CORS middlewares. \<open>server\<close> is the state the handlers share,
  including the requests sent to ClickHouse so far for statements and insertions; \<open>deps\<close> is \<open>Deps\<close>;
  \<open>env\<close> is what one request finds outside: clocks, network, failing statements, and what the JSON
  package makes of a text.
\<close>

section \<open>ddl_executor.go\<close>

definition ddl_request :: "string \<Rightarrow> string \<Rightarrow> http_request" where
  "ddl_request baseURL ddl = \<lparr>rq_method = ''POST'', rq_url = baseURL, rq_query = [], rq_headers = [],
     rq_body = ddl\<rparr>"

definition Exec :: "net \<Rightarrow> string \<Rightarrow> string \<Rightarrow> goerr option" where
  "Exec w baseURL ddl =
     (case build_error w of
        Some e \<Rightarrow> Some (Wrap CodeInternal ''build DDL request'' e)
      | None \<Rightarrow> (case client_do w (ddl_request baseURL ddl) of
          Fails e _ \<Rightarrow> Some (Wrap CodeUnavailable ''clickhouse DDL request failed'' e)
        | Response st text _ \<Rightarrow>
            if st \<noteq> StatusOK
            then Some (New CodeInternal (''clickhouse rejected DDL: '' @ trim_space text))
            else None))"

section \<open>ingest.go\<close>

definition quoteIdent_api :: "string \<Rightarrow> string" where
  "quoteIdent_api name = [backtick] @ replace_char backtick [backtick, backtick] name @ [backtick]"

definition insert_request :: "string \<Rightarrow> string \<Rightarrow> string \<Rightarrow> http_request" where
  "insert_request baseURL table text = \<lparr>rq_method = ''POST'', rq_url = baseURL,
     rq_query = [(''query'', ''INSERT INTO '' @ quoteIdent_api table @ '' FORMAT JSONEachRow'')],
     rq_headers = [], rq_body = text\<rparr>"

fun encode_records :: "(record_map \<Rightarrow> string result) \<Rightarrow> record_map list \<Rightarrow> string \<Rightarrow> string result" where
  "encode_records enc [] text = Inr text"
| "encode_records enc (r # rs) text =
     (case enc r of
        Inl e \<Rightarrow> Inl (Wrap CodeInternal ''encode record'' e)
      | Inr line \<Rightarrow> encode_records enc rs (text @ line @ [nl]))"

text \<open>The error, if any, and the requests that were sent.\<close>

definition Insert ::
  "(record_map \<Rightarrow> string result) \<Rightarrow> net \<Rightarrow> string \<Rightarrow> string \<Rightarrow> record_map list
   \<Rightarrow> goerr option \<times> http_request list" where
  "Insert enc w baseURL table records =
     (if length records = 0 then (None, [])
      else (case encode_records enc records [] of
        Inl e \<Rightarrow> (Some e, [])
      | Inr text \<Rightarrow> (case build_error w of
          Some e \<Rightarrow> (Some (Wrap CodeInternal ''build insert request'' e), [])
        | None \<Rightarrow>
            let req = insert_request baseURL table text in
            (case client_do w req of
               Fails e _ \<Rightarrow> (Some (Wrap CodeUnavailable ''clickhouse insert failed'' e), [req])
             | Response st answer _ \<Rightarrow>
                 if st \<noteq> StatusOK
                 then (Some (New CodeInternal (''clickhouse returned '' @ show_nat st @ '': '' @ answer)), [req])
                 else (None, [req])))))"

section \<open>Requests, replies and the state of the server\<close>

record login_request =
  lr_Username :: string
  lr_Password :: string

record json_codec =
  decode_login :: "string \<Rightarrow> login_request result"
  decode_query :: "string \<Rightarrow> string result"
  decode_create :: "string \<Rightarrow> create_request result"
  decode_columns :: "string \<Rightarrow> add_columns_request result"
  decode_record :: "string \<Rightarrow> record_map option result"
  encode_record :: "record_map \<Rightarrow> string result"

datatype api_body =
    ErrorJson string
  | HealthJson string
  | LoginJson string string
  | RawJson string
  | AcceptedJson nat
  | SchemaJson schema_body
  | StaticFile static_reply
  | NoBody

record server =
  sv_schemas :: schema_db
  sv_broker :: broker
  sv_ensured :: "string set"
  sv_limiter :: sliding_window
  sv_sent :: "http_request list"

record deps =
  Jwt_lib :: jwt_lib
  JWTManager :: jwt_manager
  Crypto :: crypto
  AuthDb :: auth_db
  DDL :: "string option"
  InserterURL :: string
  RateLimitPerMinute :: int
  StaticDir :: string

record env =
  e_now :: time
  e_clock :: clock
  e_net :: net
  e_auth_faults :: auth_faults
  e_get_faults :: sql_faults
  e_sql_faults :: sql_faults
  e_json :: json_codec
  e_stat :: file_system
  e_oor :: "f64 \<Rightarrow> int"

type_synonym api_handler = "(api_body, server) handler"

definition auth_env_of :: "deps \<Rightarrow> env \<Rightarrow> auth_env" where
  "auth_env_of d e = \<lparr>ae_jwt_lib = Jwt_lib d, ae_jwt = JWTManager d, ae_crypto = Crypto d,
     ae_store = AuthDb d, ae_faults = e_auth_faults e, ae_now = e_now e\<rparr>"

definition api_error :: "nat \<Rightarrow> string \<Rightarrow> api_body reply" where
  "api_error st message = Reply st (ErrorJson message)"

text \<open>The executor \<open>deps.DDL\<close>, as the dataset handlers see it.\<close>

definition executor :: "deps \<Rightarrow> env \<Rightarrow> ddl_executor" where
  "executor d e = map_option (\<lambda>url. Exec (e_net e) url) (DDL d)"

definition sent_ddl :: "deps \<Rightarrow> string list \<Rightarrow> http_request list" where
  "sent_ddl d stmts = (case DDL d of None \<Rightarrow> [] | Some url \<Rightarrow> map (ddl_request url) stmts)"

section \<open>routes.go: the handlers\<close>

definition healthHandler :: api_handler where
  "healthHandler r s = (Reply StatusOK (HealthJson ''ok''), s)"

definition loginHandler :: "deps \<Rightarrow> env \<Rightarrow> api_handler" where
  "loginHandler d e r s =
     (case decode_login (e_json e) (in_Body r) of
        Inl err \<Rightarrow> (api_error StatusBadRequest ''invalid JSON body'', s)
      | Inr req \<Rightarrow> (case VerifyPassword (Crypto d) (e_auth_faults e) (AuthDb d) (lr_Username req) (lr_Password req) of
          Inl err \<Rightarrow> (api_error StatusUnauthorized ''invalid username or password'', s)
        | Inr u \<Rightarrow> (case Issue (Jwt_lib d) (e_now e) (JWTManager d) (Username u) (u_Role u) of
            Inl err \<Rightarrow> (api_error StatusInternalServerError ''failed to issue session token'', s)
          | Inr token \<Rightarrow> (Reply StatusOK (LoginJson token (u_Role u)), s))))"

definition fmtWriteQueryResult :: "query_result \<Rightarrow> string" where
  "fmtWriteQueryResult res =
     ''{'' @ [dquote] @ ''row_count'' @ [dquote] @ '':'' @ show_int (int (qr_RowCount res))
     @ '','' @ [dquote] @ ''cached'' @ [dquote] @ '':'' @ (if qr_Cached res then ''true'' else ''false'')
     @ '','' @ [dquote] @ ''rows'' @ [dquote] @ '':['' @ join '','' (Rows res) @ '']}''"

definition queryHandler :: "env \<Rightarrow> api_handler" where
  "queryHandler e r s =
     (case decode_query (e_json e) (in_Body r) of
        Inl err \<Rightarrow> (api_error StatusBadRequest ''invalid JSON body'', s)
      | Inr sql \<Rightarrow>
          let subject = (case IdentityFromContext r of Some i \<Rightarrow> Subject i | None \<Rightarrow> []) in
          (case Execute (e_net e) (e_clock e) (sv_broker s) subject sql of
             (Inl err, b) \<Rightarrow>
               (api_error (if IsResourceExhausted err then StatusTooManyRequests
                           else if IsInvalidArgument err then StatusBadRequest
                           else StatusInternalServerError) (Error err), s\<lparr>sv_broker := b\<rparr>)
           | (Inr res, b) \<Rightarrow> (Reply StatusOK (RawJson (fmtWriteQueryResult res)), s\<lparr>sv_broker := b\<rparr>)))"

text \<open>The line loop of ingestion. A line may hold no record (blank), a record, the JSON \<open>null\<close>, whose
  nil map the assignment of the arrival time panics on, or something else, which ends the loop with
  a 400.\<close>

datatype ingest_lines = BadLine goerr | NilMap | Records "record_map list"

definition received_at :: "time \<Rightarrow> goval" where
  "received_at now = GNum (f64_of_int (now div Millisecond))"

fun read_records ::
  "(string \<Rightarrow> record_map option result) \<Rightarrow> time \<Rightarrow> string list \<Rightarrow> record_map list \<Rightarrow> ingest_lines" where
  "read_records dec now [] records = Records records"
| "read_records dec now (tok # toks) records =
     (let line = trim_space tok in
      if length line = 0 then read_records dec now toks records
      else (case dec line of
          Inl err \<Rightarrow> BadLine err
        | Inr None \<Rightarrow> NilMap
        | Inr (Some rec) \<Rightarrow>
            read_records dec now toks
              (records @ [AList.update ''received_at_unix_ms'' (received_at now) rec])))"

text \<open>\<open>bufio.NewScanner\<close> with its default buffer; the loop ends at the first line that does not fit,
  and \<open>scanner.Err()\<close> is not looked at.\<close>

definition MaxScanTokenSize :: nat where "MaxScanTokenSize = 64 * 1024"

text \<open>The last steps of ingestion: the table, once per process, then the rows.\<close>

definition ingest_records :: "deps \<Rightarrow> env \<Rightarrow> string \<Rightarrow> record_map list \<Rightarrow> server \<Rightarrow> api_body reply \<times> server" where
  "ingest_records d e name records s =
     (case EnsureDataset (e_oor e) (e_get_faults e) (e_sql_faults e) (e_now e) (sv_schemas s) name (hd records) of
        (Inl err, db) \<Rightarrow>
          (api_error StatusInternalServerError (''ensure dataset: '' @ Error err), s\<lparr>sv_schemas := db\<rparr>)
      | (Inr (def, _), db) \<Rightarrow>
          let s1 = s\<lparr>sv_schemas := db\<rparr>;
              stmts = (if DDL d \<noteq> None \<and> name \<notin> sv_ensured s then [GenerateDDL def] else []);
              s2 = s1\<lparr>sv_sent := sv_sent s1 @ sent_ddl d stmts\<rparr>;
              ddl_err = (if stmts = [] then None else snd (run_ddl (executor d e) (GenerateDDL def)))
          in (case ddl_err of
                Some err \<Rightarrow>
                  (api_error StatusInternalServerError (''create clickhouse table: '' @ Error err), s2)
              | None \<Rightarrow>
                  let s3 = (if stmts = [] then s2 else s2\<lparr>sv_ensured := insert name (sv_ensured s2)\<rparr>) in
                  (case Insert (encode_record (e_json e)) (e_net e) (InserterURL d) name records of
                     (Some err, sent) \<Rightarrow>
                       (api_error StatusInternalServerError (''insert failed: '' @ Error err),
                        s3\<lparr>sv_sent := sv_sent s3 @ sent\<rparr>)
                   | (None, sent) \<Rightarrow>
                       (Reply StatusAccepted (AcceptedJson (length records)),
                        s3\<lparr>sv_sent := sv_sent s3 @ sent\<rparr>))))"

text \<open>\<open>read_err\<close> is an error of reading the body after the bytes in \<open>in_Body\<close>.\<close>

definition ingestHandler :: "deps \<Rightarrow> env \<Rightarrow> string \<Rightarrow> goerr option \<Rightarrow> api_handler" where
  "ingestHandler d e name read_err r s =
     (case scan_lines MaxScanTokenSize (in_Body r) read_err of
        (toks, _) \<Rightarrow>
          (case read_records (decode_record (e_json e)) (e_now e) toks [] of
             BadLine err \<Rightarrow> (api_error StatusBadRequest (''invalid JSON line: '' @ Error err), s)
           | NilMap \<Rightarrow> (Panicked, s)
           | Records records \<Rightarrow>
               if length records = 0
               then (api_error StatusBadRequest ''no records in request body'', s)
               else ingest_records d e name records s))"

section \<open>routes.go: the router\<close>

definition datasetRBAC :: "(api_body, 's) handler \<Rightarrow> (api_body, 's) handler" where
  "datasetRBAC next_h r s =
     (case IdentityFromContext r of
        None \<Rightarrow> (api_error StatusUnauthorized ''authentication required'', s)
      | Some i \<Rightarrow>
          let m = (if in_Method r \<noteq> ''GET'' then RoleEngineer else RoleViewer) in
          if \<not> AtLeast (id_Role i) m then (api_error StatusForbidden ''insufficient role'', s)
          else next_h r s)"

definition schema_reply :: "schema_response \<Rightarrow> api_body reply" where
  "schema_reply resp = Reply (status resp) (SchemaJson (body resp))"

text \<open>\<open>http.ServeMux\<close> with method patterns: a GET pattern also takes HEAD; a path that only patterns
  of other methods match is a 405.\<close>

definition is_get :: "request_in \<Rightarrow> bool" where
  "is_get r \<longleftrightarrow> in_Method r = ''GET'' \<or> in_Method r = ''HEAD''"

definition mux_miss :: "nat \<Rightarrow> api_handler" where
  "mux_miss st r s = (Reply st NoBody, s)"

definition after_ddl :: "deps \<Rightarrow> server \<Rightarrow> schema_response \<times> schema_db \<times> string list \<Rightarrow> api_body reply \<times> server" where
  "after_ddl d s out =
     (case out of (resp, db, stmts) \<Rightarrow>
        (schema_reply resp, s\<lparr>sv_schemas := db, sv_sent := sv_sent s @ sent_ddl d stmts\<rparr>))"

definition Routes :: "deps \<Rightarrow> env \<Rightarrow> api_handler" where
  "Routes d e r s =
     (case drop 3 (in_Path r) of
        [] \<Rightarrow>
          if in_Method r = ''POST''
          then after_ddl d s (create_handler (executor d e) (e_sql_faults e) (e_now e) (sv_schemas s)
                 (decode_create (e_json e) (in_Body r)))
          else if is_get r then (schema_reply (list_handler (e_sql_faults e) (sv_schemas s)), s)
          else mux_miss StatusMethodNotAllowed r s
      | [name] \<Rightarrow>
          if name = [] then mux_miss StatusNotFound r s
          else if is_get r then (schema_reply (get_handler (e_sql_faults e) (sv_schemas s) name), s)
          else mux_miss StatusMethodNotAllowed r s
      | [name, what] \<Rightarrow>
          if name = [] then mux_miss StatusNotFound r s
          else if what = ''versions'' then
            (if is_get r then (schema_reply (versions_handler (e_sql_faults e) (sv_schemas s) name), s)
             else mux_miss StatusMethodNotAllowed r s)
          else if what = ''columns'' then
            (if in_Method r = ''POST''
             then after_ddl d s (addColumns_handler (executor d e) (e_sql_faults e) (e_now e) (sv_schemas s)
                    name (decode_columns (e_json e) (in_Body r)))
             else mux_miss StatusMethodNotAllowed r s)
          else mux_miss StatusNotFound r s
      | _ \<Rightarrow> mux_miss StatusNotFound r s)"

definition url_path :: "request_in \<Rightarrow> string" where
  "url_path r = slash # join [slash] (in_Path r)"

definition datasetFromPath :: "request_in \<Rightarrow> string" where
  "datasetFromPath r = in_Path r ! 3"

text \<open>What the mux does when no method pattern matches: the static files when they are mounted at the
  root, otherwise \<open>st\<close>.\<close>

definition static_or :: "deps \<Rightarrow> env \<Rightarrow> nat \<Rightarrow> api_handler" where
  "static_or d e st r s =
     (if staticDirAvailable (e_stat e) (StaticDir d)
      then (Reply StatusOK (StaticFile (SPAHandler (e_stat e) (StaticDir d) (url_path r))), s)
      else mux_miss st r s)"

definition mux :: "deps \<Rightarrow> env \<Rightarrow> goerr option \<Rightarrow> api_handler" where
  "mux d e read_err r s =
     (let path = in_Path r; authenticate = Authenticate ErrorJson (auth_env_of d e) in
      if path = [''api'', ''v1'', ''health''] then
        (if is_get r then healthHandler r s else static_or d e StatusMethodNotAllowed r s)
      else if path = [''api'', ''v1'', ''auth'', ''login''] then
        (if in_Method r = ''POST'' then loginHandler d e r s else static_or d e StatusMethodNotAllowed r s)
      else if path = [''api'', ''v1'', ''query''] then
        (if in_Method r = ''POST''
         then authenticate (RequireRole ErrorJson RoleViewer (queryHandler e)) r s
         else static_or d e StatusMethodNotAllowed r s)
      else if take 3 path = [''api'', ''v1'', ''datasets''] then
        authenticate (datasetRBAC (Routes d e)) r s
      else if length path = 4 \<and> take 3 path = [''api'', ''v1'', ''ingest''] \<and> path ! 3 \<noteq> [] then
        (if in_Method r = ''POST''
         then authenticate (RequireDatasetScope ErrorJson datasetFromPath
                (\<lambda>r'. ingestHandler d e (datasetFromPath r') read_err r')) r s
         else static_or d e StatusMethodNotAllowed r s)
      else static_or d e StatusNotFound r s)"

text \<open>\<open>ratelimit.go\<close>: the middleware, in front of everything when a limit is set.\<close>

definition RateLimit_mw :: "env \<Rightarrow> api_handler \<Rightarrow> api_handler" where
  "RateLimit_mw e next_h r s =
     (case allow (sv_limiter s) (e_now e) (ByRemoteIP (in_RemoteAddr r)) of
        (False, l) \<Rightarrow> (api_error StatusTooManyRequests ''rate limit exceeded'', s\<lparr>sv_limiter := l\<rparr>)
      | (True, l) \<Rightarrow> next_h r (s\<lparr>sv_limiter := l\<rparr>))"

definition NewRouter :: "deps \<Rightarrow> env \<Rightarrow> goerr option \<Rightarrow> api_handler" where
  "NewRouter d e read_err =
     (if RateLimitPerMinute d > 0 then RateLimit_mw e (mux d e read_err) else mux d e read_err)"

section \<open>server.go\<close>

record server_config =
  Addr :: string
  TLSCertFile :: string
  TLSKeyFile :: string
  DevCORS :: bool

text \<open>The headers a middleware sets, and what the handler gives: its reply and state, of whatever type.
  \<open>write_header\<close> makes the reply that has a status only.\<close>

definition corsMiddleware :: "(nat \<Rightarrow> 'r) \<Rightarrow> (request_in \<Rightarrow> 's \<Rightarrow> 'r \<times> 's) \<Rightarrow> request_in \<Rightarrow> 's
    \<Rightarrow> (string \<times> string) list \<times> 'r \<times> 's" where
  "corsMiddleware write_header next_h r s =
     ([(''Access-Control-Allow-Origin'', ''*''),
       (''Access-Control-Allow-Methods'', ''GET, POST, PUT, DELETE, OPTIONS''),
       (''Access-Control-Allow-Headers'', ''Authorization, Content-Type'')],
      if in_Method r = ''OPTIONS'' then (write_header StatusNoContent, s) else next_h r s)"

definition NewServer :: "(nat \<Rightarrow> 'r) \<Rightarrow> server_config \<Rightarrow> (request_in \<Rightarrow> 's \<Rightarrow> 'r \<times> 's) \<Rightarrow> request_in \<Rightarrow> 's
    \<Rightarrow> (string \<times> string) list \<times> 'r \<times> 's" where
  "NewServer write_header cfg h = (if DevCORS cfg then corsMiddleware write_header h else (\<lambda>r s. ([], h r s)))"

datatype listen_result = ErrServerClosed | ListenErr goerr

definition Start_server :: "server_config \<Rightarrow> (bool \<Rightarrow> listen_result option) \<Rightarrow> goerr option" where
  "Start_server cfg listen =
     (case listen (TLSCertFile cfg \<noteq> [] \<and> TLSKeyFile cfg \<noteq> []) of
        Some (ListenErr e) \<Rightarrow> Some (Wrap CodeInternal ''http server failed'' e)
      | _ \<Rightarrow> None)"

section \<open>Who can do what\<close>

interpretation rbac: guard datasetRBAC "refused ErrorJson {StatusUnauthorized, StatusForbidden}"
    "\<lambda>r r'. r' = r \<and> (\<exists>i. in_Identity r = Some i
        \<and> AtLeast (id_Role i) (if in_Method r \<noteq> ''GET'' then RoleEngineer else RoleViewer))"
proof
  fix r :: request_in
  let ?m = "if in_Method r \<noteq> ''GET'' then RoleEngineer else RoleViewer"
  show "(\<exists>rep. refused ErrorJson {StatusUnauthorized, StatusForbidden} rep
        \<and> (\<forall>h s. datasetRBAC h r s = (rep, s)))
      \<or> (\<exists>r'. (r' = r \<and> (\<exists>i. in_Identity r = Some i \<and> AtLeast (id_Role i) ?m))
           \<and> (\<forall>h s. datasetRBAC h r s = h r' s))"
  proof (cases "\<exists>i. in_Identity r = Some i \<and> AtLeast (id_Role i) ?m")
    case True
    then show ?thesis by (auto simp: datasetRBAC_def IdentityFromContext_def)
  next
    case False
    then show ?thesis
      by (cases "in_Identity r") (auto simp: datasetRBAC_def IdentityFromContext_def api_error_def refused_def)
  qed
qed

end
