(* ===== verification/ApiProps.thy ===== *)
theory ApiProps
  imports ApiRoutes
begin

text \<open>Properties of the HTTP API: who may change what, sessions from login to use, and what an
  accepted ingestion request guarantees.\<close>

section \<open>Access control\<close>

lemma Routes_get_keeps:
  assumes "in_Method r = ''GET''"
  shows "snd (Routes d e r s) = s"
proof -
  consider "drop 3 (in_Path r) = []" | n where "drop 3 (in_Path r) = [n]"
    | n w where "drop 3 (in_Path r) = [n, w]" | n w x xs where "drop 3 (in_Path r) = n # w # x # xs"
    by (metis list.exhaust)
  then show ?thesis
    using assms by cases (simp_all add: Routes_def is_get_def mux_miss_def)
qed

lemma after_ddl_broker [simp]: "sv_broker (snd (after_ddl d s out)) = sv_broker s"
  by (cases out) (simp add: after_ddl_def)

lemma Routes_broker: "sv_broker (snd (Routes d e r s)) = sv_broker s"
proof -
  consider "drop 3 (in_Path r) = []" | n where "drop 3 (in_Path r) = [n]"
    | n w where "drop 3 (in_Path r) = [n, w]" | n w x xs where "drop 3 (in_Path r) = n # w # x # xs"
    by (metis list.exhaust)
  then show ?thesis
    by cases (simp_all add: Routes_def mux_miss_def)
qed

lemma Authenticate_role:
  assumes "Authenticate err ae (datasetRBAC h) r s = (rep, s')" and "s' \<noteq> s"
    and "in_Method r = ''GET'' \<longrightarrow> (\<forall>r' s. in_Method r' = ''GET'' \<longrightarrow> snd (h r' s) = s)"
  shows "\<exists>i. credentials ae r i \<and> AtLeast (id_Role i) RoleEngineer"
proof -
  obtain i where c: "credentials ae r i"
    and a: "datasetRBAC h (r\<lparr>in_Identity := Some i\<rparr>) s = (rep, s')"
    using authn.state_kept_unless_approved [OF assms(1,2)] by blast
  from rbac.state_kept_unless_approved [OF a assms(2)]
  have al: "AtLeast (id_Role i) (if in_Method r \<noteq> ''GET'' then RoleEngineer else RoleViewer)"
    and h: "h (r\<lparr>in_Identity := Some i\<rparr>) s = (rep, s')" by auto
  have "in_Method r \<noteq> ''GET''"
  proof
    assume g: "in_Method r = ''GET''"
    then have "snd (h (r\<lparr>in_Identity := Some i\<rparr>) s) = s" using assms(3) by simp
    then show False using h assms(2) by simp
  qed
  then show ?thesis using al c by auto
qed

definition dataset_path :: "string list \<Rightarrow> bool" where
  "dataset_path p \<longleftrightarrow> take 3 p = [''api'', ''v1'', ''datasets'']"

definition ingest_path :: "string list \<Rightarrow> string \<Rightarrow> bool" where
  "ingest_path p n \<longleftrightarrow> p = [''api'', ''v1'', ''ingest'', n] \<and> n \<noteq> []"

lemma path4: "length p = 4 \<Longrightarrow> take 3 p = [a, b, c] \<Longrightarrow> p = [a, b, c, p ! 3]"
  by (auto simp: numeral_eq_Suc length_Suc_conv)

lemma queryHandler_keeps:
  "sv_schemas (snd (queryHandler e r s)) = sv_schemas s" "sv_sent (snd (queryHandler e r s)) = sv_sent s"
  by (simp_all add: queryHandler_def Let_def split: sum.split prod.split)

lemma ingest_records_broker: "sv_broker (snd (ingest_records d e n rs s)) = sv_broker s"
  by (simp add: ingest_records_def Let_def split: sum.split prod.split option.split)

lemma ingestHandler_broker: "sv_broker (snd (ingestHandler d e n re r s)) = sv_broker s"
  by (simp add: ingestHandler_def ingest_records_broker split: prod.split ingest_lines.split)

lemma mux_open:
  "snd (healthHandler r s) = s" "snd (loginHandler d e r s) = s" "snd (static_or d e st r s) = s"
  "fst (healthHandler r s) \<noteq> Reply st (SchemaJson b)" "fst (healthHandler r s) \<noteq> Reply st (RawJson t)"
  "fst (loginHandler d e r s) \<noteq> Reply st (SchemaJson b)" "fst (loginHandler d e r s) \<noteq> Reply st (RawJson t)"
  "fst (static_or d e x r s) \<noteq> Reply st (SchemaJson b)" "fst (static_or d e x r s) \<noteq> Reply st (RawJson t)"
  by (simp_all add: healthHandler_def loginHandler_def static_or_def mux_miss_def api_error_def
      split: sum.split)

text \<open>What every handler behind the mux obeys, the mux obeys.\<close>

lemma mux_obeys:
  assumes R: "\<And>s st m. st \<in> {StatusUnauthorized, StatusForbidden} \<Longrightarrow> R s (Reply st (ErrorJson m), s)"
    and "obeys R healthHandler" "\<And>st. st \<in> {StatusNotFound, StatusMethodNotAllowed} \<Longrightarrow> obeys R (static_or d e st)"
    and login: "in_Path r = [''api'', ''v1'', ''auth'', ''login''] \<Longrightarrow> in_Method r = ''POST'' \<Longrightarrow>
      R s (loginHandler d e r s)"
    and q: "obeys R (queryHandler e)" and ds: "obeys R (Routes d e)"
    and ingest: "\<And>n m. ingest_path (in_Path r) n \<Longrightarrow> in_Method r = ''POST'' \<Longrightarrow> obeys R (ingestHandler d e m re)"
  shows "R s (mux d e re r s)"
proof -
  have refusal: "R s (rep, s)"
    if "refused ErrorJson {StatusUnauthorized} rep \<or> refused ErrorJson {StatusUnauthorized, StatusForbidden} rep"
    for rep s using that R by (auto simp: refused_def)
  have auth: "obeys R (Authenticate ErrorJson ae h)" if "obeys R h" for ae h
    by (rule authn.obeys_wrap [OF that]) (use refusal in blast)
  have "obeys R (RequireRole ErrorJson m (queryHandler e))" for m
    by (rule role_guard.obeys_wrap [OF q]) (use refusal in blast)
  moreover have "obeys R (datasetRBAC (Routes d e))"
    by (rule rbac.obeys_wrap [OF ds]) (use refusal in blast)
  ultimately have "R s (Authenticate ErrorJson ae (RequireRole ErrorJson m (queryHandler e)) r s)"
    "R s (Authenticate ErrorJson ae (datasetRBAC (Routes d e)) r s)" for ae m
    using auth by (simp_all add: obeysD)
  moreover have "R s (Authenticate ErrorJson ae (RequireDatasetScope ErrorJson datasetFromPath
      (\<lambda>r'. ingestHandler d e (datasetFromPath r') re r')) r s)"
    if "ingest_path (in_Path r) (in_Path r ! 3)" "in_Method r = ''POST''" for ae
  proof -
    have "obeys R (\<lambda>r'. ingestHandler d e (datasetFromPath r') re r')"
      using ingest [OF that] by (simp add: obeys_def)
    then have "obeys R (RequireDatasetScope ErrorJson datasetFromPath
        (\<lambda>r'. ingestHandler d e (datasetFromPath r') re r'))"
      by (rule scope_guard.obeys_wrap) (use refusal in blast)
    then show ?thesis using auth by (simp add: obeysD)
  qed
  ultimately show ?thesis
    using assms(2,3) login path4 [of "in_Path r" "''api''" "''v1''" "''ingest''"]
    unfolding mux_def Let_def by (simp add: obeysD ingest_path_def)
qed

text \<open>A reply with data, that is, dataset definitions or query rows.\<close>

definition data_reply :: "api_body reply \<Rightarrow> bool" where
  "data_reply rep \<longleftrightarrow> (\<exists>st b. rep = Reply st (SchemaJson b)) \<or> (\<exists>st t. rep = Reply st (RawJson t))"

lemma mux_cases:
  obtains (unguarded) "snd (mux d e re r s) = s" "\<not> data_reply (fst (mux d e re r s))"
    | (query) "in_Path r = [''api'', ''v1'', ''query'']"
        "mux d e re r s = Authenticate ErrorJson (auth_env_of d e)
           (RequireRole ErrorJson RoleViewer (queryHandler e)) r s"
    | (datasets) "dataset_path (in_Path r)"
        "mux d e re r s = Authenticate ErrorJson (auth_env_of d e) (datasetRBAC (Routes d e)) r s"
    | (ingest) n where "ingest_path (in_Path r) n"
        "mux d e re r s = Authenticate ErrorJson (auth_env_of d e)
           (RequireDatasetScope ErrorJson datasetFromPath
              (\<lambda>r'. ingestHandler d e (datasetFromPath r') re r')) r s"
proof -
  let ?p = "in_Path r"
  consider (h) "?p = [''api'', ''v1'', ''health'']" | (l) "?p = [''api'', ''v1'', ''auth'', ''login'']"
    | (q) "?p = [''api'', ''v1'', ''query'']" | (d) "take 3 ?p = [''api'', ''v1'', ''datasets'']"
    | (i) "length ?p = 4 \<and> take 3 ?p = [''api'', ''v1'', ''ingest''] \<and> ?p ! 3 \<noteq> []"
    | (other) "?p \<noteq> [''api'', ''v1'', ''health'']" "?p \<noteq> [''api'', ''v1'', ''auth'', ''login'']"
        "?p \<noteq> [''api'', ''v1'', ''query'']" "take 3 ?p \<noteq> [''api'', ''v1'', ''datasets'']"
        "\<not> (length ?p = 4 \<and> take 3 ?p = [''api'', ''v1'', ''ingest''] \<and> ?p ! 3 \<noteq> [])"
    by blast
  then show thesis
  proof cases
    case h
    then show thesis by (intro unguarded) (simp_all add: mux_def Let_def mux_open data_reply_def)
  next
    case l
    then show thesis by (intro unguarded) (simp_all add: mux_def Let_def mux_open data_reply_def)
  next
    case q
    then show thesis
    proof (cases "in_Method r = ''POST''")
      case True
      then show thesis using q by (intro query) (simp_all add: mux_def Let_def)
    next
      case False
      then show thesis using q by (intro unguarded) (simp_all add: mux_def Let_def mux_open data_reply_def)
    qed
  next
    case d
    moreover from this have "?p \<noteq> [''api'', ''v1'', ''health'']" "?p \<noteq> [''api'', ''v1'', ''query'']"
      "?p \<noteq> [''api'', ''v1'', ''auth'', ''login'']" by auto
    ultimately show thesis by (intro datasets) (simp_all add: mux_def Let_def dataset_path_def)
  next
    case i
    then have p: "?p = [''api'', ''v1'', ''ingest'', ?p ! 3]" by (intro path4) auto
    obtain n where n: "?p = [''api'', ''v1'', ''ingest'', n]" "n \<noteq> []" using p i by metis
    show thesis
    proof (cases "in_Method r = ''POST''")
      case True
      then show thesis using n by (intro ingest [of n]) (simp_all add: mux_def Let_def ingest_path_def)
    next
      case False
      then show thesis using n by (intro unguarded) (simp_all add: mux_def Let_def mux_open data_reply_def)
    qed
  next
    case other
    then have "mux d e re r s = static_or d e StatusNotFound r s"
      unfolding mux_def Let_def by (simp only: if_False)
    then show thesis by (intro unguarded) (simp_all add: mux_open data_reply_def)
  qed
qed

text \<open>Who may do what, at the mux: a request for which something changed or data came back.\<close>

lemma mux_access:
  assumes m: "mux d e re r s = (rep, s')" and eff: "s' \<noteq> s \<or> data_reply rep"
  shows "\<exists>i. credentials (auth_env_of d e) r i
    \<and> (in_Path r = [''api'', ''v1'', ''query''] \<and> sv_schemas s' = sv_schemas s \<and> sv_sent s' = sv_sent s
     \<or> dataset_path (in_Path r) \<and> sv_broker s' = sv_broker s
        \<and> (s' \<noteq> s \<longrightarrow> AtLeast (id_Role i) RoleEngineer)
     \<or> (\<exists>n. ingest_path (in_Path r) n \<and> sv_broker s' = sv_broker s \<and> AllowsDataset i n))"
proof -
  have nodata: "\<not> data_reply rep'" if "refused ErrorJson sts rep'" for sts rep'
    using that by (auto simp: refused_def data_reply_def)
  have gate: "\<exists>i. credentials (auth_env_of d e) r i \<and> h (r\<lparr>in_Identity := Some i\<rparr>) s = (rep, s')"
    if "Authenticate ErrorJson (auth_env_of d e) h r s = (rep, s')" for h
    using eff nodata authn.state_kept_unless_approved [OF that] authn.success_means_approved [OF that]
    by blast
  show ?thesis
  proof (cases rule: mux_cases [of d e re r s])
    case unguarded
    then show ?thesis using m eff by simp
  next
    case query
    from gate [OF query(2) [unfolded m, symmetric]] obtain i where c: "credentials (auth_env_of d e) r i"
      and q: "RequireRole ErrorJson RoleViewer (queryHandler e) (r\<lparr>in_Identity := Some i\<rparr>) s = (rep, s')"
      by blast
    have "sv_schemas s' = sv_schemas s \<and> sv_sent s' = sv_sent s"
      by (rule role_guard.behind [OF _ _ q]) (use queryHandler_keeps in \<open>metis snd_conv\<close>, simp)
    then show ?thesis using c query(1) by blast
  next
    case datasets
    from gate [OF datasets(2) [unfolded m, symmetric]] obtain i where c: "credentials (auth_env_of d e) r i"
      and h: "datasetRBAC (Routes d e) (r\<lparr>in_Identity := Some i\<rparr>) s = (rep, s')" by blast
    have b: "sv_broker s' = sv_broker s"
      by (rule rbac.behind [OF _ _ h]) (use Routes_broker in \<open>metis snd_conv\<close>, simp)
    have "AtLeast (id_Role i) RoleEngineer" if ne: "s' \<noteq> s"
    proof -
      from rbac.state_kept_unless_approved [OF h ne]
      have "AtLeast (id_Role i) (if in_Method r \<noteq> ''GET'' then RoleEngineer else RoleViewer)"
        and rt: "Routes d e (r\<lparr>in_Identity := Some i\<rparr>) s = (rep, s')" by auto
      moreover have "in_Method r \<noteq> ''GET''"
        using Routes_get_keeps [of "r\<lparr>in_Identity := Some i\<rparr>" d e s] rt ne by auto
      ultimately show ?thesis by simp
    qed
    then show ?thesis using c b datasets(1) by blast
  next
    case (ingest n)
    from gate [OF ingest(2) [unfolded m, symmetric]] obtain i where c: "credentials (auth_env_of d e) r i"
      and h: "RequireDatasetScope ErrorJson datasetFromPath
        (\<lambda>r'. ingestHandler d e (datasetFromPath r') re r') (r\<lparr>in_Identity := Some i\<rparr>) s = (rep, s')" by blast
    have b: "sv_broker s' = sv_broker s"
      by (rule scope_guard.behind [OF _ _ h]) (use ingestHandler_broker in \<open>metis snd_conv\<close>, simp)
    have "AllowsDataset i (datasetFromPath r)"
      using eff nodata scope_guard.state_kept_unless_approved [OF h]
        scope_guard.success_means_approved [OF h] by (auto simp: datasetFromPath_def)
    moreover have "datasetFromPath r = n" using ingest(1) by (simp add: ingest_path_def datasetFromPath_def)
    ultimately show ?thesis using c b ingest(1) by blast
  qed
qed

text \<open>The API acts only for authorised callers. If a request, whatever it is, got dataset
  definitions or query rows back, or changed the dataset registry, the query broker or what was
  sent to ClickHouse, then it carried credentials that verified to an identity, and it was a query,
  or a dataset request whose role is at least engineer if anything changed, or an ingestion into a
  dataset the identity's scopes cover. (No role is asked of an ingestion, and no scope of a query or
  a dataset request.)\<close>

theorem only_authorised_requests_act:
  assumes "NewRouter d e re r s = (rep, s')"
    and "data_reply rep \<or> sv_schemas s' \<noteq> sv_schemas s \<or> sv_broker s' \<noteq> sv_broker s
      \<or> sv_sent s' \<noteq> sv_sent s"
  shows "\<exists>i. credentials (auth_env_of d e) r i
    \<and> (in_Path r = [''api'', ''v1'', ''query''] \<and> sv_schemas s' = sv_schemas s \<and> sv_sent s' = sv_sent s
     \<or> dataset_path (in_Path r) \<and> sv_broker s' = sv_broker s
        \<and> (sv_schemas s' \<noteq> sv_schemas s \<or> sv_sent s' \<noteq> sv_sent s \<longrightarrow> AtLeast (id_Role i) RoleEngineer)
     \<or> (\<exists>n. ingest_path (in_Path r) n \<and> sv_broker s' = sv_broker s \<and> AllowsDataset i n))"
proof -
  obtain l where m: "mux d e re r (s\<lparr>sv_limiter := l\<rparr>) = (rep, s')"
  proof (cases "RateLimitPerMinute d > 0")
    case True
    then show thesis
      using that assms
      by (cases "allow (sv_limiter s) (e_now e) (ByRemoteIP (in_RemoteAddr r))")
        (auto simp: NewRouter_def RateLimit_mw_def api_error_def data_reply_def split: bool.splits)
  next
    case False
    then show thesis using that [of "sv_limiter s"] assms(1) by (simp add: NewRouter_def)
  qed
  have "s' \<noteq> s\<lparr>sv_limiter := l\<rparr> \<or> data_reply rep" using assms(2) by auto
  from mux_access [OF m this] show ?thesis by auto
qed

section \<open>Sessions\<close>

text \<open>Logging in opens a session. A login answered with a token means the name and password
  verified; until one second before its time to live is over, a request bearing that token reaches
  the handler behind authentication with the user's name and role, and once it is over the token
  is no session any more, and is refused unless it happens to be the text of a stored API token.\<close>

theorem login_opens_session:
  assumes lib: "jwt_lib_ok (Jwt_lib d)"
    and login: "loginHandler d e r s = (Reply StatusOK (LoginJson tok role), s')" and "tok \<noteq> []"
    and bearer: "in_Authorization r2 = ''Bearer '' @ tok"
  shows "\<exists>req u. decode_login (e_json e) (in_Body r) = Inr req
    \<and> VerifyPassword (Crypto d) (e_auth_faults e) (AuthDb d) (lr_Username req) (lr_Password req) = Inr u
    \<and> role = u_Role u \<and> s' = s
    \<and> (e_now e2 \<le> e_now e + ttl (JWTManager d) - Second \<longrightarrow>
        (\<forall>(h :: api_handler) s2. Authenticate ErrorJson (auth_env_of d e2) h r2 s2 =
          h (r2\<lparr>in_Identity := Some \<lparr>Subject = Username u, id_Role = u_Role u, id_Scopes = [],
             ViaToken = False\<rparr>\<rparr>) s2))
    \<and> (e_now e2 \<ge> e_now e + ttl (JWTManager d) \<longrightarrow>
        (\<forall>i. credentials (auth_env_of d e2) r2 i \<longrightarrow> ViaToken i))"
proof -
  from login obtain req u where req: "decode_login (e_json e) (in_Body r) = Inr req"
    and u: "VerifyPassword (Crypto d) (e_auth_faults e) (AuthDb d) (lr_Username req) (lr_Password req) = Inr u"
    and tok: "Issue (Jwt_lib d) (e_now e) (JWTManager d) (Username u) (u_Role u) = Inr tok"
    and role: "role = u_Role u" "s' = s"
    by (auto simp: loginHandler_def api_error_def split: sum.splits)
  let ?v = "Verify (Jwt_lib d) (e_now e2) (JWTManager d) tok"
  obtain x where x: "x \<le> e_now e + ttl (JWTManager d)" "e_now e + ttl (JWTManager d) < x + Second"
    and v: "if e_now e2 < x then \<exists>c. ?v = Inr c \<and> cl_Username c = Username u \<and> cl_Role c = u_Role u
      else \<exists>err. ?v = Inl err"
    using Issue_Verify [OF lib tok, of "e_now e2"] by blast
  have early: "Authenticate ErrorJson (auth_env_of d e2) h r2 s2 =
        h (r2\<lparr>in_Identity := Some \<lparr>Subject = Username u, id_Role = u_Role u, id_Scopes = [],
           ViaToken = False\<rparr>\<rparr>) s2"
    if "e_now e2 \<le> e_now e + ttl (JWTManager d) - Second" for h :: api_handler and s2
  proof -
    have "e_now e2 < x" using x(2) that by simp
    then have "\<exists>c. ?v = Inr c \<and> cl_Username c = Username u \<and> cl_Role c = u_Role u" using v by simp
    then obtain c where "?v = Inr c" "cl_Username c = Username u" "cl_Role c = u_Role u" by blast
    then show ?thesis
      using bearer \<open>tok \<noteq> []\<close> by (simp add: Authenticate_def auth_env_of_def withIdentity_def cut_prefix_def)
  qed
  have late: "ViaToken i"
    if "e_now e2 \<ge> e_now e + ttl (JWTManager d)" "credentials (auth_env_of d e2) r2 i" for i
  proof -
    have "\<not> e_now e2 < x" using x(1) that(1) by simp
    then obtain err where "?v = Inl err" using v by auto
    then show ?thesis using that(2) bearer by (auto simp: credentials_def auth_env_of_def)
  qed
  show ?thesis using req u role early late by blast
qed

section \<open>Ingestion\<close>

lemma ingest_records_accepted:
  assumes "ingest_records d e n records s = (Reply StatusAccepted b, s')" and "records \<noteq> []"
  shows "b = AcceptedJson (length records)
    \<and> (\<exists>text ddl answer err. encode_records (encode_record (e_json e)) records [] = Inr text
        \<and> sv_sent s' = sv_sent s @ ddl @ [insert_request (InserterURL d) n text]
        \<and> (\<forall>q\<in>set ddl. rq_query q = [])
        \<and> client_do (e_net e) (insert_request (InserterURL d) n text) = Response StatusOK answer err)"
  using assms
  by (auto simp: ingest_records_def Let_def Insert_def api_error_def StatusAccepted_def
      StatusInternalServerError_def sent_ddl_def ddl_request_def
      split: sum.splits prod.splits option.splits http_outcome.splits if_splits)

definition stamped :: "time \<Rightarrow> record_map \<Rightarrow> bool" where
  "stamped now rec \<longleftrightarrow> map_of rec ''received_at_unix_ms'' = Some (received_at now)"

lemma stamped_update: "stamped now (AList.update ''received_at_unix_ms'' (received_at now) rec)"
  by (simp add: stamped_def AList.update_conv')

lemma read_records_stamped:
  "read_records dec now toks acc = Records records
   \<Longrightarrow> \<forall>rec\<in>set acc. stamped now rec
   \<Longrightarrow> (\<forall>rec\<in>set records. stamped now rec)
     \<and> length records = length acc + length (filter (\<lambda>t. trim_space t \<noteq> []) toks)"
proof (induction toks arbitrary: acc)
  case (Cons t toks)
  show ?case
  proof (cases "trim_space t = []")
    case True
    then show ?thesis using Cons by simp
  next
    case False
    have "\<exists>rec. dec (trim_space t) = Inr (Some rec)"
    proof (cases "dec (trim_space t)")
      case (Inl e)
      then show ?thesis using Cons.prems(1) False by simp
    next
      case (Inr o')
      then show ?thesis using Cons.prems(1) False by (cases o') simp_all
    qed
    then obtain rec where rec: "dec (trim_space t) = Inr (Some rec)" by blast
    then have rest: "read_records dec now toks
        (acc @ [AList.update ''received_at_unix_ms'' (received_at now) rec]) = Records records"
      using Cons.prems(1) False by simp
    show ?thesis using Cons.IH [OF rest] Cons.prems(2) stamped_update False by simp
  qed
qed simp

text \<open>An accepted ingestion was inserted. A 202 answer means: every line the scanner delivered that
  is not blank was a record, all of them were stamped with the arrival time, they went to ClickHouse
  in one INSERT into that dataset, one JSON line each and in order, after which only at most the
  CREATE statement had been sent, ClickHouse answered 200, and the number reported is their
  number.\<close>

theorem accepted_means_inserted:
  assumes "ingestHandler d e n read_err r s = (Reply StatusAccepted b, s')"
  shows "\<exists>records text ddl answer err.
      read_records (decode_record (e_json e)) (e_now e)
        (fst (scan_lines MaxScanTokenSize (in_Body r) read_err)) [] = Records records
    \<and> (\<forall>rec\<in>set records. stamped (e_now e) rec)
    \<and> length records = length (filter (\<lambda>t. trim_space t \<noteq> [])
        (fst (scan_lines MaxScanTokenSize (in_Body r) read_err)))
    \<and> b = AcceptedJson (length records) \<and> records \<noteq> []
    \<and> encode_records (encode_record (e_json e)) records [] = Inr text
    \<and> sv_sent s' = sv_sent s @ ddl @ [insert_request (InserterURL d) n text] \<and> (\<forall>q\<in>set ddl. rq_query q = [])
    \<and> client_do (e_net e) (insert_request (InserterURL d) n text) = Response StatusOK answer err"
proof -
  let ?toks = "fst (scan_lines MaxScanTokenSize (in_Body r) read_err)"
  have r: "\<exists>records. read_records (decode_record (e_json e)) (e_now e) ?toks [] = Records records
      \<and> records \<noteq> [] \<and> ingest_records d e n records s = (Reply StatusAccepted b, s')"
    using assms
    by (auto simp: ingestHandler_def api_error_def StatusAccepted_def StatusBadRequest_def
        split: prod.splits ingest_lines.splits if_splits)
  then obtain records where rr: "read_records (decode_record (e_json e)) (e_now e) ?toks [] = Records records"
    and ne: "records \<noteq> []" and ir: "ingest_records d e n records s = (Reply StatusAccepted b, s')" by blast
  have "(\<forall>rec\<in>set records. stamped (e_now e) rec)
     \<and> length records = length (filter (\<lambda>t. trim_space t \<noteq> []) ?toks)"
    using read_records_stamped [OF rr] by simp
  with ingest_records_accepted [OF ir ne] rr ne show ?thesis by blast
qed

section \<open>Two inputs ingestion mishandles\<close>

definition unlines :: "string list \<Rightarrow> string" where
  "unlines ls = concat (map (\<lambda>l. l @ [nl]) ls)"

lemma raw_lines_Cons: "nl \<notin> set l \<Longrightarrow> raw_lines (l @ nl # x) = l # raw_lines x"
  by (simp add: raw_lines_def split_on_append_sep Let_def)

lemma raw_lines_unlines:
  "\<forall>l\<in>set ls. nl \<notin> set l \<Longrightarrow> raw_lines (unlines ls @ x) = ls @ raw_lines x"
  by (induction ls) (simp_all add: unlines_def raw_lines_Cons)

lemma split_on_prefix: "nl \<notin> set big \<Longrightarrow> split_on nl rest = p # ps \<Longrightarrow> split_on nl (big @ rest) = (big @ p) # ps"
  by (induction big) auto

lemma raw_lines_big:
  assumes "nl \<notin> set big" "big \<noteq> []"
  shows "\<exists>first others. raw_lines (big @ rest) = first # others \<and> length big \<le> length first"
proof -
  obtain p ps where "split_on nl rest = p # ps" by (cases "split_on nl rest") auto
  from split_on_prefix [OF assms(1) this] assms(2) show ?thesis
    by (auto simp: raw_lines_def Let_def)
qed


lemma read_records_null:
  "\<forall>t\<in>set pre. trim_space t = [] \<or> (\<exists>rec. dec (trim_space t) = Inr (Some rec))
   \<Longrightarrow> trim_space t \<noteq> [] \<Longrightarrow> dec (trim_space t) = Inr None
   \<Longrightarrow> read_records dec now (pre @ t # post) acc = NilMap"
  by (induction pre arbitrary: acc) (auto simp: Let_def)

text \<open>The JSON text \<open>null\<close> on a line of its own brings the handler down. Decoding it succeeds with
  a nil map, and stamping that map panics: after any good lines, such a line means no answer at all
  (the server drops the connection), with nothing stored or sent.\<close>

theorem null_line_panics:
  assumes "scan_lines MaxScanTokenSize (in_Body r) read_err = (pre @ t # post, err)"
    and "\<forall>t\<in>set pre. trim_space t = [] \<or> (\<exists>rec. decode_record (e_json e) (trim_space t) = Inr (Some rec))"
    and "trim_space t \<noteq> []" "decode_record (e_json e) (trim_space t) = Inr None"
  shows "ingestHandler d e n read_err r s = (Panicked, s)"
  using read_records_null [OF assms(2,3,4)] assms(1) by (simp add: ingestHandler_def)

section \<open>Witnesses\<close>

definition sample_claims :: claims where
  "sample_claims = \<lparr>IssuedAt = 0, cl_ExpiresAt = 10000000000, cl_Subject = ''ana'',
     cl_Username = ''ana'', cl_Role = RoleEngineer\<rparr>"

definition sample_jwt_lib :: jwt_lib where
  "sample_jwt_lib = \<lparr>NewNumericDate = (\<lambda>t. t),
     SignedString = (\<lambda>alg s c. if c = sample_claims \<and> s = ''key'' then Inr ''tok'' else Inl (Plain [])),
     ParseWithClaims = (\<lambda>ms s now tok. if tok = ''tok'' \<and> s = ''key'' \<and> now < 10000000000
       then Inr (sample_claims, True) else Inl (Plain []))\<rparr>"

lemma sample_jwt_lib_ok: "jwt_lib_ok sample_jwt_lib"
  by (auto simp: jwt_lib_ok_def sample_jwt_lib_def sample_claims_def split: if_splits)

definition sample_deps :: deps where
  "sample_deps = \<lparr>Jwt_lib = sample_jwt_lib, JWTManager = \<lparr>secret = ''key'', ttl = 10000000000\<rparr>,
     Crypto = sample_crypto,
     AuthDb = \<lparr>users = [\<lparr>Username = ''ana'', PasswordHash = ''h:pw'', u_Role = RoleEngineer, u_CreatedAt = 0\<rparr>],
               api_tokens = []\<rparr>,
     DDL = Some ''http://ch'', InserterURL = ''http://ch'', RateLimitPerMinute = 10, StaticDir = []\<rparr>"

definition sample_json :: json_codec where
  "sample_json = \<lparr>decode_login = (\<lambda>_. Inr \<lparr>lr_Username = ''ana'', lr_Password = ''pw''\<rparr>),
     decode_query = (\<lambda>t. Inr t), decode_create = (\<lambda>_. Inl (Plain ''EOF'')),
     decode_columns = (\<lambda>_. Inl (Plain ''EOF'')),
     decode_record = (\<lambda>l. if l = ''null'' then Inr None else Inr (Some [(''msg'', GStr l)])),
     encode_record = (\<lambda>_. Inr ''{}'')\<rparr>"

definition sample_env :: "time \<Rightarrow> env" where
  "sample_env t = \<lparr>e_now = t, e_clock = sample_clock t, e_net = sample_net 200 [],
     e_auth_faults = auth_no_faults (Plain []), e_get_faults = no_faults (Plain []),
     e_sql_faults = no_faults (Plain []), e_json = sample_json, e_stat = (\<lambda>_. None), e_oor = amd64_oor\<rparr>"

definition sample_server :: server where
  "sample_server = \<lparr>sv_schemas = empty_db, sv_broker = sample_broker 0 0 [], sv_ensured = {},
     sv_limiter = newSlidingWindow 10, sv_sent = []\<rparr>"

definition sample_in :: "string \<Rightarrow> string list \<Rightarrow> string \<Rightarrow> request_in" where
  "sample_in m p text = \<lparr>in_Method = m, in_Path = p, in_RemoteAddr = ''10.0.0.1:99'',
     in_Authorization = ''Bearer tok'', in_Body = text, in_Identity = None\<rparr>"

lemma sample_session:
  "Verify sample_jwt_lib 5 \<lparr>secret = ''key'', ttl = 10000000000\<rparr> ''tok'' = Inr sample_claims"
  by (simp add: Verify_def sample_jwt_lib_def)

lemma only_authorised_requests_act_witness:
  "\<exists>rep s'. NewRouter sample_deps (sample_env 5) None (sample_in ''GET'' [''api'', ''v1'', ''datasets''] [])
      sample_server = (rep, s') \<and> data_reply rep
    \<and> (\<exists>i. credentials (auth_env_of sample_deps (sample_env 5))
            (sample_in ''GET'' [''api'', ''v1'', ''datasets''] []) i)"
proof -
  let ?r = "sample_in ''GET'' [''api'', ''v1'', ''datasets''] []"
  obtain rep s' where n: "NewRouter sample_deps (sample_env 5) None ?r sample_server = (rep, s')"
    by (cases "NewRouter sample_deps (sample_env 5) None ?r sample_server")
  have "allow (newSlidingWindow 10) 5 h = (True, l) \<Longrightarrow> True" for h l by simp
  have "data_reply rep"
    using n sample_session
    by (auto simp: NewRouter_def RateLimit_mw_def sample_deps_def sample_server_def allow_def
        newSlidingWindow_def Let_def mux_def sample_in_def Authenticate_def cut_prefix_def
        auth_env_of_def sample_env_def withIdentity_def datasetRBAC_def IdentityFromContext_def
        Routes_def is_get_def schema_reply_def data_reply_def)
  with only_authorised_requests_act [OF n] n show ?thesis by blast
qed

lemma login_opens_session_witness:
  "\<exists>r s'. loginHandler sample_deps (sample_env 0) r sample_server
      = (Reply StatusOK (LoginJson ''tok'' RoleEngineer), s')
    \<and> (\<forall>(h :: api_handler) s2. \<exists>r'. Authenticate ErrorJson (auth_env_of sample_deps (sample_env 5))
          h (sample_in ''GET'' [] []) s2 = h r' s2)"
proof -
  let ?r = "sample_in ''POST'' [''api'', ''v1'', ''auth'', ''login''] []"
  have l: "loginHandler sample_deps (sample_env 0) ?r sample_server
      = (Reply StatusOK (LoginJson ''tok'' RoleEngineer), sample_server)"
    by (simp add: loginHandler_def sample_env_def sample_json_def sample_deps_def VerifyPassword_def
        auth_no_faults_def tbl_select_def sample_crypto_def Issue_def sample_jwt_lib_def sample_claims_def)
  have lib: "jwt_lib_ok (Jwt_lib sample_deps)" using sample_jwt_lib_ok by (simp add: sample_deps_def)
  have b: "in_Authorization (sample_in ''GET'' [] []) = ''Bearer '' @ ''tok''" by (simp add: sample_in_def)
  have t: "e_now (sample_env 5) \<le> e_now (sample_env 0) + ttl (JWTManager sample_deps) - Second"
    by (simp add: sample_env_def sample_deps_def Second_def)
  from login_opens_session [OF lib l _ b, of "sample_env 5"] t l show ?thesis by blast
qed

lemma accepted_means_inserted_witness:
  "\<exists>s' text ddl. ingestHandler sample_deps (sample_env 5) ''logs'' None (sample_in ''POST'' [] ''hello'') sample_server
      = (Reply StatusAccepted (AcceptedJson 1), s')
    \<and> sv_sent s' = sv_sent sample_server @ ddl @ [insert_request (InserterURL sample_deps) ''logs'' text]"
proof -
  let ?rec = "AList.update ''received_at_unix_ms'' (received_at 5) [(''msg'', GStr ''hello'')]"
  have rd: "read_records (decode_record sample_json) 5 [''hello''] [] = Records [?rec]"
    by (simp add: sample_json_def trim_space_def is_space_def)
  have "distinct (map fst ?rec)" "''logs'' \<noteq> []" "?rec \<noteq> []" "[] \<notin> set (map fst ?rec)" by simp_all
  then obtain def db' where en: "EnsureDataset amd64_oor (no_faults (Plain [])) (no_faults (Plain [])) 5 empty_db
      ''logs'' ?rec = (Inr (def, True), db')"
    using EnsureDataset_creates [OF store_ok_empty history_empty] by blast
  obtain s' where i: "ingestHandler sample_deps (sample_env 5) ''logs'' None (sample_in ''POST'' [] ''hello'')
      sample_server = (Reply StatusAccepted (AcceptedJson 1), s')"
    using rd en
    by (simp add: ingestHandler_def scan_lines_def raw_lines_def sample_in_def MaxScanTokenSize_def
        drop_cr_def sample_env_def ingest_records_def sample_server_def sample_deps_def Let_def
        run_ddl_def executor_def Exec_def sample_net_def StatusOK_def Insert_def sample_json_def
        del: AList.update.simps)
  from accepted_means_inserted [OF i] i show ?thesis by blast
qed


lemma null_line_panics_witness:
  "ingestHandler sample_deps (sample_env 5) ''logs'' None (sample_in ''POST'' [] ''null'') sample_server
   = (Panicked, sample_server)"
  by (rule null_line_panics [where pre = "[]" and t = "''null''" and post = "[]" and err = None])
    (simp_all add: sample_in_def scan_lines_def raw_lines_def MaxScanTokenSize_def drop_cr_def
      trim_space_def is_space_def sample_env_def sample_json_def)

end
