(* ===== verification/ExecProcess.thy ===== *)
theory ExecProcess
  imports Contracts GoIo
begin

text \<open>
  \<open>engine/supervisor/exec_process.go\<close>: a supervised subprocess. The operating system is an argument
  of each operation: what starting the command gives, whether the signal could be sent, and what
  came first while \<open>Stop\<close> was waiting. \<open>ep_run\<close> is the \<open>cmd\<close>/\<open>done\<close>/\<open>waitErr\<close> triple: never started, live
  (\<open>done\<close> open), or exited with the error of \<open>cmd.Wait\<close> (\<open>done\<close> closed).
\<close>

text \<open>A \<open>HealthCheckFunc\<close>, with the network and the clock it reads as arguments.\<close>

type_synonym health_check = "net \<Rightarrow> time \<Rightarrow> health_result"

datatype proc_run = NeverStarted | Live | Exited "goerr option"

record exec_process =
  ep_name :: service_name
  ep_path :: string
  ep_args :: "string list"
  ep_dir :: string
  ep_env :: "string list"
  ep_healthCheck :: "health_check option"
  ep_stopGrace :: duration
  ep_run :: proc_run

datatype exec_option =
    WithDir string | WithEnv "string list" | WithStopGrace duration | WithHealthCheck health_check

fun apply_option :: "exec_option \<Rightarrow> exec_process \<Rightarrow> exec_process" where
  "apply_option (WithDir d) p = p\<lparr>ep_dir := d\<rparr>"
| "apply_option (WithEnv e) p = p\<lparr>ep_env := e\<rparr>"
| "apply_option (WithStopGrace d) p = p\<lparr>ep_stopGrace := d\<rparr>"
| "apply_option (WithHealthCheck h) p = p\<lparr>ep_healthCheck := Some h\<rparr>"

definition NewExecProcess :: "service_name \<Rightarrow> string \<Rightarrow> string list \<Rightarrow> exec_option list \<Rightarrow> exec_process" where
  "NewExecProcess n pth as opts =
     foldl (\<lambda>p o'. apply_option o' p)
       \<lparr>ep_name = n, ep_path = pth, ep_args = as, ep_dir = [], ep_env = [], ep_healthCheck = None,
        ep_stopGrace = 10 * Second, ep_run = NeverStarted\<rparr> opts"

text \<open>The command that is started: path, arguments, directory and environment (\<open>None\<close>: inherited).\<close>

definition command :: "string list \<Rightarrow> exec_process \<Rightarrow> string \<times> string list \<times> string option \<times> string list option" where
  "command os_environ p =
     (ep_path p, ep_args p, if ep_dir p \<noteq> [] then Some (ep_dir p) else None,
      if length (ep_env p) > 0 then Some (os_environ @ ep_env p) else None)"

definition proc_Start :: "goerr option \<Rightarrow> exec_process \<Rightarrow> goerr option \<times> exec_process" where
  "proc_Start start_err p =
     (case start_err of
        Some e \<Rightarrow> (Some (Errorf_w (''start '' @ ep_name p) e), p)
      | None \<Rightarrow> (None, p\<lparr>ep_run := Live\<rparr>))"

text \<open>The goroutine of \<open>Start\<close>: the command exits.\<close>

definition exits :: "goerr option \<Rightarrow> exec_process \<Rightarrow> exec_process" where
  "exits e p = (case ep_run p of Live \<Rightarrow> p\<lparr>ep_run := Exited e\<rparr> | _ \<Rightarrow> p)"

text \<open>\<open>Wait\<close>: no result while the process is live.\<close>

definition proc_Wait :: "exec_process \<Rightarrow> goerr option option" where
  "proc_Wait p =
     (case ep_run p of
        NeverStarted \<Rightarrow> Some (Some (Plain (ep_name p @ '': Wait called before Start'')))
      | Live \<Rightarrow> None
      | Exited e \<Rightarrow> Some e)"

text \<open>What the operating system makes of stopping a live process: it is gone when the termination
  signal is sent, or after the signal it exits first, or its grace is over first, or the context is
  done first (then it is killed and not waited for, so it may still be live on return).\<close>

datatype stop_race =
    Gone "goerr option" | ExitsInTime "goerr option" | GraceOver "goerr option" | ContextDone goerr

datatype os_action = Sigterm | Kill

definition proc_Stop :: "stop_race \<Rightarrow> exec_process \<Rightarrow> goerr option \<times> os_action list \<times> exec_process" where
  "proc_Stop race p =
     (case ep_run p of
        NeverStarted \<Rightarrow> (None, [], p)
      | Exited _ \<Rightarrow> (None, [], p)
      | Live \<Rightarrow> (case race of
          Gone e \<Rightarrow> (None, [], exits e p)
        | ExitsInTime e \<Rightarrow> (None, [Sigterm], exits e p)
        | GraceOver e \<Rightarrow> (None, [Sigterm, Kill], exits e p)
        | ContextDone err \<Rightarrow> (Some err, [Sigterm, Kill], p)))"

definition proc_Health :: "net \<Rightarrow> time \<Rightarrow> exec_process \<Rightarrow> health_result" where
  "proc_Health w now p =
     (case ep_healthCheck p of
        Some h \<Rightarrow> h w now
      | None \<Rightarrow> (case ep_run p of
          NeverStarted \<Rightarrow> Inr \<lparr>hs_service = ep_name p, hs_state = HealthUnknown, hs_message = [], hs_checked_at = now\<rparr>
        | Exited _ \<Rightarrow> Inr \<lparr>hs_service = ep_name p, hs_state = HealthUnhealthy,
              hs_message = ''process exited'', hs_checked_at = now\<rparr>
        | Live \<Rightarrow> Inr \<lparr>hs_service = ep_name p, hs_state = HealthHealthy, hs_message = [], hs_checked_at = now\<rparr>))"

section \<open>What the supervisor relies on\<close>

text \<open>The \<open>Process\<close> interface: a started process runs, one that was stopped without an error does not
  (the operating system's part in stopping is \<open>'os\<close>), and \<open>Wait\<close> is over exactly when the process
  does not run.\<close>

locale process =
  fixes running :: "'p \<Rightarrow> bool"
    and start :: "goerr option \<Rightarrow> 'p \<Rightarrow> goerr option \<times> 'p"
    and stop :: "'os \<Rightarrow> 'p \<Rightarrow> goerr option \<times> 'p"
    and wait :: "'p \<Rightarrow> goerr option option"
  assumes started: "start None p = (e, p') \<Longrightarrow> e = None \<and> running p'"
    and not_started: "start (Some x) p = (e, p') \<Longrightarrow> e \<noteq> None \<and> p' = p"
    and stopped: "stop os p = (None, p') \<Longrightarrow> \<not> running p'"
    and stop_only: "stop os p = (e, p') \<Longrightarrow> running p' \<Longrightarrow> running p"
    and waits: "wait p = None \<longleftrightarrow> running p"
begin

lemma wait_after_stop: "stop os p = (None, p') \<Longrightarrow> wait p' \<noteq> None"
  using stopped waits by blast

lemma start_runs: "start x p = (None, p') \<Longrightarrow> running p'"
  using started [of p None p'] not_started [of _ p None p'] by (cases x) blast+

end

definition is_live :: "exec_process \<Rightarrow> bool" where
  "is_live p \<longleftrightarrow> ep_run p = Live"

definition Stop_result :: "stop_race \<Rightarrow> exec_process \<Rightarrow> goerr option \<times> exec_process" where
  "Stop_result race p = (case proc_Stop race p of (e, _, p') \<Rightarrow> (e, p'))"

interpretation ep: process is_live proc_Start Stop_result proc_Wait
  by unfold_locales
    (auto simp: is_live_def proc_Start_def Stop_result_def proc_Stop_def proc_Wait_def exits_def
      split: proc_run.splits stop_race.splits if_splits)

text \<open>Stopping a subprocess. When \<open>Stop\<close> returns without an error the process does not run,
  whichever way the operating system reacted; the only error is that of the context, and then the
  process has been sent the kill signal. It is asked to terminate before it is ever killed, killed
  only when its grace is over or the context is done, and never signalled when it does not run.\<close>

theorem proc_Stop_graceful:
  assumes "proc_Stop race p = (err, actions, p')"
  shows "(err = None \<longrightarrow> \<not> is_live p' \<and> proc_Wait p' \<noteq> None)
    \<and> (\<forall>e. err = Some e \<longrightarrow> race = ContextDone e \<and> last actions = Kill)
    \<and> actions \<in> {[], [Sigterm], [Sigterm, Kill]}
    \<and> (\<not> is_live p \<longrightarrow> actions = [] \<and> p' = p)
    \<and> (Kill \<in> set actions \<longrightarrow> is_live p \<and> (\<exists>e. race = GraceOver e \<or> (\<exists>c. race = ContextDone c)))"
  using assms
  by (auto simp: proc_Stop_def is_live_def proc_Wait_def exits_def
      split: proc_run.splits stop_race.splits)

lemma proc_Stop_graceful_witness:
  "\<exists>err actions p'. proc_Stop (GraceOver None)
        (snd (proc_Start None (NewExecProcess ''ch'' ''/bin/ch'' [] [WithStopGrace 5]))) = (err, actions, p')
     \<and> (err = None \<longrightarrow> \<not> is_live p')"
proof -
  let ?p = "snd (proc_Start None (NewExecProcess ''ch'' ''/bin/ch'' [] [WithStopGrace 5]))"
  obtain err actions p' where s: "proc_Stop (GraceOver None) ?p = (err, actions, p')"
    by (cases "proc_Stop (GraceOver None) ?p")
  from proc_Stop_graceful [OF s, THEN conjunct1] s show ?thesis by blast
qed

end
