(* ===== verification/Supervisor.thy ===== *)
theory Supervisor
  imports ExecProcess GoFloat
begin

text \<open>
  \<open>engine/supervisor/supervisor.go\<close>: ordered start with health gating, reverse stop, status, and the
  watcher that restarts a process after a crash. \<open>Start\<close> and \<open>Stop\<close> are functions of what the outside
  does while they run (\<open>start_oracle\<close>, \<open>stop_oracle\<close>); the watcher and a stop that run at the same time
  are a step relation on the state of one registration.
\<close>

section \<open>Backoff\<close>

record backoff =
  Initial :: duration
  Max :: duration
  Multiplier :: f64

definition DefaultBackoff :: backoff where
  "DefaultBackoff = \<lparr>Initial = 500 * Millisecond, Max = 30 * Second, Multiplier = F64 2 0\<rparr>"

definition zero_backoff :: backoff where
  "zero_backoff = \<lparr>Initial = 0, Max = 0, Multiplier = F64 0 0\<rparr>"

text \<open>\<open>oor\<close>: what the platform makes of a float outside the range of a duration.\<close>

definition next_delay :: "(f64 \<Rightarrow> int) \<Rightarrow> backoff \<Rightarrow> duration \<Rightarrow> duration" where
  "next_delay oor b current =
     (if current \<le> 0 then Initial b
      else
        let n = f64_to_int64 oor (f64_mult (f64_of_int current) (Multiplier b)) in
        if n > Max b then Max b else n)"

section \<open>Registrations, Start and Status\<close>

record registration =
  rg_process :: exec_process
  rg_readyTimeout :: duration
  rg_backoff :: backoff
  rg_stopping :: bool
  rg_watched :: bool

type_synonym supervisor = "registration list"

definition Register :: "supervisor \<Rightarrow> exec_process \<Rightarrow> duration \<Rightarrow> backoff \<Rightarrow> supervisor" where
  "Register s p readyTimeout b =
     s @ [\<lparr>rg_process = p,
           rg_readyTimeout = (if readyTimeout \<le> 0 then 30 * Second else readyTimeout),
           rg_backoff = (if b = zero_backoff then DefaultBackoff else b),
           rg_stopping = False, rg_watched = False\<rparr>]"

text \<open>One round of the waiting loop: the health report, the clock after it, and the context's error
  if it is done before the next tick.\<close>

record poll =
  p_health :: health_result
  p_now :: time
  p_ctx :: "goerr option"

text \<open>No result: still waiting after all these rounds. \<open>dur\<close> renders a duration.\<close>

fun awaitHealthy :: "(duration \<Rightarrow> string) \<Rightarrow> service_name \<Rightarrow> duration \<Rightarrow> time \<Rightarrow> poll list \<Rightarrow> goerr option option" where
  "awaitHealthy dur n timeout deadline [] = None"
| "awaitHealthy dur n timeout deadline (p # ps) =
     (if reports_healthy (p_health p) then Some None
      else if p_now p > deadline
      then Some (Some (Plain (n @ '' did not become healthy within '' @ dur timeout)))
      else (case p_ctx p of
              Some e \<Rightarrow> Some (Some e)
            | None \<Rightarrow> awaitHealthy dur n timeout deadline ps))"

record start_oracle =
  so_start :: "goerr option"
  so_begin :: time
  so_polls :: "poll list"

datatype event = Started service_name | Healthy service_name

text \<open>What happened in order, the registrations afterwards, and the result (no result: still waiting
  for the last one started).\<close>

fun Start :: "(duration \<Rightarrow> string) \<Rightarrow> supervisor \<Rightarrow> start_oracle list
    \<Rightarrow> event list \<times> supervisor \<times> goerr option option" where
  "Start dur [] os = ([], [], Some None)"
| "Start dur (reg # regs) [] = ([], reg # regs, None)"
| "Start dur (reg # regs) (o' # os) =
     (let n = ep_name (rg_process reg) in
      case proc_Start (so_start o') (rg_process reg) of
        (Some e, p) \<Rightarrow> ([], reg\<lparr>rg_process := p\<rparr> # regs, Some (Some (Errorf_w (''start '' @ n) e)))
      | (None, p) \<Rightarrow>
          let reg1 = reg\<lparr>rg_process := p, rg_watched := True\<rparr> in
          (case awaitHealthy dur n (rg_readyTimeout reg) (so_begin o' + rg_readyTimeout reg) (so_polls o') of
             None \<Rightarrow> ([Started n], reg1 # regs, None)
           | Some (Some e) \<Rightarrow> ([Started n], reg1 # regs, Some (Some e))
           | Some None \<Rightarrow>
               (case Start dur regs os of
                  (evs, regs', out) \<Rightarrow> ([Started n, Healthy n] @ evs, reg1 # regs', out))))"

definition Status :: "time \<Rightarrow> (exec_process \<Rightarrow> health_result) \<Rightarrow> supervisor \<Rightarrow> health_status list" where
  "Status now health s =
     map (\<lambda>reg. case health (rg_process reg) of
            Inr st \<Rightarrow> st
          | Inl e \<Rightarrow> \<lparr>hs_service = ep_name (rg_process reg), hs_state = HealthUnknown,
                      hs_message = Error e, hs_checked_at = now\<rparr>) s"

section \<open>Stop\<close>

text \<open>How stopping one process goes, and whether its watcher ends afterwards (if it does not, \<open>Stop\<close>
  waits for it for ever).\<close>

record stop_oracle =
  st_race :: stop_race
  st_watch_ends :: bool

text \<open>The loop over the registrations in the order it visits them: who was stopped, the registrations
  afterwards, and the first error (no result: blocked on a watcher).\<close>

fun stop_loop :: "(registration \<times> stop_oracle) list \<Rightarrow> goerr option
    \<Rightarrow> service_name list \<times> registration list \<times> goerr option option" where
  "stop_loop [] firstErr = ([], [], Some firstErr)"
| "stop_loop ((reg, o') # rest) firstErr =
     (let n = ep_name (rg_process reg) in
      case proc_Stop (st_race o') (rg_process reg) of
        (err, _, p) \<Rightarrow>
          let reg1 = reg\<lparr>rg_stopping := True, rg_process := p\<rparr>;
              firstErr1 = (case (err, firstErr) of
                  (Some e, None) \<Rightarrow> Some (Errorf_w (''stop '' @ n) e)
                | _ \<Rightarrow> firstErr)
          in if rg_watched reg \<and> \<not> st_watch_ends o' then ([n], reg1 # map fst rest, None)
             else (case stop_loop rest firstErr1 of (ns, regs, out) \<Rightarrow> (n # ns, reg1 # regs, out)))"

definition Stop :: "supervisor \<Rightarrow> stop_oracle list \<Rightarrow> service_name list \<times> supervisor \<times> goerr option option" where
  "Stop s os = (case stop_loop (rev (zip s os)) None of (ns, regs, out) \<Rightarrow> (ns, rev regs, out))"

section \<open>Properties of the delays\<close>

lemma f64_of_int_mult_two: "\<bar>i\<bar> < 2 ^ 52 \<Longrightarrow> f64_mult (f64_of_int i) (F64 2 0) = F64 (i * 2) 0"
  by simp

lemma next_delay_default:
  assumes "0 < d" "d \<le> 30 * Second"
  shows "next_delay oor DefaultBackoff d = min (2 * d) (30 * Second)"
proof -
  have d: "\<bar>d\<bar> < 9007199254740992" "\<bar>d * 2\<bar> < 9007199254740992" using assms by (simp_all add: Second_def)
  then have "f64_mult (f64_of_int d) (F64 2 0) = F64 (d * 2) 0" by simp
  moreover have "in_int64 (d * 2)" using assms by (simp add: in_int64_def Second_def)
  ultimately show ?thesis
    using assms by (simp add: next_delay_def DefaultBackoff_def f64_to_int64_def Let_def min_def)
qed

text \<open>Restart delays. No delay exceeds the larger of the initial and the maximal one, whatever the
  multiplier; and with the default backoff (what a registration with a zero one gets) the delay
  before the n-th restart in a row is 500 milliseconds doubled n - 1 times, capped at 30 seconds.\<close>

theorem backoff_delays:
  "next_delay oor b d \<le> max (Initial b) (Max b)
   \<and> (next_delay oor DefaultBackoff ^^ Suc n) 0 = min (500 * Millisecond * 2 ^ n) (30 * Second)
   \<and> rg_backoff (last (Register s p t zero_backoff)) = DefaultBackoff"
proof (intro conjI)
  show "next_delay oor b d \<le> max (Initial b) (Max b)"
    by (auto simp: next_delay_def Let_def le_max_iff_disj)
  show "(next_delay oor DefaultBackoff ^^ Suc n) 0 = min (500 * Millisecond * 2 ^ n) (30 * Second)"
  proof (induction n)
    case 0
    show ?case by (simp add: next_delay_def DefaultBackoff_def time_units)
  next
    case (Suc n)
    let ?d = "min (500 * Millisecond * 2 ^ n) (30 * Second)"
    have "next_delay oor DefaultBackoff ?d = min (2 * ?d) (30 * Second)"
      by (rule next_delay_default) (simp_all add: time_units)
    also have "\<dots> = min (500 * Millisecond * 2 ^ Suc n) (30 * Second)"
      by (auto simp: min_def Second_def)
    finally show ?case using Suc by simp
  qed
  show "rg_backoff (last (Register s p t zero_backoff)) = DefaultBackoff"
    by (simp add: Register_def)
qed

section \<open>Properties of starting and stopping\<close>

lemma awaitHealthy_decides:
  "p \<in> set ps \<Longrightarrow> p_now p > deadline \<Longrightarrow> awaitHealthy dur n t deadline ps \<noteq> None"
  by (induction ps) (auto split: option.split)

lemma awaitHealthy_ready:
  "awaitHealthy dur n t deadline ps = Some None \<Longrightarrow> \<exists>p\<in>set ps. reports_healthy (p_health p)"
  by (induction ps) (auto split: if_splits option.splits)

definition rg_name :: "registration \<Rightarrow> service_name" where
  "rg_name r = ep_name (rg_process r)"

definition full_start :: "supervisor \<Rightarrow> event list" where
  "full_start s = concat (map (\<lambda>r. [Started (rg_name r), Healthy (rg_name r)]) s)"

definition launched :: "event list \<Rightarrow> nat" where
  "launched evs = length (filter (\<lambda>e. case e of Started _ \<Rightarrow> True | Healthy _ \<Rightarrow> False) evs)"

lemma proc_Start_cases:
  "proc_Start x p = (e, p') \<Longrightarrow> (e = None \<and> is_live p' \<and> ep_name p' = ep_name p) \<or> (e \<noteq> None \<and> p' = p)"
  by (auto simp: proc_Start_def is_live_def split: option.splits)

lemma start_gated:
  assumes "Start dur s os = (evs, s', out)"
  shows "prefix evs (full_start s)
    \<and> (out = Some None \<longleftrightarrow> evs = full_start s)
    \<and> length s' = length s
    \<and> (\<forall>i<length s. if i < launched evs then is_live (rg_process (s' ! i)) \<and> rg_watched (s' ! i)
                    else s' ! i = s ! i)"
  using assms
proof (induction dur s os arbitrary: evs s' out rule: Start.induct)
  case (3 dur reg regs o' os)
  let ?n = "ep_name (rg_process reg)"
  obtain e p where ps: "proc_Start (so_start o') (rg_process reg) = (e, p)"
    by (cases "proc_Start (so_start o') (rg_process reg)")
  show ?case
  proof (cases e)
    case (Some x)
    then have "p = rg_process reg" using proc_Start_cases [OF ps] by simp
    then show ?thesis using 3(2) ps Some by (auto simp: full_start_def rg_name_def launched_def)
  next
    case None
    then have live: "is_live p" using proc_Start_cases [OF ps] by simp
    let ?reg1 = "reg\<lparr>rg_process := p, rg_watched := True\<rparr>"
    let ?w = "awaitHealthy dur ?n (rg_readyTimeout reg) (so_begin o' + rg_readyTimeout reg) (so_polls o')"
    have stuck: ?thesis if "evs = [Started ?n]" "s' = ?reg1 # regs" "out \<noteq> Some None"
      using that live
      by (auto simp: full_start_def rg_name_def launched_def nth_Cons split: nat.splits)
    show ?thesis
    proof (cases ?w)
      case w: None
      then show ?thesis using 3(2) ps None by (intro stuck) (simp_all add: Let_def)
    next
      case w: (Some r)
      show ?thesis
      proof (cases r)
        case r: (Some x)
        then show ?thesis using 3(2) ps None w by (intro stuck) (auto simp: Let_def)
      next
        case r: None
        obtain evs1 regs1 where rec: "Start dur regs os = (evs1, regs1, out)"
          and e: "evs = [Started ?n, Healthy ?n] @ evs1" "s' = ?reg1 # regs1"
          using 3(2) ps None w r by (auto simp: Let_def split: prod.splits)
        have "prefix evs1 (full_start regs) \<and> (out = Some None \<longleftrightarrow> evs1 = full_start regs)
          \<and> length regs1 = length regs
          \<and> (\<forall>i<length regs. if i < launched evs1 then is_live (rg_process (regs1 ! i)) \<and> rg_watched (regs1 ! i)
                else regs1 ! i = regs ! i)"
          by (rule 3(1) [OF refl ps [symmetric] None refl w r rec])
        then show ?thesis
          using e live by (auto simp: full_start_def rg_name_def launched_def nth_Cons split: nat.splits)
      qed
    qed
  qed
qed (auto simp: full_start_def launched_def)

text \<open>Ordered, health-gated start. Whatever the processes do, what happens is an initial part of:
  the first process starts, reports healthy, the second one starts, and so on in registration
  order; a process is started only after every one before it has reported healthy. \<open>Start\<close> returns
  without an error exactly when all of it has happened. Exactly the processes that were started
  are live with a watcher, also after an error; the others are untouched.\<close>

theorem Start_ordered_and_gated:
  assumes "Start dur s os = (evs, s', out)"
  shows "prefix evs (full_start s)
    \<and> (out = Some None \<longleftrightarrow> evs = full_start s)
    \<and> length s' = length s
    \<and> (\<forall>i<length s. if i < launched evs then is_live (rg_process (s' ! i)) \<and> rg_watched (s' ! i)
                    else s' ! i = s ! i)"
  by (rule start_gated [OF assms])

lemma Start_ordered_and_gated_witness:
  "\<exists>evs s' out. Start (\<lambda>_. ''30s'')
      (Register (Register [] (NewExecProcess ''rp'' ''/rp'' [] []) 0 zero_backoff)
         (NewExecProcess ''ch'' ''/ch'' [] []) 0 zero_backoff)
      [\<lparr>so_start = None, so_begin = 0, so_polls = [\<lparr>p_health = Inl (Plain ''refused''), p_now = 31 * Second, p_ctx = None\<rparr>]\<rparr>]
      = (evs, s', out) \<and> evs = [Started ''rp''] \<and> prefix evs [Started ''rp'', Healthy ''rp'', Started ''ch'', Healthy ''ch'']"
proof -
  let ?s = "Register (Register [] (NewExecProcess ''rp'' ''/rp'' [] []) 0 zero_backoff)
         (NewExecProcess ''ch'' ''/ch'' [] []) 0 zero_backoff"
  let ?o = "[\<lparr>so_start = None, so_begin = 0, so_polls = [\<lparr>p_health = Inl (Plain ''refused''), p_now = 31 * Second, p_ctx = None\<rparr>]\<rparr>]"
  obtain evs s' out where st: "Start (\<lambda>_. ''30s'') ?s ?o = (evs, s', out)" by (cases "Start (\<lambda>_. ''30s'') ?s ?o")
  have "full_start ?s = [Started ''rp'', Healthy ''rp'', Started ''ch'', Healthy ''ch'']"
    by (simp add: full_start_def Register_def rg_name_def NewExecProcess_def)
  moreover have "evs = [Started ''rp'']"
    using st by (auto simp: Register_def NewExecProcess_def proc_Start_def reports_healthy_def time_units Let_def)
  ultimately show ?thesis using Start_ordered_and_gated [OF st, THEN conjunct1] st by simp
qed

lemma stop_loop_result:
  "stop_loop ros firstErr = (ns, regs, Some out) \<Longrightarrow>
   ns = map (\<lambda>(r, o'). rg_name r) ros \<and> length regs = length ros
   \<and> (\<forall>i<length ros. rg_stopping (regs ! i) \<and> rg_name (regs ! i) = rg_name (fst (ros ! i))
        \<and> (is_live (rg_process (regs ! i)) \<longrightarrow> is_live (rg_process (fst (ros ! i)))
            \<and> (\<exists>e. st_race (snd (ros ! i)) = ContextDone e)))
   \<and> (out = None \<longrightarrow> firstErr = None \<and> (\<forall>r\<in>set regs. \<not> is_live (rg_process r)))"
proof (induction ros firstErr arbitrary: ns regs rule: stop_loop.induct)
  case (2 reg o' rest firstErr)
  obtain err acts p where ps: "proc_Stop (st_race o') (rg_process reg) = (err, acts, p)"
    by (cases "proc_Stop (st_race o') (rg_process reg)")
  let ?f1 = "case err of None \<Rightarrow> firstErr | Some e \<Rightarrow> (case firstErr of
      None \<Rightarrow> Some (Errorf_w (''stop '' @ ep_name (rg_process reg)) e) | Some a \<Rightarrow> firstErr)"
  let ?reg1 = "reg\<lparr>rg_stopping := True, rg_process := p\<rparr>"
  have nb: "\<not> (rg_watched reg \<and> \<not> st_watch_ends o')"
    using 2(2) ps by (auto simp: Let_def split: if_splits)
  obtain ns1 regs1 where rec: "stop_loop rest ?f1 = (ns1, regs1, Some out)"
    and e: "ns = ep_name (rg_process reg) # ns1" "regs = ?reg1 # regs1"
    using 2(2) ps nb by (auto simp: Let_def split: prod.splits)
  have p: "ep_name p = ep_name (rg_process reg)"
    "is_live p \<Longrightarrow> is_live (rg_process reg) \<and> (\<exists>e. st_race o' = ContextDone e) \<and> err \<noteq> None"
    using ps by (auto simp: proc_Stop_def is_live_def exits_def split: proc_run.splits stop_race.splits)
  note IH = 2(1) [OF refl ps [symmetric] refl refl refl nb rec]
  have "?f1 = None \<longleftrightarrow> firstErr = None \<and> err = None" by (auto split: option.split)
  then show ?case
    using IH p e by (auto simp: rg_name_def nth_Cons split: nat.splits)
qed auto

lemma stop_all:
  assumes "Stop s os = (ns, s', Some out)" and "length os = length s"
  shows "ns = rev (map rg_name s) \<and> map rg_name s' = map rg_name s \<and> (\<forall>r\<in>set s'. rg_stopping r)
    \<and> (out = None \<longrightarrow> (\<forall>r\<in>set s'. \<not> is_live (rg_process r)))
    \<and> (\<forall>r\<in>set s'. is_live (rg_process r) \<longrightarrow> (\<exists>o'\<in>set os. \<exists>e. st_race o' = ContextDone e))"
proof -
  let ?z = "rev (zip s os)"
  obtain regs where l: "stop_loop ?z None = (ns, regs, Some out)" and s': "s' = rev regs"
    using assms(1) by (auto simp: Stop_def split: prod.splits)
  note r = stop_loop_result [OF l]
  have names: "map (\<lambda>(r, o'). rg_name r) ?z = rev (map rg_name s)"
  proof -
    have "map (\<lambda>(r, o'). rg_name r) (zip s os) = map rg_name (map fst (zip s os))"
      by (simp add: split_beta)
    then show ?thesis using assms(2) by (simp add: rev_map [symmetric])
  qed
  have fst_case: "(\<lambda>(r, o'). rg_name r) = (\<lambda>x. rg_name (fst x))" by auto
  have "map rg_name regs = map (\<lambda>x. rg_name (fst x)) ?z"
    using r by (intro nth_equalityI) auto
  then have regs: "map rg_name regs = rev (map rg_name s)"
    using names unfolding fst_case [symmetric] by simp
  have live: "\<exists>o'\<in>set os. \<exists>e. st_race o' = ContextDone e" if xr: "x \<in> set regs" and xl: "is_live (rg_process x)" for x
  proof -
    from xr obtain i where "i < length regs" and x: "regs ! i = x"
      unfolding in_set_conv_nth by blast
    then have i: "i < length ?z" "x = regs ! i" using r by simp_all
    then obtain e where "st_race (snd (?z ! i)) = ContextDone e" using r xl by blast
    moreover have "?z ! i \<in> set ?z" using i(1) by (rule nth_mem)
    then have "snd (?z ! i) \<in> set os" by (metis set_rev set_zip_rightD prod.collapse)
    ultimately show ?thesis by blast
  qed
  have "map rg_name s' = map rg_name s" using regs by (simp add: s' rev_map [symmetric])
  moreover have "\<forall>x\<in>set regs. rg_stopping x"
  proof
    fix x assume "x \<in> set regs"
    then obtain i where "i < length regs" "regs ! i = x" unfolding in_set_conv_nth by blast
    then show "rg_stopping x" using r by auto
  qed
  ultimately show ?thesis using r names live by (auto simp: s')
qed

text \<open>Reverse stop. When \<open>Stop\<close> returns, it has stopped every process exactly once, in the reverse
  of the registration order, whatever errors there were on the way, and every registration is
  marked as stopping; if it returns no error then no process runs, and otherwise only one whose
  context was done before its process was gone can.\<close>

theorem Stop_reverse_order:
  assumes "Stop s os = (ns, s', Some out)" and "length os = length s"
  shows "ns = rev (map rg_name s) \<and> map rg_name s' = map rg_name s \<and> (\<forall>r\<in>set s'. rg_stopping r)
    \<and> (out = None \<longrightarrow> (\<forall>r\<in>set s'. \<not> is_live (rg_process r)))
    \<and> (\<forall>r\<in>set s'. is_live (rg_process r) \<longrightarrow> (\<exists>o'\<in>set os. \<exists>e. st_race o' = ContextDone e))"
  by (rule stop_all [OF assms])

lemma Stop_reverse_order_witness:
  "\<exists>ns s' out. Stop (Register (Register [] (NewExecProcess ''rp'' ''/rp'' [] []) 0 zero_backoff)
         (NewExecProcess ''ch'' ''/ch'' [] []) 0 zero_backoff)
      (replicate 2 \<lparr>st_race = ExitsInTime None, st_watch_ends = True\<rparr>) = (ns, s', Some out)
    \<and> ns = [''ch'', ''rp'']"
proof -
  let ?s = "Register (Register [] (NewExecProcess ''rp'' ''/rp'' [] []) 0 zero_backoff)
         (NewExecProcess ''ch'' ''/ch'' [] []) 0 zero_backoff"
  let ?o = "replicate 2 \<lparr>st_race = ExitsInTime None, st_watch_ends = True\<rparr>"
  obtain ns s' out where st: "Stop ?s ?o = (ns, s', Some out)"
    by (auto simp: Stop_def Register_def NewExecProcess_def proc_Stop_def Let_def numeral_2_eq_2)
  have "rev (map rg_name ?s) = [''ch'', ''rp'']"
    by (simp add: Register_def rg_name_def NewExecProcess_def)
  then show ?thesis using Stop_reverse_order [OF st, THEN conjunct1] st by (simp add: Register_def)
qed

section \<open>The watcher and a concurrent stop\<close>

text \<open>One registration while its watcher runs. The watcher is blocked in \<open>Wait\<close>, has read the exit and
  is about to read the stopping flag, is backing off before a restart, or has ended (\<open>watchDone\<close>
  closed). A call of \<open>Stop\<close> has not come yet, has set the flag, has stopped the process and waits
  for the watcher, or has returned.\<close>

datatype watcher = Waiting | Checking | BackingOff | WatchDone

datatype stopper = NotCalled | Flagged | Awaiting | Returned

record watch_state =
  w_running :: bool
  w_watcher :: watcher
  w_stopping :: bool
  w_stopper :: stopper
  w_delay :: duration

inductive watch_step :: "backoff \<Rightarrow> watch_state \<Rightarrow> watch_state \<Rightarrow> bool" for b where
  process_exits: "w_running s \<Longrightarrow> watch_step b s (s\<lparr>w_running := False\<rparr>)"
| wait_returns: "w_watcher s = Waiting \<Longrightarrow> \<not> w_running s \<Longrightarrow> watch_step b s (s\<lparr>w_watcher := Checking\<rparr>)"
| watch_ends: "w_watcher s = Checking \<Longrightarrow> w_stopping s \<Longrightarrow> watch_step b s (s\<lparr>w_watcher := WatchDone\<rparr>)"
| back_off: "w_watcher s = Checking \<Longrightarrow> \<not> w_stopping s \<Longrightarrow>
     watch_step b s (s\<lparr>w_watcher := BackingOff, w_delay := next_delay oor b (w_delay s)\<rparr>)"
| restart: "w_watcher s = BackingOff \<Longrightarrow> watch_step b s (s\<lparr>w_watcher := Waiting, w_running := True\<rparr>)"
| restart_fails: "w_watcher s = BackingOff \<Longrightarrow>
     watch_step b s (s\<lparr>w_delay := next_delay oor b (w_delay s)\<rparr>)"
| stop_flag: "w_stopper s = NotCalled \<Longrightarrow>
     watch_step b s (s\<lparr>w_stopping := True, w_stopper := Flagged\<rparr>)"
| stop_process: "w_stopper s = Flagged \<Longrightarrow>
     watch_step b s (s\<lparr>w_running := False, w_stopper := Awaiting\<rparr>)"
| stop_returns: "w_stopper s = Awaiting \<Longrightarrow> w_watcher s = WatchDone \<Longrightarrow>
     watch_step b s (s\<lparr>w_stopper := Returned\<rparr>)"

inductive_cases watch_stepE: "watch_step b s s'"

text \<open>The state after \<open>Start\<close> launched the process and its watcher.\<close>

definition watch_init :: watch_state where
  "watch_init = \<lparr>w_running = True, w_watcher = Waiting, w_stopping = False, w_stopper = NotCalled, w_delay = 0\<rparr>"

inductive watched :: "backoff \<Rightarrow> watch_state \<Rightarrow> bool" for b where
  start: "watched b watch_init"
| step: "watched b s \<Longrightarrow> watch_step b s s' \<Longrightarrow> watched b s'"

definition watch_inv :: "backoff \<Rightarrow> watch_state \<Rightarrow> bool" where
  "watch_inv b s \<longleftrightarrow> (w_stopping s \<longleftrightarrow> w_stopper s \<noteq> NotCalled)
     \<and> (w_watcher s = WatchDone \<longrightarrow> w_stopping s \<and> \<not> w_running s)
     \<and> (w_stopper s = Returned \<longrightarrow> w_watcher s = WatchDone)
     \<and> (w_watcher s \<noteq> Waiting \<longrightarrow> \<not> w_running s)
     \<and> w_delay s \<le> max 0 (max (Initial b) (Max b))"

lemma watch_step_inv: "watch_step b s s' \<Longrightarrow> watch_inv b s \<Longrightarrow> watch_inv b s'"
proof (induction rule: watch_step.induct)
  case (back_off s oor)
  have "next_delay oor b (w_delay s) \<le> max (Initial b) (Max b)"
    by (auto simp: next_delay_def Let_def le_max_iff_disj)
  then show ?case using back_off by (auto simp: watch_inv_def)
next
  case (restart_fails s oor)
  have "next_delay oor b (w_delay s) \<le> max (Initial b) (Max b)"
    by (auto simp: next_delay_def Let_def le_max_iff_disj)
  then show ?case using restart_fails by (auto simp: watch_inv_def)
qed (auto simp: watch_inv_def)

lemma watched_inv: "watched b s \<Longrightarrow> watch_inv b s"
proof (induction rule: watched.induct)
  case start
  show ?case by (simp add: watch_init_def watch_inv_def)
next
  case (step s s')
  then show ?case using watch_step_inv by blast
qed

text \<open>After \<open>Stop\<close> has returned, nothing brings the process back. In every reachable state in which
  it has returned, the process does not run and its watcher has ended, and no further step is
  possible at all. At any time the delay before a restart is at most the larger of the initial and
  the maximal delay.\<close>

theorem no_restart_after_stop:
  assumes "watched b s"
  shows "(w_stopper s = Returned \<longrightarrow>
      \<not> w_running s \<and> w_watcher s = WatchDone \<and> (\<forall>s'. \<not> watch_step b s s'))
    \<and> w_delay s \<le> max 0 (max (Initial b) (Max b))"
proof -
  have inv: "watch_inv b s" by (rule watched_inv [OF assms])
  have "False" if "w_stopper s = Returned" "watch_step b s s'" for s'
    using that(2) inv that(1) by (cases rule: watch_step.cases) (auto simp: watch_inv_def)
  then show ?thesis using inv by (auto simp: watch_inv_def)
qed

lemma no_restart_after_stop_witness:
  "\<not> w_running (watch_init\<lparr>w_running := False, w_stopping := True, w_watcher := WatchDone, w_stopper := Returned\<rparr>)
   \<and> (\<forall>s'. \<not> watch_step DefaultBackoff
        (watch_init\<lparr>w_running := False, w_stopping := True, w_watcher := WatchDone, w_stopper := Returned\<rparr>) s')"
proof -
  let ?b = DefaultBackoff
  have 1: "watched ?b (watch_init\<lparr>w_stopping := True, w_stopper := Flagged\<rparr>)"
    by (rule watched.step [OF watched.start watch_step.stop_flag]) (simp add: watch_init_def)
  have 2: "watched ?b (watch_init\<lparr>w_stopping := True, w_stopper := Awaiting, w_running := False\<rparr>)"
    using watched.step [OF 1 watch_step.stop_process] by (simp add: watch_init_def)
  have 3: "watched ?b (watch_init\<lparr>w_stopping := True, w_stopper := Awaiting, w_running := False, w_watcher := Checking\<rparr>)"
    using watched.step [OF 2 watch_step.wait_returns] by (simp add: watch_init_def)
  have 4: "watched ?b (watch_init\<lparr>w_stopping := True, w_stopper := Awaiting, w_running := False, w_watcher := WatchDone\<rparr>)"
    using watched.step [OF 3 watch_step.watch_ends] by (simp add: watch_init_def)
  have 5: "watched ?b (watch_init\<lparr>w_running := False, w_stopping := True, w_watcher := WatchDone, w_stopper := Returned\<rparr>)"
    using watched.step [OF 4 watch_step.stop_returns] by (simp add: watch_init_def)
  from no_restart_after_stop [OF 5, THEN conjunct1] show ?thesis by simp
qed

text \<open>Once the flag is set and the watcher is not backing off, everything is on its way to the end.\<close>

definition settling :: "watch_state \<Rightarrow> bool" where
  "settling s \<longleftrightarrow> w_stopping s \<and> w_stopper s \<noteq> NotCalled \<and> w_watcher s \<noteq> BackingOff
     \<and> (w_stopper s = Awaiting \<or> w_stopper s = Returned \<or> w_watcher s \<noteq> Waiting \<longrightarrow> \<not> w_running s)"

definition steps_left :: "watch_state \<Rightarrow> nat" where
  "steps_left s = (if w_running s then 1 else 0)
     + (case w_watcher s of Waiting \<Rightarrow> 2 | Checking \<Rightarrow> 1 | _ \<Rightarrow> 0)
     + (case w_stopper s of NotCalled \<Rightarrow> 3 | Flagged \<Rightarrow> 2 | Awaiting \<Rightarrow> 1 | Returned \<Rightarrow> 0)"

lemma settling_step: "watch_step b s s' \<Longrightarrow> settling s \<Longrightarrow> settling s' \<and> steps_left s' < steps_left s"
  by (induction rule: watch_step.induct) (auto simp: settling_def steps_left_def)

lemma settling_moves:
  assumes "settling s" "w_stopper s \<noteq> Returned"
  shows "\<exists>s'. watch_step b s s'"
proof -
  consider "w_stopper s = Flagged" | "w_stopper s = Awaiting" "w_watcher s = Waiting"
    | "w_stopper s = Awaiting" "w_watcher s = Checking" | "w_stopper s = Awaiting" "w_watcher s = WatchDone"
    using assms by (cases "w_stopper s"; cases "w_watcher s") (auto simp: settling_def)
  then show ?thesis
    using assms by cases (auto simp: settling_def intro: watch_step.intros)
qed

text \<open>\<open>Stop\<close> returns unless it comes during a backoff. If the watcher is not backing off when the
  flag has been set, then every run from there, however the steps interleave, makes at most
  \<open>steps_left\<close> steps (never more than five), and can only end with \<open>Stop\<close> returned.\<close>

theorem stop_returns_outside_backoff:
  assumes "watched b s" "w_stopper s = Flagged" "w_watcher s \<noteq> BackingOff"
    and run: "r 0 = s" "\<And>i. i < n \<Longrightarrow> watch_step b (r i) (r (Suc i))"
  shows "n \<le> steps_left s \<and> steps_left s \<le> 5
    \<and> (w_stopper (r n) \<noteq> Returned \<longrightarrow> (\<exists>s'. watch_step b (r n) s'))"
proof -
  have "watch_inv b s" by (rule watched_inv [OF assms(1)])
  then have set0: "settling s" using assms(2,3) by (auto simp: settling_def watch_inv_def)
  have "i \<le> n \<Longrightarrow> settling (r i) \<and> steps_left (r i) + i \<le> steps_left s" for i
  proof (induction i)
    case 0
    then show ?case using set0 run(1) by simp
  next
    case (Suc i)
    then have "settling (r i)" "steps_left (r i) + i \<le> steps_left s" by auto
    moreover have "watch_step b (r i) (r (Suc i))" using run(2) [of i] Suc.prems by simp
    ultimately show ?case using settling_step [of b "r i" "r (Suc i)"] by auto
  qed
  from this [of n] have "settling (r n)" "n \<le> steps_left s" by auto
  moreover have "steps_left s \<le> 5"
    using assms(2) by (simp add: steps_left_def split: watcher.split)
  ultimately show ?thesis using settling_moves by blast
qed

lemma stop_returns_outside_backoff_witness:
  "steps_left (watch_init\<lparr>w_stopping := True, w_stopper := Flagged\<rparr>) \<le> 5
   \<and> (\<exists>s'. watch_step DefaultBackoff (watch_init\<lparr>w_stopping := True, w_stopper := Flagged\<rparr>) s')"
proof -
  let ?s = "watch_init\<lparr>w_stopping := True, w_stopper := Flagged\<rparr>"
  have w: "watched DefaultBackoff ?s"
    by (rule watched.step [OF watched.start watch_step.stop_flag]) (simp add: watch_init_def)
  have "w_stopper ?s = Flagged" "w_watcher ?s \<noteq> BackingOff" by (simp_all add: watch_init_def)
  from stop_returns_outside_backoff [OF w this, of "\<lambda>_. ?s" 0] show ?thesis by simp
qed

text \<open>A stop during a backoff leaves the process running. There is a run in which the process
  crashes, the watcher backs off, and \<open>Stop\<close> is called: the process is not running, so stopping it
  does nothing; the watcher then restarts it, without looking at the flag, and blocks in \<open>Wait\<close>,
  while \<open>Stop\<close> waits for the watcher. From there the only thing that can happen at all is that the
  restarted process exits by itself; nobody will stop it.\<close>

theorem stop_during_backoff_hangs:
  "\<exists>s. watched b s \<and> w_stopping s \<and> w_stopper s = Awaiting \<and> w_running s \<and> w_watcher s = Waiting
    \<and> {s'. watch_step b s s'} = {s\<lparr>w_running := False\<rparr>}"
proof -
  let ?d = "next_delay amd64_oor b 0"
  have 1: "watched b (watch_init\<lparr>w_running := False\<rparr>)"
    by (rule watched.step [OF watched.start watch_step.process_exits]) (simp add: watch_init_def)
  have 2: "watched b (watch_init\<lparr>w_running := False, w_watcher := Checking\<rparr>)"
    using watched.step [OF 1 watch_step.wait_returns] by (simp add: watch_init_def)
  have 3: "watched b (watch_init\<lparr>w_running := False, w_watcher := BackingOff, w_delay := ?d\<rparr>)"
    using watched.step [OF 2 watch_step.back_off [where oor = amd64_oor]] by (simp add: watch_init_def)
  have 4: "watched b (watch_init\<lparr>w_running := False, w_watcher := BackingOff, w_delay := ?d,
      w_stopping := True, w_stopper := Flagged\<rparr>)"
    using watched.step [OF 3 watch_step.stop_flag] by (simp add: watch_init_def)
  have 5: "watched b (watch_init\<lparr>w_running := False, w_watcher := BackingOff, w_delay := ?d,
      w_stopping := True, w_stopper := Awaiting\<rparr>)"
    using watched.step [OF 4 watch_step.stop_process] by (simp add: watch_init_def)
  let ?s = "watch_init\<lparr>w_running := True, w_watcher := Waiting, w_delay := ?d,
      w_stopping := True, w_stopper := Awaiting\<rparr>"
  have 6: "watched b ?s"
    using watched.step [OF 5 watch_step.restart] by (simp add: watch_init_def)
  have "s' = ?s\<lparr>w_running := False\<rparr>" if "watch_step b ?s s'" for s'
    using that by (cases rule: watch_step.cases) (auto simp: watch_init_def)
  moreover have "watch_step b ?s (?s\<lparr>w_running := False\<rparr>)"
    by (rule watch_step.process_exits) simp
  ultimately have "{s'. watch_step b ?s s'} = {?s\<lparr>w_running := False\<rparr>}" by blast
  then show ?thesis using 6 by (intro exI [of _ ?s]) (simp add: watch_init_def)
qed

end
