(* ===== verification/WsSchemas.thy ===== *)
theory WsSchemas
  imports KErrors
begin

text \<open>
  \<open>kernel/schemas/websocket.go\<close>: the validator of outgoing hub messages. Payloads are maps of the
  shapes the hub builds. The embedded files, the \<open>jsonschema\<close> package (compiling a schema, and
  validating a decoded value against it) and the JSON codec are arguments; a decoded value is of
  whatever type \<open>'v\<close> the codec uses.
\<close>

datatype jval = JString string | JBool bool | JRows "string list"

type_synonym payload = "(string \<times> jval) list"

type_synonym 'v validator = "'v \<Rightarrow> goerr option"

record 'v ws_schemas =
  envelope :: "'v validator"
  payloads :: "string \<rightharpoonup> 'v validator"

record 'v json_lib =
  Marshal_payload :: "payload \<Rightarrow> string result"
  Marshal_envelope :: "string \<Rightarrow> 'v \<Rightarrow> string result"
  Unmarshal :: "string \<Rightarrow> 'v result"

text \<open>The files of the embedded directory, in order, and the package's compiler: the three calls of
  \<open>loadEmbeddedSchema\<close>.\<close>

record 'v schema_source =
  ReadDir :: "string list result"
  ReadFile :: "string \<Rightarrow> string result"
  AddResource :: "string \<Rightarrow> string \<Rightarrow> goerr option"
  Compile :: "string \<Rightarrow> 'v validator result"

definition loadEmbeddedSchema :: "'v schema_source \<Rightarrow> string \<Rightarrow> 'v validator result" where
  "loadEmbeddedSchema src n =
     (case ReadFile src (''websocket/'' @ n) of
        Inl e \<Rightarrow> Inl (Errorf_w (''read embedded schema '' @ n) e)
      | Inr data \<Rightarrow>
          let url = ''embed://herminas/websocket/'' @ n in
          (case AddResource src url data of
             Some e \<Rightarrow> Inl (Errorf_w (''add schema resource '' @ n) e)
           | None \<Rightarrow> (case Compile src url of
               Inl e \<Rightarrow> Inl (Errorf_w (''compile schema '' @ n) e)
             | Inr sch \<Rightarrow> Inr sch)))"

definition envelope_file :: string where "envelope_file = ''envelope.schema.json''"

definition event_of :: "string \<Rightarrow> string" where
  "event_of n = take (length n - length ''.schema.json'') n"

fun load_payloads :: "'v schema_source \<Rightarrow> string list \<Rightarrow> (string \<rightharpoonup> 'v validator) \<Rightarrow> (string \<rightharpoonup> 'v validator) result" where
  "load_payloads src [] acc = Inr acc"
| "load_payloads src (n # ns) acc =
     (if n = envelope_file then load_payloads src ns acc
      else (case loadEmbeddedSchema src n of
              Inl e \<Rightarrow> Inl e
            | Inr sch \<Rightarrow> load_payloads src ns (acc(event_of n \<mapsto> sch))))"

definition LoadWebSocketSchemas :: "'v schema_source \<Rightarrow> 'v ws_schemas result" where
  "LoadWebSocketSchemas src =
     (case loadEmbeddedSchema src envelope_file of
        Inl e \<Rightarrow> Inl e
      | Inr env \<Rightarrow> (case ReadDir src of
          Inl e \<Rightarrow> Inl (Errorf_w ''read embedded websocket schemas'' e)
        | Inr entries \<Rightarrow> (case load_payloads src entries Map.empty of
            Inl e \<Rightarrow> Inl e
          | Inr ps \<Rightarrow> Inr \<lparr>envelope = env, payloads = ps\<rparr>)))"

definition ValidateEnvelope :: "'v json_lib \<Rightarrow> 'v ws_schemas \<Rightarrow> string \<Rightarrow> payload \<Rightarrow> goerr option" where
  "ValidateEnvelope J s event payload =
     (case Marshal_payload J payload of
        Inl e \<Rightarrow> Some (Errorf_w ''marshal payload'' e)
      | Inr payloadJSON \<Rightarrow> (case Unmarshal J payloadJSON of
          Inl e \<Rightarrow> Some (Errorf_w ''unmarshal payload'' e)
        | Inr payloadVal \<Rightarrow> (case Marshal_envelope J event payloadVal of
            Inl e \<Rightarrow> Some (Errorf_w ''marshal envelope'' e)
          | Inr envelopeJSON \<Rightarrow> (case Unmarshal J envelopeJSON of
              Inl e \<Rightarrow> Some (Errorf_w ''unmarshal envelope'' e)
            | Inr v \<Rightarrow> (case envelope s v of
                Some e \<Rightarrow> Some (Errorf_w ''envelope'' e)
              | None \<Rightarrow> (case payloads s event of
                  None \<Rightarrow> Some (Plain (''no payload schema registered for event '' @ quoted event))
                | Some sch \<Rightarrow> (case sch payloadVal of
                    Some e \<Rightarrow> Some (Errorf_w (''payload for event '' @ quoted event) e)
                  | None \<Rightarrow> None)))))))"

lemma load_payloads_dom:
  "load_payloads src ns acc = Inr ps \<Longrightarrow>
   dom ps = dom acc \<union> event_of ` (set ns - {envelope_file})"
  by (induction ns arbitrary: acc) (auto split: sum.splits if_splits)

text \<open>Every schema file but the envelope's gives one event; an event without a file is refused.\<close>

lemma LoadWebSocketSchemas_events:
  assumes "LoadWebSocketSchemas src = Inr s" "ReadDir src = Inr entries"
  shows "dom (payloads s) = event_of ` (set entries - {envelope_file})"
proof -
  obtain ps where "load_payloads src entries Map.empty = Inr ps" "payloads s = ps"
    using assms by (auto simp: LoadWebSocketSchemas_def split: sum.splits)
  then show ?thesis using load_payloads_dom [of src entries Map.empty ps] by simp
qed

lemma ValidateEnvelope_known_event:
  "ValidateEnvelope J s event p = None \<Longrightarrow> event \<in> dom (payloads s)"
  by (auto simp: ValidateEnvelope_def split: sum.splits option.splits)

end
