(* ===== verification/WsHub.thy ===== *)
theory WsHub
  imports WsSchemas WsRateLimit Middleware "HOL-Library.AList"
begin

text \<open>
  \<open>engine/wshub\<close>: the hub with its clients (\<open>hub.go\<close>, \<open>client.go\<close>), the widget subscriptions of a
  client and their pollers (\<open>subscription.go\<close>), and the upgrade handler (\<open>handler.go\<close>). A connection
  is its outgoing queue and whether it was closed; what the peer sends, and whether a write to it
  succeeds, are arguments, and so is the query runner.
\<close>

section \<open>subscription.go: the set of subscriptions\<close>

record controlMessage =
  Action :: string
  WidgetID :: string
  cm_SQL :: string
  IntervalMS :: "64 word"
  Mode :: string
  SinceColumn :: string

text \<open>A poller is the goroutine of one subscription: its message and interval, and whether its context
  was cancelled. The set maps widgets to the pollers it can still cancel; pollers are numbered in
  the order they were started.\<close>

record poller =
  po_msg :: controlMessage
  po_interval :: "64 word"
  po_cancelled :: bool

record subscription_set =
  ss_subs :: "(string \<times> nat) list"
  ss_pollers :: "poller list"

definition minInterval :: "64 word" where
  "minInterval = 250 * 1000000"

text \<open>\<open>time.Duration(msg.IntervalMS) * time.Millisecond\<close> wraps around at 64 bits; the comparison is
  signed.\<close>

definition poll_interval :: "64 word \<Rightarrow> 64 word" where
  "poll_interval ms =
     (let interval = ms * 1000000 in if sint interval < sint minInterval then minInterval else interval)"

definition newSubscriptionSet :: subscription_set where
  "newSubscriptionSet = \<lparr>ss_subs = [], ss_pollers = []\<rparr>"

definition cancel :: "nat \<Rightarrow> poller list \<Rightarrow> poller list" where
  "cancel i ps = ps[i := (ps ! i)\<lparr>po_cancelled := True\<rparr>]"

definition subscribe :: "subscription_set \<Rightarrow> controlMessage \<Rightarrow> subscription_set" where
  "subscribe s msg =
     (if WidgetID msg = [] \<or> cm_SQL msg = [] then s
      else
        let interval = poll_interval (IntervalMS msg);
            pollers = (case map_of (ss_subs s) (WidgetID msg) of
                Some existing \<Rightarrow> cancel existing (ss_pollers s)
              | None \<Rightarrow> ss_pollers s)
        in \<lparr>ss_subs = AList.update (WidgetID msg) (length pollers) (ss_subs s),
            ss_pollers = pollers @ [\<lparr>po_msg = msg, po_interval = interval, po_cancelled = False\<rparr>]\<rparr>)"

definition unsubscribe :: "subscription_set \<Rightarrow> string \<Rightarrow> subscription_set" where
  "unsubscribe s widgetID =
     (case map_of (ss_subs s) widgetID of
        Some sub \<Rightarrow> \<lparr>ss_subs = AList.delete widgetID (ss_subs s), ss_pollers = cancel sub (ss_pollers s)\<rparr>
      | None \<Rightarrow> s)"

definition cancelAll :: "subscription_set \<Rightarrow> subscription_set" where
  "cancelAll s =
     \<lparr>ss_subs = [], ss_pollers = fold (\<lambda>(widgetID, sub) ps. cancel sub ps) (ss_subs s) (ss_pollers s)\<rparr>"

section \<open>subscription.go: polling\<close>

text \<open>\<open>since r c\<close>: the text of column \<open>c\<close> in the JSON object of row \<open>r\<close> (the string value if it is a
  string, the raw text otherwise), if the row is an object with that column.\<close>

fun maxSinceColumn :: "(string \<Rightarrow> string \<Rightarrow> string option) \<Rightarrow> string list \<Rightarrow> string \<Rightarrow> string \<Rightarrow> string" where
  "maxSinceColumn since [] column current = current"
| "maxSinceColumn since (r # rows) column current =
     (case since r column of
        None \<Rightarrow> maxSinceColumn since rows column current
      | Some val \<Rightarrow> maxSinceColumn since rows column (if val > current then val else current))"

definition incremental :: "controlMessage \<Rightarrow> bool" where
  "incremental msg \<longleftrightarrow> Mode msg = ''incremental'' \<and> SinceColumn msg \<noteq> []"

definition poll_query :: "controlMessage \<Rightarrow> string \<Rightarrow> string" where
  "poll_query msg lastSeen =
     (if incremental msg \<and> lastSeen \<noteq> []
      then ''SELECT * FROM ('' @ cm_SQL msg @ '') AS w WHERE '' @ SinceColumn msg @ '' > ''
             @ [squote] @ lastSeen @ [squote]
      else cm_SQL msg)"

definition dashboardDataPayload :: "string \<Rightarrow> string list \<Rightarrow> string \<Rightarrow> payload" where
  "dashboardDataPayload widgetID rows generated_at =
     [(''widget_id'', JString widgetID), (''rows'', JRows rows), (''generated_at'', JString generated_at)]"

text \<open>One poll: the rows to push, if any, and the last value seen afterwards. \<open>answer\<close> is what the
  runner gives for the query.\<close>

definition poll ::
  "(string \<Rightarrow> string \<Rightarrow> string option) \<Rightarrow> controlMessage \<Rightarrow> (string \<Rightarrow> string list result) \<Rightarrow> string
   \<Rightarrow> string list option \<times> string" where
  "poll since msg answer lastSeen =
     (case answer (poll_query msg lastSeen) of
        Inl err \<Rightarrow> (None, lastSeen)
      | Inr rows \<Rightarrow>
          if incremental msg then
            let seen = maxSinceColumn since rows (SinceColumn msg) lastSeen in
            (if length rows = 0 then None else Some rows, seen)
          else (Some rows, lastSeen))"

text \<open>The loop of a poller, as far as the ticker lets it come: one poll at once, then one per tick,
  until its context is done. The pushes in order.\<close>

fun poll_run ::
  "(string \<Rightarrow> string \<Rightarrow> string option) \<Rightarrow> controlMessage \<Rightarrow> (string \<Rightarrow> string list result) list \<Rightarrow> string
   \<Rightarrow> string list list" where
  "poll_run since msg [] lastSeen = []"
| "poll_run since msg (answer # answers) lastSeen =
     (case poll since msg answer lastSeen of
        (None, seen) \<Rightarrow> poll_run since msg answers seen
      | (Some rows, seen) \<Rightarrow> rows # poll_run since msg answers seen)"

section \<open>client.go\<close>

definition sendQueueSize :: nat where "sendQueueSize = 32"
definition maxMessageSize :: nat where "maxMessageSize = 65536"
definition pongWait :: duration where "pongWait = 60 * Second"
definition pingPeriod :: duration where "pingPeriod = pongWait * 9 div 10"
definition writeWait :: duration where "writeWait = 10 * Second"

record client =
  cl_out :: "string list"
  cl_closed :: bool
  cl_subs :: subscription_set
  cl_rl :: message_rate_limiter
  cl_userID :: string

definition newClient :: "time \<Rightarrow> string \<Rightarrow> client" where
  "newClient now userID =
     \<lparr>cl_out = [], cl_closed = False, cl_subs = newSubscriptionSet,
      cl_rl = newMessageRateLimiter 20 now, cl_userID = userID\<rparr>"

definition queue :: "string \<Rightarrow> client \<Rightarrow> client" where
  "queue data c = (if length (cl_out c) < sendQueueSize then c\<lparr>cl_out := cl_out c @ [data]\<rparr>
                   else c\<lparr>cl_closed := True\<rparr>)"

definition handleControlMessage :: "(string \<Rightarrow> controlMessage result) \<Rightarrow> string \<Rightarrow> client \<Rightarrow> client" where
  "handleControlMessage decode data c =
     (case decode data of
        Inl err \<Rightarrow> c
      | Inr msg \<Rightarrow>
          if Action msg = ''subscribe'' then c\<lparr>cl_subs := subscribe (cl_subs c) msg\<rparr>
          else if Action msg = ''unsubscribe'' then c\<lparr>cl_subs := unsubscribe (cl_subs c) (WidgetID msg)\<rparr>
          else c)"

text \<open>One message in \<open>readPump\<close>, then its end: an error of the connection (among them a message over
  the read limit and the missing pong) ends the loop and runs the deferred clean-up.\<close>

definition read_message :: "(string \<Rightarrow> controlMessage result) \<Rightarrow> time \<Rightarrow> string \<Rightarrow> client \<Rightarrow> client" where
  "read_message decode now data c =
     (case rl_allow (cl_rl c) now of
        (False, rl) \<Rightarrow> c\<lparr>cl_rl := rl\<rparr>
      | (True, rl) \<Rightarrow> handleControlMessage decode data (c\<lparr>cl_rl := rl\<rparr>))"

definition read_ends :: "client \<Rightarrow> client" where
  "read_ends c = c\<lparr>cl_subs := cancelAll (cl_subs c), cl_closed := True\<rparr>"

fun readPump :: "(string \<Rightarrow> controlMessage result) \<Rightarrow> (time \<times> string) list \<Rightarrow> client \<Rightarrow> client" where
  "readPump decode [] c = read_ends c"
| "readPump decode ((now, data) # msgs) c =
     (if length data > maxMessageSize then read_ends c
      else readPump decode msgs (read_message decode now data c))"

text \<open>One round of \<open>writePump\<close> with a message to write; \<open>ok\<close>: the write succeeds.\<close>

definition write_message :: "bool \<Rightarrow> client \<Rightarrow> string option \<times> client" where
  "write_message ok c =
     (case cl_out c of
        [] \<Rightarrow> (None, c)
      | d # ds \<Rightarrow> if ok then (Some d, c\<lparr>cl_out := ds\<rparr>) else (None, c\<lparr>cl_out := ds, cl_closed := True\<rparr>))"

text \<open>Its other round: the ticker fires and a ping is written.\<close>

definition write_ping :: "bool \<Rightarrow> client \<Rightarrow> client" where
  "write_ping ok c = (if ok then c else c\<lparr>cl_closed := True\<rparr>)"

text \<open>The loop around them: what it writes, until a write fails, or as far as its rounds go. The queue is
  never closed, and a round with nothing to write does not come.\<close>

datatype write_round = QueueReady bool | TickerFires bool

fun writePump :: "write_round list \<Rightarrow> client \<Rightarrow> string list \<times> client" where
  "writePump [] c = ([], c)"
| "writePump (QueueReady ok # rounds) c =
     (case write_message ok c of
        (None, c') \<Rightarrow> if cl_out c = [] then writePump rounds c else ([], c')
      | (Some d, c') \<Rightarrow> (case writePump rounds c' of (ds, c'') \<Rightarrow> (d # ds, c'')))"
| "writePump (TickerFires ok # rounds) c = (if ok then writePump rounds c else ([], write_ping ok c))"

text \<open>It writes the queue in order, and on an open connection loses nothing; a failed write costs at most
  the one message it was for, and closes the connection.\<close>

lemma writePump_in_order:
  assumes "writePump rounds c = (ds, c')"
  shows "\<exists>lost. cl_out c = ds @ lost @ cl_out c' \<and> length lost \<le> 1 \<and> (lost \<noteq> [] \<longrightarrow> cl_closed c')"
  using assms
proof (induction rounds arbitrary: c ds)
  case (Cons r rounds)
  have again: ?case if "writePump rounds c = (ds, c')" using Cons.IH [OF that] .
  show ?case
  proof (cases r)
    case (QueueReady ok)
    show ?thesis
    proof (cases "cl_out c")
      case Nil
      then show ?thesis using again Cons.prems QueueReady by (simp add: write_message_def)
    next
      case q: (Cons d rest)
      show ?thesis
      proof (cases ok)
        case True
        obtain ds1 where "writePump rounds (c\<lparr>cl_out := rest\<rparr>) = (ds1, c')" "ds = d # ds1"
          using Cons.prems QueueReady q True by (auto simp: write_message_def split: prod.splits)
        then show ?thesis using Cons.IH q by fastforce
      next
        case False
        then show ?thesis
          using Cons.prems QueueReady q by (intro exI [of _ "[d]"]) (auto simp: write_message_def)
      qed
    qed
  next
    case (TickerFires ok)
    then show ?thesis using again Cons.prems by (cases ok) (auto simp: write_ping_def)
  qed
qed simp

section \<open>hub.go\<close>

record 'v hub =
  hub_schemas :: "'v ws_schemas option"
  hub_clients :: "(nat \<times> client) list"

definition New :: "'v ws_schemas option \<Rightarrow> 'v hub" where
  "New sch = \<lparr>hub_schemas = sch, hub_clients = []\<rparr>"

definition add :: "nat \<Rightarrow> client \<Rightarrow> 'v hub \<Rightarrow> 'v hub" where
  "add i c h = h\<lparr>hub_clients := (i, c) # filter (\<lambda>x. fst x \<noteq> i) (hub_clients h)\<rparr>"

definition remove :: "nat \<Rightarrow> 'v hub \<Rightarrow> 'v hub" where
  "remove i h = h\<lparr>hub_clients := filter (\<lambda>x. fst x \<noteq> i) (hub_clients h)\<rparr>"

definition ClientCount :: "'v hub \<Rightarrow> nat" where
  "ClientCount h = length (hub_clients h)"

definition encode :: "'v json_lib \<Rightarrow> (string \<Rightarrow> payload \<Rightarrow> string result) \<Rightarrow> 'v hub \<Rightarrow> string \<Rightarrow> payload \<Rightarrow> string result" where
  "encode J marshal h event p =
     (case (case hub_schemas h of None \<Rightarrow> None | Some s \<Rightarrow> ValidateEnvelope J s event p) of
        Some err \<Rightarrow> Inl (Errorf_w (''wshub: refusing to send invalid '' @ event @ '' message'') err)
      | None \<Rightarrow> (case marshal event p of
          Inl err \<Rightarrow> Inl (Errorf_w ''wshub: encode envelope'' err)
        | Inr data \<Rightarrow> Inr data))"

definition Broadcast ::
  "'v json_lib \<Rightarrow> (string \<Rightarrow> payload \<Rightarrow> string result) \<Rightarrow> 'v hub \<Rightarrow> string \<Rightarrow> payload \<Rightarrow> goerr option \<times> 'v hub" where
  "Broadcast J marshal h event p =
     (case encode J marshal h event p of
        Inl err \<Rightarrow> (Some err, h)
      | Inr data \<Rightarrow> (None, h\<lparr>hub_clients := map (\<lambda>(i, c). (i, queue data c)) (hub_clients h)\<rparr>))"

definition BroadcastSystemHealth ::
  "'v json_lib \<Rightarrow> (string \<Rightarrow> payload \<Rightarrow> string result) \<Rightarrow> 'v hub \<Rightarrow> string \<Rightarrow> string \<Rightarrow> string \<Rightarrow> string
   \<Rightarrow> goerr option \<times> 'v hub" where
  "BroadcastSystemHealth J marshal h service state message checkedAt =
     Broadcast J marshal h ''system.health''
       [(''service'', JString service), (''state'', JString state), (''message'', JString message),
        (''checked_at'', JString checkedAt)]"

definition BroadcastAgentStatus ::
  "'v json_lib \<Rightarrow> (string \<Rightarrow> payload \<Rightarrow> string result) \<Rightarrow> 'v hub \<Rightarrow> string \<Rightarrow> bool \<Rightarrow> string \<Rightarrow> string
   \<Rightarrow> goerr option \<times> 'v hub" where
  "BroadcastAgentStatus J marshal h agentID connected lastSeen hostname =
     Broadcast J marshal h ''agent.status''
       [(''agent_id'', JString agentID), (''connected'', JBool connected),
        (''last_seen_at'', JString lastSeen), (''hostname'', JString hostname)]"

definition send ::
  "'v json_lib \<Rightarrow> (string \<Rightarrow> payload \<Rightarrow> string result) \<Rightarrow> 'v hub \<Rightarrow> client \<Rightarrow> string \<Rightarrow> payload \<Rightarrow> goerr option \<times> client" where
  "send J marshal h c event p =
     (case encode J marshal h event p of
        Inl err \<Rightarrow> (Some err, c)
      | Inr data \<Rightarrow> (None, queue data c))"

section \<open>handler.go\<close>

text \<open>\<open>upgraded\<close>: the protocol upgrade succeeded (it checks the origin unless \<open>devCORS\<close>). The reply is
  the status, if one was written here; the new client is number \<open>i\<close>.\<close>

definition ServeWS ::
  "jwt_lib \<Rightarrow> jwt_manager \<Rightarrow> time \<Rightarrow> nat \<Rightarrow> bool \<Rightarrow> string \<Rightarrow> 'v hub \<Rightarrow> nat option \<times> 'v hub" where
  "ServeWS L m now i upgraded token h =
     (case Verify L now m token of
        Inl err \<Rightarrow> (Some StatusUnauthorized, h)
      | Inr c \<Rightarrow>
          if \<not> upgraded then (None, h)
          else (None, add i (newClient now (cl_Username c)) h))"

section \<open>At most one poller per widget\<close>

definition live :: "subscription_set \<Rightarrow> nat \<Rightarrow> bool" where
  "live s i \<longleftrightarrow> i < length (ss_pollers s) \<and> \<not> po_cancelled (ss_pollers s ! i)"

definition widget :: "subscription_set \<Rightarrow> nat \<Rightarrow> string" where
  "widget s i = WidgetID (po_msg (ss_pollers s ! i))"

text \<open>The live pollers are exactly the ones the map can cancel, each under its own widget.\<close>

definition subs_ok :: "subscription_set \<Rightarrow> bool" where
  "subs_ok s \<longleftrightarrow> distinct (map fst (ss_subs s))
     \<and> (\<forall>w i. (w, i) \<in> set (ss_subs s) \<longleftrightarrow> live s i \<and> widget s i = w)"

lemma length_cancel [simp]: "length (cancel i ps) = length ps"
  by (simp add: cancel_def)

lemma cancel_nth:
  "j < length ps \<Longrightarrow> po_cancelled (cancel i ps ! j) \<longleftrightarrow> po_cancelled (ps ! j) \<or> j = i"
  "po_msg (cancel i ps ! j) = po_msg (ps ! j)"
proof -
  show "j < length ps \<Longrightarrow> po_cancelled (cancel i ps ! j) \<longleftrightarrow> po_cancelled (ps ! j) \<or> j = i"
    by (cases "j = i") (simp_all add: cancel_def)
  show "po_msg (cancel i ps ! j) = po_msg (ps ! j)"
  proof (cases "i < length ps")
    case True
    then show ?thesis by (simp add: cancel_def nth_list_update)
  next
    case False
    then have "cancel i ps = ps" by (simp add: cancel_def list_update_beyond)
    then show ?thesis by simp
  qed
qed

lemma set_AList_update:
  assumes "distinct (map fst al)"
  shows "(w, i) \<in> set (AList.update k v al) \<longleftrightarrow> (if w = k then i = v else (w, i) \<in> set al)"
proof -
  have d: "distinct (map fst (AList.update k v al))" using assms by (rule AList.distinct_update)
  have "(w, i) \<in> set (AList.update k v al) \<longleftrightarrow> map_of (AList.update k v al) w = Some i"
    using map_of_eq_Some_iff [OF d] by simp
  also have "\<dots> \<longleftrightarrow> (if w = k then i = v else map_of al w = Some i)"
    by (auto simp: AList.update_conv')
  finally show ?thesis using map_of_eq_Some_iff [OF assms] by simp
qed

lemma set_AList_delete:
  "distinct (map fst al) \<Longrightarrow> (w, i) \<in> set (AList.delete k al) \<longleftrightarrow> w \<noteq> k \<and> (w, i) \<in> set al"
  by (auto simp: AList.delete_eq)

lemma subs_ok_lookup:
  "subs_ok s \<Longrightarrow> map_of (ss_subs s) w = Some i \<longleftrightarrow> live s i \<and> widget s i = w"
  by (simp add: subs_ok_def)

lemma subs_ok_lookup_None:
  "subs_ok s \<Longrightarrow> map_of (ss_subs s) w = None \<Longrightarrow> live s i \<Longrightarrow> widget s i \<noteq> w"
  using subs_ok_lookup [of s w i] by auto

lemma subs_ok_new: "subs_ok newSubscriptionSet"
  by (simp add: subs_ok_def newSubscriptionSet_def live_def)

lemma subs_ok_subscribe:
  assumes ok: "subs_ok s"
  shows "subs_ok (subscribe s msg)"
proof (cases "WidgetID msg = [] \<or> cm_SQL msg = []")
  case True
  then show ?thesis using ok by (simp add: subscribe_def)
next
  case False
  let ?w = "WidgetID msg" and ?n = "length (ss_pollers s)" and ?s' = "subscribe s msg"
  let ?p = "\<lparr>po_msg = msg, po_interval = poll_interval (IntervalMS msg), po_cancelled = False\<rparr>"
  obtain ps where s': "?s' = \<lparr>ss_subs = AList.update ?w ?n (ss_subs s), ss_pollers = ps @ [?p]\<rparr>"
    and len: "length ps = ?n"
    and old: "\<And>i. i < ?n \<Longrightarrow> po_msg (ps ! i) = po_msg (ss_pollers s ! i)
        \<and> (\<not> po_cancelled (ps ! i) \<longleftrightarrow> live s i \<and> widget s i \<noteq> ?w)"
  proof (cases "map_of (ss_subs s) ?w")
    case None
    show thesis
      by (rule that [of "ss_pollers s"])
        (use False None subs_ok_lookup_None [OF ok None] in \<open>auto simp: subscribe_def Let_def live_def\<close>)
  next
    case (Some k)
    then have k: "live s i \<and> widget s i = ?w \<longleftrightarrow> i = k" for i
      using subs_ok_lookup [OF ok, of ?w i] by auto
    show thesis
      by (rule that [of "cancel k (ss_pollers s)"])
        (use False Some k in \<open>auto simp: subscribe_def Let_def cancel_nth live_def\<close>)
  qed
  have new: "live ?s' i \<and> widget ?s' i = w \<longleftrightarrow>
      (if w = ?w then i = ?n else live s i \<and> widget s i = w)" for i w
  proof (cases "i < ?n")
    case True
    then show ?thesis using old [OF True] by (auto simp: s' len live_def widget_def nth_append)
  next
    case False
    then show ?thesis by (auto simp: s' len live_def widget_def nth_append)
  qed
  have "distinct (map fst (ss_subs s))" using ok by (simp add: subs_ok_def)
  then show ?thesis
    unfolding subs_ok_def new using ok
    by (auto simp: s' set_AList_update subs_ok_def AList.distinct_update)
qed

lemma subs_ok_unsubscribe:
  assumes ok: "subs_ok s"
  shows "subs_ok (unsubscribe s w)"
proof (cases "map_of (ss_subs s) w")
  case None
  then show ?thesis using ok by (simp add: unsubscribe_def)
next
  case (Some k)
  then have k: "live s i \<and> widget s i = w \<longleftrightarrow> i = k" for i
    using subs_ok_lookup [OF ok, of w i] by auto
  have "live (unsubscribe s w) i \<longleftrightarrow> live s i \<and> i \<noteq> k" "widget (unsubscribe s w) i = widget s i" for i
    using Some by (auto simp: unsubscribe_def live_def widget_def cancel_nth)
  then have "live (unsubscribe s w) i \<and> widget (unsubscribe s w) i = w' \<longleftrightarrow>
      w' \<noteq> w \<and> live s i \<and> widget s i = w'" for i w'
    using k by auto
  then show ?thesis
    using ok Some unfolding subs_ok_def
    by (simp add: unsubscribe_def set_AList_delete AList.distinct_delete)
qed

lemma fold_cancel:
  "length (fold (\<lambda>(w, i) ps. cancel i ps) al ps) = length ps"
  "j < length ps \<Longrightarrow> po_cancelled (fold (\<lambda>(w, i) ps. cancel i ps) al ps ! j)
     \<longleftrightarrow> po_cancelled (ps ! j) \<or> (\<exists>w. (w, j) \<in> set al)"
  by (induction al arbitrary: ps) (auto simp: cancel_nth)

lemma cancelAll_none_live: "subs_ok s \<Longrightarrow> \<not> live (cancelAll s) i"
proof
  assume ok: "subs_ok s" and l: "live (cancelAll s) i"
  then have "i < length (ss_pollers s)" "\<not> po_cancelled (ss_pollers s ! i)" "\<forall>w. (w, i) \<notin> set (ss_subs s)"
    by (auto simp: cancelAll_def live_def fold_cancel)
  then show False using ok by (auto simp: subs_ok_def live_def)
qed

lemma poll_interval_min: "sint minInterval \<le> sint (poll_interval ms)"
  by (simp add: poll_interval_def Let_def)

lemma minInterval_value: "sint minInterval = 250 * Millisecond"
  by (simp add: minInterval_def Millisecond_def)

definition intervals_ok :: "subscription_set \<Rightarrow> bool" where
  "intervals_ok s \<longleftrightarrow> (\<forall>p\<in>set (ss_pollers s). 250 * Millisecond \<le> sint (po_interval p))"

lemma intervals_cancel:
  "(\<forall>p\<in>set ps. 250 * Millisecond \<le> sint (po_interval p)) \<Longrightarrow>
   (\<forall>p\<in>set (cancel i ps). 250 * Millisecond \<le> sint (po_interval p))"
proof (cases "i < length ps")
  case True
  moreover assume "\<forall>p\<in>set ps. 250 * Millisecond \<le> sint (po_interval p)"
  ultimately show ?thesis
    using set_update_subset_insert [of ps i "(ps ! i)\<lparr>po_cancelled := True\<rparr>"] nth_mem [OF True]
    by (fastforce simp: cancel_def)
next
  case False
  then have "cancel i ps = ps" by (simp add: cancel_def list_update_beyond)
  then show "\<forall>p\<in>set ps. 250 * Millisecond \<le> sint (po_interval p) \<Longrightarrow> ?thesis" by simp
qed

lemma intervals_subscribe: "intervals_ok s \<Longrightarrow> intervals_ok (subscribe s msg)"
  using poll_interval_min [of "IntervalMS msg"] intervals_cancel [of "ss_pollers s"]
  by (auto simp: intervals_ok_def subscribe_def Let_def minInterval_value split: option.splits)

lemma intervals_unsubscribe: "intervals_ok s \<Longrightarrow> intervals_ok (unsubscribe s w)"
  using intervals_cancel [of "ss_pollers s"]
  by (auto simp: intervals_ok_def unsubscribe_def split: option.splits)

lemma read_message_ok:
  assumes "subs_ok (cl_subs c)" "intervals_ok (cl_subs c)"
  shows "subs_ok (cl_subs (read_message decode now data c)) \<and> intervals_ok (cl_subs (read_message decode now data c))"
proof -
  obtain ok rl where rl: "rl_allow (cl_rl c) now = (ok, rl)" by (cases "rl_allow (cl_rl c) now")
  show ?thesis
    using assms subs_ok_subscribe subs_ok_unsubscribe intervals_subscribe intervals_unsubscribe
    by (cases ok; cases "decode data") (simp_all add: read_message_def rl handleControlMessage_def)
qed

definition read_messages :: "(string \<Rightarrow> controlMessage result) \<Rightarrow> (time \<times> string) list \<Rightarrow> client \<Rightarrow> client" where
  "read_messages decode msgs c = foldl (\<lambda>c (now, data). read_message decode now data c) c msgs"

lemma read_messages_ok:
  "subs_ok (cl_subs c) \<Longrightarrow> intervals_ok (cl_subs c) \<Longrightarrow>
   subs_ok (cl_subs (read_messages decode msgs c)) \<and> intervals_ok (cl_subs (read_messages decode msgs c))"
proof (induction msgs arbitrary: c)
  case Nil
  then show ?case by (simp add: read_messages_def)
next
  case (Cons m msgs)
  obtain now data where m: "m = (now, data)" by (cases m)
  note ok = read_message_ok [OF Cons.prems, of decode now data]
  show ?case using Cons.IH [OF ok [THEN conjunct1] ok [THEN conjunct2]] by (simp add: read_messages_def m)
qed

lemma readPump_none_live:
  "subs_ok (cl_subs c) \<Longrightarrow> intervals_ok (cl_subs c) \<Longrightarrow> \<not> live (cl_subs (readPump decode msgs c)) i"
proof (induction msgs arbitrary: c)
  case Nil
  then show ?case by (simp add: read_ends_def cancelAll_none_live)
next
  case (Cons m msgs)
  obtain now data where m: "m = (now, data)" by (cases m)
  note ok = read_message_ok [OF Cons.prems, of decode now data]
  show ?case using Cons.IH [OF ok [THEN conjunct1] ok [THEN conjunct2]] Cons.prems
    by (simp add: m read_ends_def cancelAll_none_live)
qed

text \<open>Subscriptions do not pile up. Whatever messages a connection sends, at any rate, no two live
  pollers serve the same widget, every poller's interval is at least 250 milliseconds even when the
  requested one wraps around at 64 bits, and when the connection ends no live poller is left.\<close>

theorem one_live_poller_per_widget:
  "let s = cl_subs (read_messages decode msgs (newClient t u)) in
    inj_on (widget s) {i. live s i}
    \<and> (\<forall>i<length (ss_pollers s). 250 * Millisecond \<le> sint (po_interval (ss_pollers s ! i)))
    \<and> {i. live (cl_subs (readPump decode msgs (newClient t u))) i} = {}"
proof -
  let ?s = "cl_subs (read_messages decode msgs (newClient t u))"
  have new: "subs_ok (cl_subs (newClient t u))" "intervals_ok (cl_subs (newClient t u))"
    using subs_ok_new by (simp_all add: newClient_def intervals_ok_def newSubscriptionSet_def)
  have ok: "subs_ok ?s" "intervals_ok ?s" using read_messages_ok [OF new] by simp_all
  have "inj_on (widget ?s) {i. live ?s i}"
  proof (rule inj_onI)
    fix i j assume "i \<in> {i. live ?s i}" "j \<in> {i. live ?s i}" "widget ?s i = widget ?s j"
    then have "map_of (ss_subs ?s) (widget ?s i) = Some i" "map_of (ss_subs ?s) (widget ?s i) = Some j"
      using subs_ok_lookup [OF ok(1)] by auto
    then show "i = j" by simp
  qed
  then show ?thesis using ok(2) readPump_none_live [OF new] by (auto simp: intervals_ok_def Let_def)
qed

definition sample_subscribe :: "string \<Rightarrow> controlMessage result" where
  "sample_subscribe data = Inr \<lparr>Action = ''subscribe'', WidgetID = data, cm_SQL = ''SELECT 1'',
     IntervalMS = 18446744073710, Mode = [], SinceColumn = []\<rparr>"

lemma one_live_poller_per_widget_witness:
  "let s = cl_subs (read_messages sample_subscribe [(1, ''w''), (2, ''w'')] (newClient 0 ''ana'')) in
    length (ss_pollers s) = 2 \<and> (\<forall>i<2. 250 * Millisecond \<le> sint (po_interval (ss_pollers s ! i)))"
proof -
  let ?s = "cl_subs (read_messages sample_subscribe [(1, ''w''), (2, ''w'')] (newClient 0 ''ana''))"
  have "length (ss_pollers ?s) = 2"
    by (simp add: read_messages_def read_message_def rl_allow_def newClient_def newMessageRateLimiter_def
        handleControlMessage_def sample_subscribe_def subscribe_def newSubscriptionSet_def Let_def Second_def
        cancel_def)
  then show ?thesis
    using one_live_poller_per_widget [of sample_subscribe "[(1, ''w''), (2, ''w'')]" 0 "''ana''"]
    unfolding Let_def by (metis (no_types))
qed

section \<open>Queues\<close>

datatype hub_event = HBroadcast string payload | HWrite nat bool

definition write_client :: "nat \<Rightarrow> bool \<Rightarrow> 'v hub \<Rightarrow> 'v hub" where
  "write_client i ok h = h\<lparr>hub_clients :=
     map (\<lambda>(j, c). (j, if j = i then snd (write_message ok c) else c)) (hub_clients h)\<rparr>"

definition written_by :: "nat \<Rightarrow> bool \<Rightarrow> 'v hub \<Rightarrow> string list" where
  "written_by i ok h = (case map_of (hub_clients h) i of
     None \<Rightarrow> [] | Some c \<Rightarrow> (case fst (write_message ok c) of None \<Rightarrow> [] | Some d \<Rightarrow> [d]))"

text \<open>A run of broadcasts and writes: what client \<open>i\<close> was sent, and the hub afterwards.\<close>

fun hub_run :: "'v json_lib \<Rightarrow> (string \<Rightarrow> payload \<Rightarrow> string result) \<Rightarrow> nat \<Rightarrow> 'v hub \<Rightarrow> hub_event list
    \<Rightarrow> string list \<times> 'v hub" where
  "hub_run J marshal i h [] = ([], h)"
| "hub_run J marshal i h (HBroadcast event p # es) = hub_run J marshal i (snd (Broadcast J marshal h event p)) es"
| "hub_run J marshal i h (HWrite j ok # es) =
     (case hub_run J marshal i (write_client j ok h) es of
        (sent, h') \<Rightarrow> (if j = i then written_by i ok h @ sent else sent, h'))"

text \<open>The messages of a run that could be encoded (and were valid, if the hub validates).\<close>

fun encoded :: "'v json_lib \<Rightarrow> (string \<Rightarrow> payload \<Rightarrow> string result) \<Rightarrow> 'v hub \<Rightarrow> hub_event list \<Rightarrow> string list" where
  "encoded J marshal h [] = []"
| "encoded J marshal h (HBroadcast event p # es) =
     (case encode J marshal h event p of Inl _ \<Rightarrow> [] | Inr d \<Rightarrow> [d]) @ encoded J marshal h es"
| "encoded J marshal h (HWrite j ok # es) = encoded J marshal h es"

lemma encode_schemas: "hub_schemas h = hub_schemas h' \<Longrightarrow> encode J marshal h event p = encode J marshal h' event p"
  by (simp add: encode_def)

lemma encoded_schemas:
  assumes "hub_schemas h = hub_schemas h'"
  shows "encoded J marshal h es = encoded J marshal h' es"
proof (induction es)
  case (Cons e es)
  then show ?case by (cases e) (simp_all add: encode_schemas [OF assms])
qed simp

lemma Broadcast_schemas [simp]: "hub_schemas (snd (Broadcast J marshal h event p)) = hub_schemas h"
  by (simp add: Broadcast_def split: sum.split)

lemma write_client_schemas [simp]: "hub_schemas (write_client i ok h) = hub_schemas h"
  by (simp add: write_client_def)

lemma map_of_map_snd: "map_of (map (\<lambda>(j, c). (j, f j c)) al) i = map_option (f i) (map_of al i)"
  by (induction al) auto

lemma map_of_Broadcast:
  "map_of (hub_clients (snd (Broadcast J marshal h event p))) i =
   (case encode J marshal h event p of Inl _ \<Rightarrow> map_of (hub_clients h) i
    | Inr d \<Rightarrow> map_option (queue d) (map_of (hub_clients h) i))"
proof (cases "encode J marshal h event p")
  case (Inl e)
  then show ?thesis by (simp add: Broadcast_def)
next
  case (Inr d)
  then show ?thesis
    using map_of_map_snd [of "\<lambda>j. queue d" "hub_clients h" i] by (simp add: Broadcast_def)
qed

lemma map_of_write_client:
  "map_of (hub_clients (write_client j ok h)) i =
   map_option (\<lambda>c. if i = j then snd (write_message ok c) else c) (map_of (hub_clients h) i)"
  using map_of_map_snd [of "\<lambda>k c. if k = j then snd (write_message ok c) else c" "hub_clients h" i]
  by (simp add: write_client_def)

lemma queue_room: "length (cl_out c) \<le> sendQueueSize \<Longrightarrow> length (cl_out (queue d c)) \<le> sendQueueSize"
  by (simp add: queue_def)

lemma hub_run_client:
  "map_of (hub_clients h) i = Some c \<Longrightarrow> length (cl_out c) \<le> sendQueueSize \<Longrightarrow> hub_run J marshal i h es = (sent, h') \<Longrightarrow>
   \<exists>c'. map_of (hub_clients h') i = Some c' \<and> length (cl_out c') \<le> sendQueueSize
     \<and> subseq (sent @ cl_out c') (cl_out c @ encoded J marshal h es)
     \<and> (\<not> cl_closed c' \<longrightarrow> \<not> cl_closed c \<and> sent @ cl_out c' = cl_out c @ encoded J marshal h es)"
proof (induction es arbitrary: h c sent)
  case Nil
  then show ?case by simp
next
  case (Cons ev es)
  show ?case
  proof (cases ev)
    case (HBroadcast event p)
    let ?h1 = "snd (Broadcast J marshal h event p)"
    have run: "hub_run J marshal i ?h1 es = (sent, h')" using Cons.prems(3) HBroadcast by simp
    have enc: "encoded J marshal ?h1 es = encoded J marshal h es" by (rule encoded_schemas) simp
    show ?thesis
    proof (cases "encode J marshal h event p")
      case (Inl e)
      then have "map_of (hub_clients ?h1) i = Some c" using Cons.prems(1) by (simp add: map_of_Broadcast)
      from Cons.IH [OF this Cons.prems(2) run] show ?thesis by (simp add: HBroadcast Inl enc)
    next
      case (Inr d)
      then have m: "map_of (hub_clients ?h1) i = Some (queue d c)" using Cons.prems(1) by (simp add: map_of_Broadcast)
      from Cons.IH [OF m queue_room [OF Cons.prems(2)] run]
      obtain c' where c': "map_of (hub_clients h') i = Some c'" "length (cl_out c') \<le> sendQueueSize"
        "subseq (sent @ cl_out c') (cl_out (queue d c) @ encoded J marshal h es)"
        "\<not> cl_closed c' \<longrightarrow> \<not> cl_closed (queue d c) \<and> sent @ cl_out c' = cl_out (queue d c) @ encoded J marshal h es"
        unfolding enc by blast
      have sub: "subseq (cl_out (queue d c) @ encoded J marshal h es) (cl_out c @ encoded J marshal h (ev # es))"
        using HBroadcast Inr by (auto simp: queue_def intro!: list_emb_append_mono)
      have eq: "cl_out (queue d c) @ encoded J marshal h es = cl_out c @ encoded J marshal h (ev # es) \<and> \<not> cl_closed c"
        if "\<not> cl_closed (queue d c)"
        using HBroadcast Inr that by (auto simp: queue_def split: if_splits)
      show ?thesis using c' eq subseq_order.order_trans [OF c'(3) sub] by auto
    qed
  next
    case (HWrite j ok)
    let ?h1 = "write_client j ok h"
    obtain sent1 where run: "hub_run J marshal i ?h1 es = (sent1, h')"
      and sent: "sent = (if j = i then written_by i ok h @ sent1 else sent1)"
      using Cons.prems(3) HWrite by (auto split: prod.splits)
    have enc: "encoded J marshal ?h1 es = encoded J marshal h es" by (rule encoded_schemas) simp
    let ?c1 = "if i = j then snd (write_message ok c) else c"
    have m: "map_of (hub_clients ?h1) i = Some ?c1" using Cons.prems(1) by (simp add: map_of_write_client)
    have len: "length (cl_out ?c1) \<le> sendQueueSize"
      using Cons.prems(2) by (auto simp: write_message_def split: list.split)
    let ?w = "if j = i then written_by i ok h else []"
    have w: "subseq (?w @ cl_out ?c1) (cl_out c)"
      "\<not> cl_closed ?c1 \<Longrightarrow> ?w @ cl_out ?c1 = cl_out c \<and> \<not> cl_closed c"
      using Cons.prems(1)
      by (cases "i = j"; auto simp: written_by_def write_message_def split: list.splits if_splits)+
    from Cons.IH [OF m len run]
    obtain c' where c': "map_of (hub_clients h') i = Some c'" "length (cl_out c') \<le> sendQueueSize"
      "subseq (sent1 @ cl_out c') (cl_out ?c1 @ encoded J marshal h es)"
      "\<not> cl_closed c' \<longrightarrow> \<not> cl_closed ?c1 \<and> sent1 @ cl_out c' = cl_out ?c1 @ encoded J marshal h es"
      unfolding enc by blast
    have s: "sent = ?w @ sent1" using sent by simp
    have "subseq (?w @ sent1 @ cl_out c') ((?w @ cl_out ?c1) @ encoded J marshal h es)"
      using list_emb_append_mono [OF subseq_order.order_refl c'(3), of ?w] by (simp only: append_assoc)
    also have "subseq \<dots> (cl_out c @ encoded J marshal h es)"
      by (rule list_emb_append_mono [OF w(1) subseq_order.order_refl])
    finally show ?thesis using c' w(2) s HWrite by (metis append_assoc encoded.simps(3))
  qed
qed

text \<open>C28: a slow client costs bounded memory and never sees a gap it does not notice. Over any run of
  broadcasts and writes, a client that was connected with an empty queue has at most 32 messages
  queued; what it has been sent, with what is queued, is a selection in order of the broadcasts that
  were valid; and unless its connection was closed, nothing is missing.\<close>

theorem broadcast_complete_or_closed:
  assumes "map_of (hub_clients h) i = Some c" "cl_out c = []"
    and "hub_run J marshal i h es = (sent, h')"
  shows "\<exists>c'. map_of (hub_clients h') i = Some c' \<and> length (cl_out c') \<le> 32
    \<and> subseq (sent @ cl_out c') (encoded J marshal h es)
    \<and> (cl_closed c' \<or> sent @ cl_out c' = encoded J marshal h es)"
proof -
  have "length (cl_out c) \<le> sendQueueSize" using assms(2) by simp
  from hub_run_client [OF assms(1) this assms(3)] show ?thesis
    using assms(2) by (auto simp: sendQueueSize_def)
qed

definition sample_codec :: "string json_lib" where
  "sample_codec = \<lparr>Marshal_payload = (\<lambda>_. Inr ''{}''), Marshal_envelope = (\<lambda>_ v. Inr v), Unmarshal = (\<lambda>s. Inr s)\<rparr>"

lemma broadcast_complete_or_closed_witness:
  "\<exists>sent h' c'. hub_run sample_codec (\<lambda>e _. Inr e) 1 (add 1 (newClient 0 ''ana'') (New None))
       [HBroadcast ''a'' [], HBroadcast ''b'' [], HWrite 1 True] = (sent, h')
     \<and> map_of (hub_clients h') 1 = Some c' \<and> (cl_closed c' \<or> sent @ cl_out c' = [''a'', ''b''])"
proof -
  let ?h = "add 1 (newClient 0 ''ana'') (New None) :: string hub"
  let ?es = "[HBroadcast ''a'' [], HBroadcast ''b'' [], HWrite 1 True]"
  have c: "map_of (hub_clients ?h) 1 = Some (newClient 0 ''ana'')" by (simp add: add_def)
  have q: "cl_out (newClient 0 ''ana'') = []" by (simp add: newClient_def)
  obtain sent h' where r: "hub_run sample_codec (\<lambda>e _. Inr e) 1 ?h ?es = (sent, h')"
    by (cases "hub_run sample_codec (\<lambda>e _. Inr e) 1 ?h ?es")
  have "encoded sample_codec (\<lambda>e _. Inr e) ?h ?es = [''a'', ''b'']"
    by (simp add: encode_def add_def New_def)
  with broadcast_complete_or_closed [OF c q r] r show ?thesis by auto
qed

section \<open>Incremental polling\<close>

lemma maxSinceColumn_ge:
  "current \<le> maxSinceColumn since rows column current
   \<and> (\<forall>r\<in>set rows. \<forall>v. since r column = Some v \<longrightarrow> v \<le> maxSinceColumn since rows column current)"
proof (induction rows arbitrary: current)
  case (Cons r rows)
  show ?case
  proof (cases "since r column")
    case None
    then show ?thesis using Cons by simp
  next
    case (Some v)
    let ?c = "if v > current then v else current"
    have "current \<le> ?c" "v \<le> ?c" by auto
    moreover note Cons.IH [of ?c]
    ultimately show ?thesis using Some by (auto intro: order_trans)
  qed
qed simp

text \<open>A database that honours the condition of the wrapped query returns only rows whose column is
  greater than the literal.\<close>

definition honours :: "(string \<Rightarrow> string \<Rightarrow> string option) \<Rightarrow> controlMessage \<Rightarrow> (string \<Rightarrow> string list result) \<Rightarrow> bool" where
  "honours since msg answer \<longleftrightarrow> (\<forall>lastSeen rows. lastSeen \<noteq> [] \<longrightarrow> answer (poll_query msg lastSeen) = Inr rows
     \<longrightarrow> (\<forall>r\<in>set rows. \<exists>v. since r (SinceColumn msg) = Some v \<and> lastSeen < v))"

lemma Nil_le_string: "([] :: string) \<le> s"
  by simp

lemma poll_run_above:
  assumes "incremental msg" and "\<forall>a\<in>set answers. honours since msg a" and "lastSeen \<noteq> []"
  shows "\<forall>rows\<in>set (poll_run since msg answers lastSeen). \<forall>r\<in>set rows.
    \<exists>v. since r (SinceColumn msg) = Some v \<and> lastSeen < v"
  using assms(2,3)
proof (induction answers arbitrary: lastSeen)
  case (Cons answer answers)
  show ?case
  proof (cases "answer (poll_query msg lastSeen)")
    case (Inl e)
    then show ?thesis using Cons by (simp add: poll_def)
  next
    case (Inr rows)
    let ?seen = "maxSinceColumn since rows (SinceColumn msg) lastSeen"
    have le: "lastSeen \<le> ?seen" using maxSinceColumn_ge by blast
    then have "?seen \<noteq> []" using Cons.prems(2) by (cases ?seen) auto
    then have IH: "\<forall>rows\<in>set (poll_run since msg answers ?seen). \<forall>r\<in>set rows.
        \<exists>v. since r (SinceColumn msg) = Some v \<and> ?seen < v"
      using Cons by simp
    have now: "\<forall>r\<in>set rows. \<exists>v. since r (SinceColumn msg) = Some v \<and> lastSeen < v"
      using Cons.prems Inr by (simp add: honours_def)
    have "\<forall>rows\<in>set (poll_run since msg answers ?seen). \<forall>r\<in>set rows.
        \<exists>v. since r (SinceColumn msg) = Some v \<and> lastSeen < v"
      using IH le by (meson order.strict_trans1)
    then show ?thesis using now Inr assms(1) by (simp add: poll_def Let_def)
  qed
qed simp


definition sample_widget :: controlMessage where
  "sample_widget = \<lparr>Action = ''subscribe'', WidgetID = ''w'', cm_SQL = ''SELECT t FROM e'', IntervalMS = 1000,
     Mode = ''incremental'', SinceColumn = ''t''\<rparr>"

definition sample_answer :: "string \<Rightarrow> string \<Rightarrow> string list result" where
  "sample_answer v q = (if q = ''SELECT t FROM e'' then Inr [v] else Inr [])"


text \<open>The last value is put between single quotes as it is: a value with a quote in it ends the literal,
  and the rest of it becomes part of the statement.\<close>

lemma poll_query_not_escaped:
  "poll_query sample_widget (''x'' @ [squote] @ '' OR 1=1 OR t > '' @ [squote])
   = ''SELECT * FROM (SELECT t FROM e) AS w WHERE t > '' @ [squote] @ ''x'' @ [squote]
     @ '' OR 1=1 OR t > '' @ [squote] @ [squote]"
  by (simp add: poll_query_def incremental_def sample_widget_def)

end
