(* ===== verification/Engines.thy ===== *)
theory Engines
  imports ExecProcess Paths "HOL-Library.AList"
begin

text \<open>
  \<open>engine/clickhouse/clickhouse.go\<close> and \<open>engine/redpanda/redpanda.go\<close>: configuration files, download
  and health checks of the two supervised engines. The file system is a map from paths to
  contents; which operation on it fails is an argument (\<open>disk\<close>), as are the platform and the
  network.
\<close>

section \<open>Files\<close>

type_synonym files = "string \<rightharpoonup> string"

text \<open>A write that fails may have opened (and so emptied) the file and written some first bytes.\<close>

record disk =
  mkdir_fails :: "string \<Rightarrow> goerr option"
  open_fails :: "string \<Rightarrow> goerr option"
  write_fails :: "string \<Rightarrow> (nat \<times> goerr) option"

definition WriteFile :: "disk \<Rightarrow> string \<Rightarrow> string \<Rightarrow> files \<Rightarrow> goerr option \<times> files" where
  "WriteFile k path data fs =
     (case open_fails k path of
        Some e \<Rightarrow> (Some e, fs)
      | None \<Rightarrow> (case write_fails k path of
          Some (n, e) \<Rightarrow> (Some e, fs(path \<mapsto> take n data))
        | None \<Rightarrow> (None, fs(path \<mapsto> data))))"

definition unlines_go :: "string list \<Rightarrow> string" where
  "unlines_go ls = concat (map (\<lambda>l. l @ [nl]) ls)"

section \<open>clickhouse.go\<close>

record ch_config =
  ch_HTTPPort :: int
  ch_TCPPort :: int
  ch_DataDir :: string
  ch_BinDir :: string

definition ch_ConfigPath :: "ch_config \<Rightarrow> string" where
  "ch_ConfigPath c = Join [ch_BinDir c, ''config.xml'']"

definition ch_UsersPath :: "ch_config \<Rightarrow> string" where
  "ch_UsersPath c = Join [ch_BinDir c, ''users.xml'']"

definition ch_BinaryPath :: "ch_config \<Rightarrow> string" where
  "ch_BinaryPath c = Join [ch_BinDir c, ''clickhouse'']"

definition ch_configXML :: "ch_config \<Rightarrow> string" where
  "ch_configXML cfg = unlines_go
     [''<clickhouse>'',
      ''    <logger>'',
      ''        <level>information</level>'',
      ''        <console>true</console>'',
      ''    </logger>'',
      ''    <http_port>'' @ show_int (ch_HTTPPort cfg) @ ''</http_port>'',
      ''    <tcp_port>'' @ show_int (ch_TCPPort cfg) @ ''</tcp_port>'',
      ''    <listen_host>127.0.0.1</listen_host>'',
      ''    <path>'' @ ch_DataDir cfg @ ''/</path>'',
      ''    <tmp_path>'' @ ch_DataDir cfg @ ''/tmp/</tmp_path>'',
      ''    <user_directories>'',
      ''        <users_xml>'',
      ''            <path>'' @ ch_UsersPath cfg @ ''</path>'',
      ''        </users_xml>'',
      ''    </user_directories>'',
      ''</clickhouse>'']"

definition ch_usersXML :: string where
  "ch_usersXML = unlines_go
     [''<clickhouse>'',
      ''    <profiles>'',
      ''        <default>'',
      ''            <max_memory_usage>4000000000</max_memory_usage>'',
      ''        </default>'',
      ''    </profiles>'',
      ''    <users>'',
      ''        <default>'',
      ''            <password></password>'',
      ''            <networks>'',
      ''                <ip>::1</ip>'',
      ''                <ip>127.0.0.1</ip>'',
      ''            </networks>'',
      ''            <profile>default</profile>'',
      ''            <quota>default</quota>'',
      ''        </default>'',
      ''    </users>'',
      ''    <quotas>'',
      ''        <default />'',
      ''    </quotas>'',
      ''</clickhouse>'']"

definition ch_GenerateConfig :: "disk \<Rightarrow> ch_config \<Rightarrow> files \<Rightarrow> goerr option \<times> files" where
  "ch_GenerateConfig k cfg fs =
     (case mkdir_fails k (ch_BinDir cfg) of
        Some e \<Rightarrow> (Some (Errorf_w ''create bin dir'' e), fs)
      | None \<Rightarrow> (case mkdir_fails k (ch_DataDir cfg) of
          Some e \<Rightarrow> (Some (Errorf_w ''create data dir'' e), fs)
        | None \<Rightarrow> (case WriteFile k (ch_ConfigPath cfg) (ch_configXML cfg) fs of
            (Some e, fs1) \<Rightarrow> (Some (Errorf_w ''write config.xml'' e), fs1)
          | (None, fs1) \<Rightarrow> (case WriteFile k (ch_UsersPath cfg) ch_usersXML fs1 of
              (Some e, fs2) \<Rightarrow> (Some (Errorf_w ''write users.xml'' e), fs2)
            | (None, fs2) \<Rightarrow> (None, fs2)))))"

text \<open>The platform: \<open>runtime.GOOS\<close> and \<open>runtime.GOARCH\<close>.\<close>

definition ch_asset :: "string \<Rightarrow> string \<Rightarrow> string option" where
  "ch_asset os arch =
     (if os = ''darwin'' \<and> arch = ''amd64'' then Some ''macos''
      else if os = ''darwin'' \<and> arch = ''arm64'' then Some ''macos-aarch64''
      else if os = ''linux'' \<and> arch = ''amd64'' then Some ''amd64''
      else if os = ''linux'' \<and> arch = ''arm64'' then Some ''aarch64''
      else None)"

definition get_request :: "string \<Rightarrow> http_request" where
  "get_request url = \<lparr>rq_method = ''GET'', rq_url = url, rq_query = [], rq_headers = [], rq_body = []\<rparr>"

text \<open>Without an asset no request is made. The response's text is what arrived before the error that
  ended the transfer, if one did; writing it to the file may fail as well.\<close>

definition ch_Download ::
  "string \<Rightarrow> string \<Rightarrow> disk \<Rightarrow> net \<Rightarrow> string \<Rightarrow> files \<Rightarrow> string result \<times> files" where
  "ch_Download os arch k w destDir fs =
     (case ch_asset os arch of
        None \<Rightarrow> (Inl (Plain (''no ClickHouse build known for '' @ os @ ''/'' @ arch)), fs)
      | Some asset \<Rightarrow>
          let url = ''https://builds.clickhouse.com/master/'' @ asset @ ''/clickhouse'' in
          (case mkdir_fails k destDir of
             Some e \<Rightarrow> (Inl e, fs)
           | None \<Rightarrow>
               let dest = Join [destDir, ''clickhouse''] in
               (case (case build_error w of Some e \<Rightarrow> Fails e None | None \<Rightarrow> client_do w (get_request url)) of
                  Fails e _ \<Rightarrow> (Inl (Errorf_w ''download clickhouse'' e), fs)
                | Response st text read_err \<Rightarrow>
                    if st \<noteq> StatusOK
                    then (Inl (Plain (''download clickhouse: unexpected status '' @ show_nat st)), fs)
                    else (case open_fails k dest of
                        Some e \<Rightarrow> (Inl e, fs)
                      | None \<Rightarrow> (case write_fails k dest of
                          Some (n, e) \<Rightarrow> (Inl (Errorf_w ''write clickhouse binary'' e), fs(dest \<mapsto> take n text))
                        | None \<Rightarrow> (case read_err of
                            Some e \<Rightarrow> (Inl (Errorf_w ''write clickhouse binary'' e), fs(dest \<mapsto> text))
                          | None \<Rightarrow> (Inr dest, fs(dest \<mapsto> text))))))))"

definition probe :: "net \<Rightarrow> string \<Rightarrow> string \<Rightarrow> goerr option" where
  "probe w url want =
     (case build_error w of
        Some e \<Rightarrow> Some e
      | None \<Rightarrow> (case client_do w (get_request url) of
          Fails e _ \<Rightarrow> Some e
        | Response st text _ \<Rightarrow>
            let got = trim_space text in
            if st \<noteq> StatusOK \<or> got \<noteq> want
            then Some (Plain (''GET '' @ url @ '': status '' @ show_nat st @ '', body '' @ quoted got
                        @ '' (want '' @ quoted want @ '')''))
            else None))"

definition ch_unhealthy :: "time \<Rightarrow> goerr \<Rightarrow> health_status" where
  "ch_unhealthy at err = \<lparr>hs_service = ServiceClickHouse, hs_state = HealthUnhealthy,
     hs_message = Error err, hs_checked_at = at\<rparr>"

definition ch_healthCheck :: "int \<Rightarrow> health_check" where
  "ch_healthCheck httpPort w now =
     (let base = ''http://127.0.0.1:'' @ show_int httpPort in
      case probe w (base @ ''/ping'') ''Ok.'' of
        Some err \<Rightarrow> Inr (ch_unhealthy now err)
      | None \<Rightarrow> (case probe w (base @ ''/?query=SELECT+1'') ''1'' of
          Some err \<Rightarrow> Inr (ch_unhealthy now err)
        | None \<Rightarrow> Inr \<lparr>hs_service = ServiceClickHouse, hs_state = HealthHealthy, hs_message = [],
                      hs_checked_at = now\<rparr>))"

definition ch_NewProcess :: "ch_config \<Rightarrow> exec_process" where
  "ch_NewProcess cfg =
     NewExecProcess ServiceClickHouse (ch_BinaryPath cfg) [''server'', ''--config-file'', ch_ConfigPath cfg]
       [WithHealthCheck (ch_healthCheck (ch_HTTPPort cfg))]"

section \<open>redpanda.go\<close>

record rp_config =
  rp_KafkaPort :: int
  rp_AdminPort :: int
  rp_RPCPort :: int
  rp_DataDir :: string
  rp_BinDir :: string

definition rp_ConfigPath :: "rp_config \<Rightarrow> string" where
  "rp_ConfigPath c = Join [rp_BinDir c, ''redpanda.yaml'']"

definition rp_BinaryPath :: "rp_config \<Rightarrow> string" where
  "rp_BinaryPath c = Join [rp_BinDir c, ''redpanda'']"

definition rp_yaml :: "rp_config \<Rightarrow> string" where
  "rp_yaml cfg = unlines_go
     [''redpanda:'',
      ''  data_directory: '' @ quoted (rp_DataDir cfg),
      ''  node_id: 0'',
      ''  developer_mode: true'',
      ''  kafka_api:'',
      ''    - address: 127.0.0.1'',
      ''      port: '' @ show_int (rp_KafkaPort cfg),
      ''  rpc_server:'',
      ''    address: 127.0.0.1'',
      ''    port: '' @ show_int (rp_RPCPort cfg),
      ''  admin:'',
      ''    - address: 127.0.0.1'',
      ''      port: '' @ show_int (rp_AdminPort cfg)]"

definition rp_GenerateConfig :: "disk \<Rightarrow> rp_config \<Rightarrow> files \<Rightarrow> goerr option \<times> files" where
  "rp_GenerateConfig k cfg fs =
     (case mkdir_fails k (rp_BinDir cfg) of
        Some e \<Rightarrow> (Some (Errorf_w ''create bin dir'' e), fs)
      | None \<Rightarrow> (case mkdir_fails k (rp_DataDir cfg) of
          Some e \<Rightarrow> (Some (Errorf_w ''create data dir'' e), fs)
        | None \<Rightarrow> (case WriteFile k (rp_ConfigPath cfg) (rp_yaml cfg) fs of
            (Some e, fs1) \<Rightarrow> (Some (Errorf_w ''write redpanda.yaml'' e), fs1)
          | (None, fs1) \<Rightarrow> (None, fs1))))"

text \<open>\<open>Download\<close> gives an error on every platform; the bytes of the dash in its first message are UTF-8.\<close>

definition em_dash :: string where "em_dash = [CHR 0xE2, CHR 0x80, CHR 0x94]"

definition rp_Download :: "string \<Rightarrow> string \<Rightarrow> string result" where
  "rp_Download os arch =
     (if os \<noteq> ''linux'' then Inl (Plain (''redpanda ships Linux binaries only (host is '' @ os @ ''/'' @ arch
          @ '') '' @ em_dash @ '' use Docker locally, or the Linux bundle target''))
      else if \<not> (arch = ''amd64'' \<or> arch = ''arm64'')
      then Inl (Plain (''no Redpanda build known for '' @ os @ ''/'' @ arch))
      else Inl (Plain (''redpanda download not yet wired for '' @ os @ ''/'' @ arch
          @ '' (tracked for the Linux bundle target, M8.1)'')))"

definition rp_unhealthy :: "time \<Rightarrow> goerr \<Rightarrow> health_status" where
  "rp_unhealthy at err = \<lparr>hs_service = ServiceRedpanda, hs_state = HealthUnhealthy,
     hs_message = Error err, hs_checked_at = at\<rparr>"

definition rp_healthCheck :: "int \<Rightarrow> health_check" where
  "rp_healthCheck adminPort w now =
     (let url = ''http://127.0.0.1:'' @ show_int adminPort @ ''/v1/status/ready'' in
      case build_error w of
        Some e \<Rightarrow> Inr (rp_unhealthy now e)
      | None \<Rightarrow> (case client_do w (get_request url) of
          Fails e _ \<Rightarrow> Inr (rp_unhealthy now e)
        | Response st text _ \<Rightarrow>
            if st \<noteq> StatusOK
            then Inr (rp_unhealthy now (Plain (''GET '' @ url @ '': status '' @ show_nat st)))
            else Inr \<lparr>hs_service = ServiceRedpanda, hs_state = HealthHealthy, hs_message = [],
                   hs_checked_at = now\<rparr>))"

definition rp_NewProcess :: "rp_config \<Rightarrow> exec_process" where
  "rp_NewProcess cfg =
     NewExecProcess ServiceRedpanda (rp_BinaryPath cfg) [''start'', ''--config'', rp_ConfigPath cfg]
       [WithHealthCheck (rp_healthCheck (rp_AdminPort cfg))]"

section \<open>What is written is what is probed\<close>

lemma clean_elems_leaf:
  assumes "normal leaf"
  shows "clean_elems root (d @ slash # leaf) = clean_elems root d @ [leaf]"
proof -
  have "split_on slash (d @ slash # leaf) = split_on slash d @ [leaf]"
    using assms by (simp add: split_on_append split_on_no_sep normal_def)
  then show ?thesis using assms by (simp add: clean_elems_def)
qed

lemma join_snoc: "join c (xs @ [x]) = (if xs = [] then x else join c xs @ c @ x)"
  by (induction xs rule: induct_list012) auto

lemma Join_leaf:
  assumes "normal leaf"
  shows "last (split_on slash (Join [d, leaf])) = leaf"
proof -
  have leaf: "split_on slash leaf = [leaf]" "leaf \<noteq> []" "\<not> rooted leaf"
    using assms by (auto simp: normal_def split_on_no_sep rooted_def split: list.split)
  have tail: "last (split_on slash (p @ slash # leaf)) = leaf" for p
    by (simp add: split_on_append leaf)
  show ?thesis
  proof (cases "d = []")
    case True
    have "clean_elems False leaf = [leaf]" using assms leaf by (simp add: clean_elems_def)
    then show ?thesis using True leaf by (simp add: Join_def Clean_def)
  next
    case False
    let ?s = "d @ slash # leaf"
    have j: "Join [d, leaf] = Clean ?s" using False by (simp add: Join_def)
    have es: "clean_elems r ?s = clean_elems r d @ [leaf]" for r
      by (rule clean_elems_leaf [OF assms])
    have joined: "last (split_on slash (slash # join [slash] (xs @ [leaf]))) = leaf"
      "last (split_on slash (join [slash] (xs @ [leaf]))) = leaf" for xs
      using tail [of "[]"] tail [of "join [slash] xs"] tail [of "slash # join [slash] xs"] leaf
      by (simp_all add: join_snoc del: split_on.simps)
    show ?thesis unfolding j Clean_def Let_def es using joined by (cases "rooted ?s") simp_all
  qed
qed

lemma Join_leaf_inject:
  assumes "normal a" "normal b" "Join [d, a] = Join [d, b]"
  shows "a = b"
  using Join_leaf [OF assms(1), of d] Join_leaf [OF assms(2), of d] unfolding assms(3) by (rule box_equals [OF refl])

lemma ch_paths_distinct: "ch_ConfigPath c \<noteq> ch_UsersPath c" "ch_ConfigPath c \<noteq> ch_BinaryPath c"
  "ch_UsersPath c \<noteq> ch_BinaryPath c"
  unfolding ch_ConfigPath_def ch_UsersPath_def ch_BinaryPath_def
  by (rule notI, drule Join_leaf_inject [rotated 2], simp_all add: normal_def)+

lemma contains_unlines_go: "l \<in> set ls \<Longrightarrow> l = a @ n @ b \<Longrightarrow> contains (unlines_go ls) n"
proof -
  assume l: "l \<in> set ls" "l = a @ n @ b"
  then obtain pre post where "ls = pre @ l # post" by (meson split_list)
  then have "unlines_go ls = (unlines_go pre @ a) @ n @ (b @ [nl] @ unlines_go post)"
    using l(2) by (simp add: unlines_go_def)
  then show ?thesis unfolding contains_iff by blast
qed

text \<open>What a healthy answer of a server is.\<close>

definition answers :: "net \<Rightarrow> string \<Rightarrow> string \<Rightarrow> bool" where
  "answers w url want \<longleftrightarrow> build_error w = None
     \<and> (\<exists>text err. client_do w (get_request url) = Response StatusOK text err \<and> trim_space text = want)"

lemma probe_answers: "probe w url want = None \<longleftrightarrow> answers w url want"
  by (auto simp: probe_def answers_def Let_def split: option.splits http_outcome.splits)

lemma Health_simps:
  "proc_Health w now (ch_NewProcess c) = ch_healthCheck (ch_HTTPPort c) w now"
  "proc_Health w now (rp_NewProcess r) = rp_healthCheck (rp_AdminPort r) w now"
  by (simp_all add: proc_Health_def ch_NewProcess_def rp_NewProcess_def NewExecProcess_def)

text \<open>The health checks of the engines. Neither check ever fails; each reports its own service, as
  healthy or as unhealthy. ClickHouse is healthy exactly when its ping answers 200 with \<open>Ok.\<close> and the
  witness query answers 200 with \<open>1\<close> (white space around them apart); Redpanda exactly when the
  readiness endpoint answers 200, whatever it says.\<close>

theorem health_checks_exact:
  "(\<exists>st. proc_Health w now (ch_NewProcess c) = Inr st \<and> hs_service st = ''clickhouse''
      \<and> hs_state st = (if answers w (''http://127.0.0.1:'' @ show_int (ch_HTTPPort c) @ ''/ping'') ''Ok.''
            \<and> answers w (''http://127.0.0.1:'' @ show_int (ch_HTTPPort c) @ ''/?query=SELECT+1'') ''1''
          then HealthHealthy else HealthUnhealthy))
   \<and> (\<exists>st. proc_Health w now (rp_NewProcess r) = Inr st \<and> hs_service st = ''redpanda''
      \<and> hs_state st = (if \<exists>said. answers w
              (''http://127.0.0.1:'' @ show_int (rp_AdminPort r) @ ''/v1/status/ready'') said
          then HealthHealthy else HealthUnhealthy))"
proof (intro conjI)
  show "\<exists>st. proc_Health w now (ch_NewProcess c) = Inr st \<and> hs_service st = ''clickhouse''
      \<and> hs_state st = (if answers w (''http://127.0.0.1:'' @ show_int (ch_HTTPPort c) @ ''/ping'') ''Ok.''
            \<and> answers w (''http://127.0.0.1:'' @ show_int (ch_HTTPPort c) @ ''/?query=SELECT+1'') ''1''
          then HealthHealthy else HealthUnhealthy)"
    by (auto simp: Health_simps ch_healthCheck_def Let_def ch_unhealthy_def ServiceClickHouse_def
        probe_answers [symmetric] split: option.split)
  show "\<exists>st. proc_Health w now (rp_NewProcess r) = Inr st \<and> hs_service st = ''redpanda''
      \<and> hs_state st = (if \<exists>said. answers w
              (''http://127.0.0.1:'' @ show_int (rp_AdminPort r) @ ''/v1/status/ready'') said
          then HealthHealthy else HealthUnhealthy)"
    by (auto simp: Health_simps rp_healthCheck_def Let_def rp_unhealthy_def ServiceRedpanda_def
        answers_def split: option.split http_outcome.split)
qed

text \<open>Generating the ClickHouse configuration. When it succeeds, the file the process is started
  with holds the port its health check asks, and names the users file, which was written too and
  lets in only the loopback addresses; the binary is untouched, and generating again over the
  result changes nothing. When it fails, the binary is untouched as well.\<close>

theorem GenerateConfig_serves_process:
  assumes "ch_GenerateConfig k cfg fs = (err, fs')"
  shows "fs' (ch_BinaryPath cfg) = fs (ch_BinaryPath cfg)
    \<and> (err = None \<longrightarrow>
        (\<exists>conf text. ep_args (ch_NewProcess cfg) = [''server'', ''--config-file'', conf] \<and> fs' conf = Some text
           \<and> contains text (''<http_port>'' @ show_int (ch_HTTPPort cfg) @ ''</http_port>'')
           \<and> contains text (''<path>'' @ ch_UsersPath cfg @ ''</path>'')
           \<and> contains text ''<listen_host>127.0.0.1</listen_host>''
           \<and> fs' (ch_UsersPath cfg) = Some ch_usersXML)
        \<and> ch_GenerateConfig k cfg fs' = (None, fs'))"
proof -
  have port: "contains (ch_configXML cfg) (''<http_port>'' @ show_int (ch_HTTPPort cfg) @ ''</http_port>'')"
    unfolding ch_configXML_def
    by (rule contains_unlines_go [where a = "''    ''" and b = "[]"
          and l = "''    <http_port>'' @ show_int (ch_HTTPPort cfg) @ ''</http_port>''"]) simp_all
  have users: "contains (ch_configXML cfg) (''<path>'' @ ch_UsersPath cfg @ ''</path>'')"
    unfolding ch_configXML_def
    by (rule contains_unlines_go [where a = "''            ''" and b = "[]"
          and l = "''            <path>'' @ ch_UsersPath cfg @ ''</path>''"]) simp_all
  have listen: "contains (ch_configXML cfg) ''<listen_host>127.0.0.1</listen_host>''"
    unfolding ch_configXML_def
    by (rule contains_unlines_go [where a = "''    ''" and b = "[]"
          and l = "''    <listen_host>127.0.0.1</listen_host>''"]) simp_all
  have args: "ep_args (ch_NewProcess cfg) = [''server'', ''--config-file'', ch_ConfigPath cfg]"
    by (simp add: ch_NewProcess_def NewExecProcess_def)
  have kept: "fs' (ch_BinaryPath cfg) = fs (ch_BinaryPath cfg)"
    using assms ch_paths_distinct [of cfg]
    by (auto simp: ch_GenerateConfig_def WriteFile_def split: option.splits if_splits)
  moreover have "fs' = fs(ch_ConfigPath cfg \<mapsto> ch_configXML cfg, ch_UsersPath cfg \<mapsto> ch_usersXML)"
    "ch_GenerateConfig k cfg fs' = (None, fs')" if "err = None"
    using assms that ch_paths_distinct [of cfg]
    by (auto simp: ch_GenerateConfig_def WriteFile_def fun_upd_twist split: option.splits)
  ultimately show ?thesis
    using port users listen args ch_paths_distinct [of cfg] by auto
qed

definition good_disk :: disk where
  "good_disk = \<lparr>mkdir_fails = (\<lambda>_. None), open_fails = (\<lambda>_. None), write_fails = (\<lambda>_. None)\<rparr>"

lemma GenerateConfig_serves_process_witness:
  "\<exists>fs'. ch_GenerateConfig good_disk \<lparr>ch_HTTPPort = 8123, ch_TCPPort = 9000, ch_DataDir = ''d'', ch_BinDir = ''b''\<rparr>
        Map.empty = (None, fs')
     \<and> ch_GenerateConfig good_disk \<lparr>ch_HTTPPort = 8123, ch_TCPPort = 9000, ch_DataDir = ''d'', ch_BinDir = ''b''\<rparr>
        fs' = (None, fs')"
proof -
  let ?c = "\<lparr>ch_HTTPPort = 8123, ch_TCPPort = 9000, ch_DataDir = ''d'', ch_BinDir = ''b''\<rparr>"
  obtain fs' where g: "ch_GenerateConfig good_disk ?c Map.empty = (None, fs')"
    by (simp add: ch_GenerateConfig_def good_disk_def WriteFile_def)
  from GenerateConfig_serves_process [OF g] g show ?thesis by blast
qed

text \<open>A transfer that breaks off leaves what had arrived under the name of the binary.\<close>

lemma broken_download_leaves_file:
  assumes "ch_asset os arch = Some asset" "mkdir_fails k dir = None" "build_error w = None"
    and "open_fails k (Join [dir, ''clickhouse'']) = None" "write_fails k (Join [dir, ''clickhouse'']) = None"
    and "client_do w (get_request (''https://builds.clickhouse.com/master/'' @ asset @ ''/clickhouse''))
         = Response StatusOK part (Some e)"
  shows "ch_Download os arch k w dir fs =
    (Inl (Errorf_w ''write clickhouse binary'' e), fs(Join [dir, ''clickhouse''] \<mapsto> part))"
  using assms by (simp add: ch_Download_def Let_def)

end
