(* ===== verification/Bootstrap.thy ===== *)
theory Bootstrap
  imports Settings Engines Supervisor ApiProps WsHub
begin

text \<open>
  \<open>bootstrap.go\<close>, the composition root: the modes of the command, the assembly of the supervised
  services and of the API server with the WebSocket hub in front of it. Leaving the process with
  \<open>exitf\<close> is a value (the line on standard error); the environment variables, the disk, the opened
  databases and the network are arguments.
\<close>

datatype 'a or_exit = ExitWith string | Continues 'a

section \<open>Modes and settings\<close>

datatype mode = RunControlPlane | StatusControlPlane | ServeAPI | CheckKernel

definition arg :: "string list \<Rightarrow> nat \<Rightarrow> string" where
  "arg args i = (if length args > i then args ! i else [])"

definition main_mode :: "string list \<Rightarrow> mode" where
  "main_mode args =
     (if arg args 1 = ''run'' then RunControlPlane
      else if arg args 1 = ''status'' then StatusControlPlane
      else if arg args 1 = ''serve-api'' then ServeAPI
      else CheckKernel)"

record process_env =
  Getenv :: "string \<Rightarrow> string"
  Getwd :: "string option"
  ReadInConfig :: "string \<Rightarrow> unit result"
  UnmarshalConfig :: "string \<Rightarrow> raw_settings result"

definition config_path :: "process_env \<Rightarrow> string" where
  "config_path pe = (if Getenv pe ''HERMINAS_CONFIG'' = [] then ''config/herminas.example.yaml''
                     else Getenv pe ''HERMINAS_CONFIG'')"

definition loadSettingsOrExit :: "process_env \<Rightarrow> (settings \<times> layout) or_exit" where
  "loadSettingsOrExit pe =
     (let layout = Default (Getenv pe ''HERMINAS_HOME'') (Getwd pe) in
      case Load (config_path pe) (ReadInConfig pe (config_path pe)) (UnmarshalConfig pe (config_path pe))
             (Getenv pe ''HERMINAS_LLM_API_KEY'') of
        Inl err \<Rightarrow> ExitWith (''HermiNas control plane bootstrap FAILED: '' @ Error err)
      | Inr cfg \<Rightarrow> Continues (cfg, layout))"

definition checkKernel :: "process_env \<Rightarrow> string list or_exit" where
  "checkKernel pe =
     (case loadSettingsOrExit pe of
        ExitWith m \<Rightarrow> ExitWith m
      | Continues (cfg, _) \<Rightarrow> Continues
          [''HermiNas control plane bootstrap OK'',
           ''  environment : '' @ environment cfg,
           ''  http_port   : '' @ show_int (httpPort cfg),
           ''  grpc_port   : '' @ show_int (grpcPort cfg),
           ''  data_dir    : '' @ dataDir cfg,
           ''  llm_provider: '' @ llmProvider cfg])"

definition clickhouseConfig :: "layout \<Rightarrow> ch_config" where
  "clickhouseConfig l =
     \<lparr>ch_HTTPPort = 8123, ch_TCPPort = 9000, ch_DataDir = Join [DataDir l, ''clickhouse''],
      ch_BinDir = Join [RuntimeDir l, ''clickhouse'', ''bin'']\<rparr>"

definition redpandaConfig :: "layout \<Rightarrow> rp_config" where
  "redpandaConfig l =
     \<lparr>rp_KafkaPort = 9092, rp_AdminPort = 9644, rp_RPCPort = 33145, rp_DataDir = Join [DataDir l, ''redpanda''],
      rp_BinDir = Join [RuntimeDir l, ''redpanda'', ''bin'']\<rparr>"

section \<open>run and status\<close>

text \<open>Up to the registered supervisor: the configuration files are written and the services registered
  in order, Redpanda only on Linux. \<open>os.Stat\<close> of the ClickHouse binary succeeds when it is a file.\<close>

definition assemble :: "string \<Rightarrow> disk \<Rightarrow> layout \<Rightarrow> files \<Rightarrow> supervisor or_exit \<times> files" where
  "assemble os k l fs =
     (case mkdir_fails k (DataDir l) of
        Some err \<Rightarrow> (ExitWith (''cannot create data dir: '' @ Error err), fs)
      | None \<Rightarrow>
          let s = []; rpCfg = redpandaConfig l; chCfg = clickhouseConfig l;
              (rpErr, fs1) = (if os = ''linux'' then rp_GenerateConfig k rpCfg fs else (None, fs))
          in (case rpErr of
                Some err \<Rightarrow> (ExitWith (''generate redpanda config: '' @ Error err), fs1)
              | None \<Rightarrow>
                  let s1 = (if os = ''linux'' then Register s (rp_NewProcess rpCfg) (30 * Second) zero_backoff
                            else s)
                  in (case ch_GenerateConfig k chCfg fs1 of
                        (Some err, fs2) \<Rightarrow> (ExitWith (''generate clickhouse config: '' @ Error err), fs2)
                      | (None, fs2) \<Rightarrow>
                          if fs2 (ch_BinaryPath chCfg) = None
                          then (ExitWith (''clickhouse binary not found at '' @ ch_BinaryPath chCfg @ '' ''
                                  @ em_dash @ '' run clickhouse.Download first''), fs2)
                          else (Continues (Register s1 (ch_NewProcess chCfg) (30 * Second) zero_backoff), fs2))))"

text \<open>What is left when the command ends: how it ended, the processes of the supervisor, and what was
  stopped. No result: it still waits for a service to become healthy, for a signal, or in \<open>Stop\<close>.\<close>

datatype run_end = StillRunning | Ended "unit or_exit"

definition supervise ::
  "(duration \<Rightarrow> string) \<Rightarrow> supervisor \<Rightarrow> start_oracle list \<Rightarrow> bool \<Rightarrow> stop_oracle list
   \<Rightarrow> run_end \<times> event list \<times> service_name list \<times> supervisor" where
  "supervise dur s starts signalled stops =
     (case Start dur s starts of
        (evs, s1, None) \<Rightarrow> (StillRunning, evs, [], s1)
      | (evs, s1, Some (Some err)) \<Rightarrow>
          (case Stop s1 stops of
             (ns, s2, None) \<Rightarrow> (StillRunning, evs, ns, s2)
           | (ns, s2, Some _) \<Rightarrow> (Ended (ExitWith (''supervisor: start failed: '' @ Error err)), evs, ns, s2))
      | (evs, s1, Some None) \<Rightarrow>
          if \<not> signalled then (StillRunning, evs, [], s1)
          else (case Stop s1 stops of
             (ns, s2, None) \<Rightarrow> (StillRunning, evs, ns, s2)
           | (ns, s2, Some _) \<Rightarrow> (Ended (Continues ()), evs, ns, s2)))"

definition runControlPlane ::
  "process_env \<Rightarrow> string \<Rightarrow> disk \<Rightarrow> files \<Rightarrow> (duration \<Rightarrow> string) \<Rightarrow> start_oracle list \<Rightarrow> bool
   \<Rightarrow> stop_oracle list \<Rightarrow> (run_end \<times> event list \<times> service_name list \<times> supervisor) \<times> files" where
  "runControlPlane pe os k fs dur starts signalled stops =
     (case loadSettingsOrExit pe of
        ExitWith m \<Rightarrow> ((Ended (ExitWith m), [], [], []), fs)
      | Continues (_, l) \<Rightarrow>
          (case assemble os k l fs of
             (ExitWith m, fs1) \<Rightarrow> ((Ended (ExitWith m), [], [], []), fs1)
           | (Continues s, fs1) \<Rightarrow> (supervise dur s starts signalled stops, fs1)))"

text \<open>One line per service: its name, state and message (the padding is left out).\<close>

definition statusControlPlane ::
  "process_env \<Rightarrow> string \<Rightarrow> net \<Rightarrow> time \<Rightarrow> (string \<times> string \<times> string) list or_exit" where
  "statusControlPlane pe os w now =
     (case loadSettingsOrExit pe of
        ExitWith m \<Rightarrow> ExitWith m
      | Continues (_, l) \<Rightarrow>
          let s = (if os = ''linux'' then Register [] (rp_NewProcess (redpandaConfig l)) 0 zero_backoff else []);
              s1 = Register s (ch_NewProcess (clickhouseConfig l)) 0 zero_backoff
          in Continues (map (\<lambda>st. (hs_service st, health_text (hs_state st), hs_message st))
               (Status now (proc_Health w now) s1)))"

section \<open>serve-api\<close>

text \<open>\<open>rand\<close>: what \<open>rand.Read\<close> gives for 32 bytes.\<close>

definition jwtSecretFromEnv :: "process_env \<Rightarrow> string result \<Rightarrow> string or_exit" where
  "jwtSecretFromEnv pe rand =
     (if Getenv pe ''HERMINAS_JWT_SECRET'' \<noteq> [] then Continues (Getenv pe ''HERMINAS_JWT_SECRET'')
      else (case rand of
        Inl err \<Rightarrow> ExitWith (''generate ephemeral JWT secret: '' @ Error err)
      | Inr buf \<Rightarrow> Continues buf))"

definition bootstrapAdminUser ::
  "process_env \<Rightarrow> crypto \<Rightarrow> auth_faults \<Rightarrow> time \<Rightarrow> auth_db \<Rightarrow> goerr option \<times> auth_db" where
  "bootstrapAdminUser pe c flt now db =
     (let username = Getenv pe ''HERMINAS_BOOTSTRAP_ADMIN_USER'';
          password = Getenv pe ''HERMINAS_BOOTSTRAP_ADMIN_PASSWORD''
      in if username = [] \<or> password = [] then (None, db)
         else (case VerifyPassword c flt db username password of
             Inr _ \<Rightarrow> (None, db)
           | Inl _ \<Rightarrow>
               (case CreateUser c flt now db username password RoleAdmin of
                  (Inl err, db1) \<Rightarrow> (if \<not> IsAlreadyExists err then Some err else None, db1)
                | (Inr _, db1) \<Rightarrow> (None, db1))))"

definition clickhouse_url :: "process_env \<Rightarrow> string" where
  "clickhouse_url pe = (if Getenv pe ''HERMINAS_CLICKHOUSE_URL'' = [] then ''http://127.0.0.1:8123''
                        else Getenv pe ''HERMINAS_CLICKHOUSE_URL'')"

text \<open>The broker's configuration: quota and time to live are left at their zero values.\<close>

definition api_broker_config :: "process_env \<Rightarrow> broker_config" where
  "api_broker_config pe = \<lparr>cfg_url = clickhouse_url pe,
     cfg_quota = \<lparr>RequestsPerMinute = 0, MaxRowsToRead = 0\<rparr>, cfg_cache_ttl = 0\<rparr>"

text \<open>What opening the three files gives, the random bytes, and the packages outside the repository.\<close>

record 'v resources =
  rs_disk :: disk
  rs_auth :: "auth_db result"
  rs_schemas :: "schema_db result"
  rs_audit :: "audit_log result"
  rs_rand :: "string result"
  rs_ws :: "'v ws_schemas result"
  rs_crypto :: crypto
  rs_faults :: auth_faults
  rs_jwt :: jwt_lib
  rs_now :: time

record 'v serving =
  sg_deps :: deps
  sg_server :: server
  sg_hub :: "'v hub"
  sg_next :: nat
  sg_config :: server_config

definition serveAPI :: "process_env \<Rightarrow> 'v resources \<Rightarrow> 'v serving or_exit" where
  "serveAPI pe rs =
     (case loadSettingsOrExit pe of ExitWith m \<Rightarrow> ExitWith m | Continues (cfg, l) \<Rightarrow>
     (case mkdir_fails (rs_disk rs) (DataDir l) of
        Some err \<Rightarrow> ExitWith (''cannot create data dir: '' @ Error err) | None \<Rightarrow>
     (case rs_auth rs of Inl err \<Rightarrow> ExitWith (''open auth store: '' @ Error err) | Inr auth \<Rightarrow>
     (case rs_schemas rs of Inl err \<Rightarrow> ExitWith (''open schemamgr store: '' @ Error err) | Inr schemas \<Rightarrow>
     (case NewBroker (api_broker_config pe) (rs_audit rs) of
        Inl err \<Rightarrow> ExitWith (''open query broker: '' @ Error err) | Inr broker \<Rightarrow>
     (case bootstrapAdminUser pe (rs_crypto rs) (rs_faults rs) (rs_now rs) auth of
        (Some err, _) \<Rightarrow> ExitWith (''bootstrap admin user: '' @ Error err) | (None, auth1) \<Rightarrow>
     (case jwtSecretFromEnv pe (rs_rand rs) of ExitWith m \<Rightarrow> ExitWith m | Continues sec \<Rightarrow>
     (case rs_ws rs of Inl err \<Rightarrow> ExitWith (''load websocket schemas: '' @ Error err) | Inr wsSchemas \<Rightarrow>
       let url = clickhouse_url pe;
           staticDir = (if Getenv pe ''HERMINAS_STATIC_DIR'' = [] then ''web/dist''
                        else Getenv pe ''HERMINAS_STATIC_DIR'');
           deps = \<lparr>Jwt_lib = rs_jwt rs, JWTManager = NewJWTManager sec Hour, Crypto = rs_crypto rs,
             AuthDb = auth1, DDL = Some url, InserterURL = url, RateLimitPerMinute = 600,
             StaticDir = staticDir\<rparr>
       in Continues \<lparr>sg_deps = deps,
            sg_server = \<lparr>sv_schemas = schemas, sv_broker = broker, sv_ensured = {},
              sv_limiter = newSlidingWindow 600, sv_sent = []\<rparr>,
            sg_hub = New (Some wsSchemas), sg_next = 0,
            sg_config = \<lparr>Addr = '':'' @ show_int (httpPort cfg), TLSCertFile = [], TLSKeyFile = [],
              DevCORS = (Getenv pe ''HERMINAS_DEV_CORS'' = ''1'')\<rparr>\<rparr>))))))))"

text \<open>The outer mux: one exact path goes to the hub, everything else to the router. For a request to the
  hub, \<open>token\<close> is the \<open>token\<close> parameter of the URL and \<open>upgraded\<close> whether the protocol upgrade
  succeeds; the reply is the status the handler writes, if it writes one.\<close>

datatype served = Http "api_body reply" | Socket "nat option"

definition ws_path :: "string list" where "ws_path = [''api'', ''v1'', ''ws'']"

definition serve ::
  "env \<Rightarrow> goerr option \<Rightarrow> bool \<Rightarrow> string \<Rightarrow> request_in \<Rightarrow> 'v serving \<Rightarrow> served \<times> 'v serving" where
  "serve e read_err upgraded token r sg =
     (if in_Path r = ws_path then
        (case ServeWS (Jwt_lib (sg_deps sg)) (JWTManager (sg_deps sg)) (e_now e) (sg_next sg) upgraded token
               (sg_hub sg) of
           (st, h) \<Rightarrow> (Socket st, sg\<lparr>sg_hub := h, sg_next := Suc (sg_next sg)\<rparr>))
      else (case NewRouter (sg_deps sg) e read_err r (sg_server sg) of
           (rep, s) \<Rightarrow> (Http rep, sg\<lparr>sg_server := s\<rparr>)))"

text \<open>What the listening server does with a request: the outer mux, behind the CORS headers in
  development.\<close>

definition handle ::
  "env \<Rightarrow> goerr option \<Rightarrow> bool \<Rightarrow> string \<Rightarrow> request_in \<Rightarrow> 'v serving
   \<Rightarrow> (string \<times> string) list \<times> served \<times> 'v serving" where
  "handle e read_err upgraded token r sg =
     NewServer (\<lambda>st. Http (Reply st NoBody)) (sg_config sg) (serve e read_err upgraded token) r sg"

lemma handle_serve:
  "snd (snd (handle e re up tok r sg)) = sg \<or> snd (handle e re up tok r sg) = serve e re up tok r sg"
  "\<not> DevCORS (sg_config sg) \<Longrightarrow> snd (handle e re up tok r sg) = serve e re up tok r sg"
  by (simp_all add: handle_def NewServer_def corsMiddleware_def)

text \<open>\<open>brokerQueryRunner\<close>: the broker as the runner of the pollers.\<close>

definition run_query :: "net \<Rightarrow> clock \<Rightarrow> broker \<Rightarrow> string \<Rightarrow> string \<Rightarrow> string list result \<times> broker" where
  "run_query w k b userID sql =
     (case Execute w k b userID sql of
        (Inl err, b1) \<Rightarrow> (Inl err, b1)
      | (Inr res, b1) \<Rightarrow> (Inr (Rows res), b1))"

text \<open>One ping of the system health poller; an error of the broadcast is dropped.\<close>

definition ping_state :: "net \<Rightarrow> string \<Rightarrow> string \<times> string" where
  "ping_state w url =
     (case (case build_error w of Some e \<Rightarrow> Fails e None | None \<Rightarrow> client_do w (get_request (url @ ''/ping''))) of
        Fails err _ \<Rightarrow> (''unhealthy'', Error err)
      | Response st _ _ \<Rightarrow>
          if st \<noteq> StatusOK then (''unhealthy'', ''ping returned HTTP '' @ show_nat st)
          else (''healthy'', []))"

definition health_poll ::
  "'v json_lib \<Rightarrow> (string \<Rightarrow> payload \<Rightarrow> string result) \<Rightarrow> net \<Rightarrow> string \<Rightarrow> string \<Rightarrow> 'v hub \<Rightarrow> 'v hub" where
  "health_poll J marshal w url at h =
     (case ping_state w url of (state, message) \<Rightarrow>
        snd (BroadcastSystemHealth J marshal h ''clickhouse'' state message at))"

section \<open>The supervised services\<close>

definition services :: "string \<Rightarrow> service_name list" where
  "services os = (if os = ''linux'' then [''redpanda'', ''clickhouse''] else [''clickhouse''])"

definition stages :: "string \<Rightarrow> event list" where
  "stages os = concat (map (\<lambda>n. [Started n, Healthy n]) (services os))"

lemma ep_name_engines [simp]:
  "ep_name (ch_NewProcess c) = ''clickhouse''" "ep_name (rp_NewProcess r) = ''redpanda''"
  by (simp_all add: ch_NewProcess_def rp_NewProcess_def NewExecProcess_def ServiceClickHouse_def
      ServiceRedpanda_def)

lemma not_live_engines [simp]: "\<not> is_live (ch_NewProcess c)" "\<not> is_live (rp_NewProcess r)"
  by (simp_all add: ch_NewProcess_def rp_NewProcess_def NewExecProcess_def is_live_def)

lemma assemble_services:
  "assemble os k l fs = (Continues s, fs') \<Longrightarrow>
   map rg_name s = services os \<and> (\<forall>r\<in>set s. \<not> is_live (rg_process r))
   \<and> full_start s = stages os \<and> fs' (ch_BinaryPath (clickhouseConfig l)) \<noteq> None"
  by (cases "os = ''linux''")
    (auto simp: assemble_def Let_def Register_def rg_name_def services_def stages_def full_start_def
      split: option.splits prod.splits if_splits)

lemma start_names: "Start dur s os = (evs, s', out) \<Longrightarrow> map rg_name s' = map rg_name s"
proof (induction dur s os arbitrary: evs s' out rule: Start.induct)
  case (3 dur reg regs o' os)
  show ?case using 3(2) 3(1) [OF refl]
    by (auto simp: Let_def rg_name_def proc_Start_def split: option.splits prod.splits)
qed auto

text \<open>C17: the \<open>run\<close> command cleans up. If it ends, for whatever reason (no settings, no binary, a
  service that does not start or does not become healthy, a signal), no supervised process is left
  running, and if any service was started then all were stopped, the last one registered first.
  Whenever one looks, what happened is an initial part of: Redpanda starts (on Linux), is
  healthy, ClickHouse starts, is healthy; and nothing starts unless the ClickHouse binary is
  there.\<close>

theorem run_cleans_up:
  assumes "runControlPlane pe os k fs dur starts signalled stops = ((res, evs, ns, s), fs')"
    and "length stops = length (services os)" and "\<forall>o'\<in>set stops. \<forall>e. st_race o' \<noteq> ContextDone e"
  shows "prefix evs (stages os)
    \<and> (\<forall>x. res = Ended x \<longrightarrow> (\<forall>r\<in>set s. \<not> is_live (rg_process r)) \<and> (evs \<noteq> [] \<longrightarrow> ns = rev (services os)))
    \<and> (evs \<noteq> [] \<longrightarrow> (\<exists>cfg l. loadSettingsOrExit pe = Continues (cfg, l)
          \<and> fs' (ch_BinaryPath (clickhouseConfig l)) \<noteq> None))"
proof (cases "\<exists>cfg l s0. loadSettingsOrExit pe = Continues (cfg, l) \<and> assemble os k l fs = (Continues s0, fs')")
  case False
  then have "evs = [] \<and> s = []"
    using assms(1) by (auto simp: runControlPlane_def split: or_exit.splits prod.splits)
  then show ?thesis by simp
next
  case True
  then obtain cfg l s0 where l: "loadSettingsOrExit pe = Continues (cfg, l)"
    and a: "assemble os k l fs = (Continues s0, fs')" by blast
  note asm = assemble_services [OF a]
  obtain s1 out where st: "Start dur s0 starts = (evs, s1, out)"
    and sup: "supervise dur s0 starts signalled stops = (res, evs, ns, s)"
    using assms(1) l a
    by (cases "Start dur s0 starts")
      (auto simp: runControlPlane_def supervise_def split: option.splits prod.splits if_splits)
  have pre: "prefix evs (stages os)" using start_gated [OF st] asm by simp
  have names: "map rg_name s1 = services os" using start_names [OF st] asm by simp
  have "(\<forall>r\<in>set s. \<not> is_live (rg_process r)) \<and> ns = rev (services os)" if ended: "res = Ended x" for x
  proof -
    obtain o1 where sp: "Stop s1 stops = (ns, s, Some o1)"
      using sup st ended
      by (auto simp: supervise_def split: option.splits prod.splits if_splits)
    have len: "length stops = length s1" using assms(2) names by (metis length_map)
    from stop_all [OF sp len] show ?thesis using assms(3) names by blast
  qed
  then show ?thesis using pre l asm by blast
qed

text \<open>The binary is not looked into: what a broken download left counts as the binary.\<close>

lemma assemble_takes_any_binary:
  assumes "fs (ch_BinaryPath (clickhouseConfig l)) = Some part"
  shows "assemble ''darwin'' good_disk l fs =
      (Continues (Register [] (ch_NewProcess (clickhouseConfig l)) (30 * Second) zero_backoff),
       fs(ch_ConfigPath (clickhouseConfig l) \<mapsto> ch_configXML (clickhouseConfig l),
          ch_UsersPath (clickhouseConfig l) \<mapsto> ch_usersXML))"
  using assms ch_paths_distinct [of "clickhouseConfig l"]
  by (auto simp: assemble_def good_disk_def ch_GenerateConfig_def WriteFile_def Let_def)

definition sample_process_env :: process_env where
  "sample_process_env = \<lparr>Getenv = (\<lambda>v. if v = ''HERMINAS_HOME'' then ''/h'' else
       if v = ''HERMINAS_BOOTSTRAP_ADMIN_USER'' then ''root'' else
       if v = ''HERMINAS_BOOTSTRAP_ADMIN_PASSWORD'' then ''pw'' else
       if v = ''HERMINAS_JWT_SECRET'' then ''key'' else []), Getwd = None, ReadInConfig = (\<lambda>_. Inr ()),
     UnmarshalConfig = (\<lambda>_. Inr \<lparr>raw_environment = ''dev'', raw_http_port = 8080, raw_grpc_port = 9090,
       raw_data_dir = [], raw_llm_provider = [], raw_llm_api_key = []\<rparr>)\<rparr>"

lemma run_cleans_up_witness:
  "\<exists>x evs ns s fs'. runControlPlane sample_process_env ''darwin'' good_disk
      (\<lambda>_. Some ''ELF'') (\<lambda>_. ''30s'')
      [\<lparr>so_start = None, so_begin = 0, so_polls = [\<lparr>p_health = Inl (Plain ''refused''), p_now = 31 * Second, p_ctx = None\<rparr>]\<rparr>]
      False [\<lparr>st_race = ExitsInTime None, st_watch_ends = True\<rparr>] = ((Ended x, evs, ns, s), fs')
    \<and> (\<forall>r\<in>set s. \<not> is_live (rg_process r)) \<and> evs = [Started ''clickhouse''] \<and> ns = [''clickhouse'']"
proof -
  let ?starts = "[\<lparr>so_start = None, so_begin = 0, so_polls = [\<lparr>p_health = Inl (Plain ''refused''), p_now = 31 * Second, p_ctx = None\<rparr>]\<rparr>]"
  let ?stops = "[\<lparr>st_race = ExitsInTime None, st_watch_ends = True\<rparr>]"
  obtain cfg l where l: "loadSettingsOrExit sample_process_env = Continues (cfg, l)"
    by (simp add: loadSettingsOrExit_def Load_def sample_process_env_def Let_def)
  obtain fs1 s0 where a: "assemble ''darwin'' good_disk l (\<lambda>_. Some ''ELF'') = (Continues s0, fs1)"
    and s0: "s0 = Register [] (ch_NewProcess (clickhouseConfig l)) (30 * Second) zero_backoff"
    using assemble_takes_any_binary [of "\<lambda>_. Some ''ELF''" l] by simp
  obtain x ns s where sup: "supervise (\<lambda>_. ''30s'') s0 ?starts False ?stops
      = (Ended x, [Started ''clickhouse''], ns, s)"
    by (auto simp: supervise_def s0 Register_def proc_Start_def reports_healthy_def Let_def Second_def
        Stop_def proc_Stop_def split: proc_run.split)
  have r: "runControlPlane sample_process_env ''darwin'' good_disk (\<lambda>_. Some ''ELF'') (\<lambda>_. ''30s'')
      ?starts False ?stops = ((Ended x, [Started ''clickhouse''], ns, s), fs1)"
    using l a sup by (simp add: runControlPlane_def)
  have n: "length ?stops = length (services ''darwin'')" "\<forall>o'\<in>set ?stops. \<forall>e. st_race o' \<noteq> ContextDone e"
    by (simp_all add: services_def)
  from run_cleans_up [OF r n] r show ?thesis by (auto simp: services_def)
qed

section \<open>The broker as it is shipped\<close>

definition inert :: "broker \<Rightarrow> bool" where
  "inert b \<longleftrightarrow> qt_quota (b_quotas b) = \<lparr>RequestsPerMinute = 0, MaxRowsToRead = 0\<rparr> \<and> c_ttl (b_cache b) = 0"

lemma inert_query:
  assumes "inert b"
  shows "fst (do_call b c) = (case doQuery (call_net c) b (call_sql c) of
      Inl err \<Rightarrow> Inl err
    | Inr text \<Rightarrow> Inr \<lparr>Rows = splitLines text, qr_RowCount = length (splitLines text),
        Duration = at_end (call_clock c) - at_start (call_clock c), qr_Cached = False\<rparr>)"
    "inert (snd (do_call b c))" "b_url (snd (do_call b c)) = b_url b"
proof -
  have ok: "fst (Allow (b_quotas b) t u)" for t u using assms by (simp add: Allow_def inert_def)
  have miss: "peek (b_cache b) t q = None" for t q using assms by (simp add: peek_def inert_def)
  have ttl: "c_ttl (snd (Get (b_cache b) t q)) = 0" for t q using assms by (simp add: rc.life_get inert_def)
  note e = Execute_query [OF ok miss]
  show "fst (do_call b c) = (case doQuery (call_net c) b (call_sql c) of
      Inl err \<Rightarrow> Inl err
    | Inr text \<Rightarrow> Inr \<lparr>Rows = splitLines text, qr_RowCount = length (splitLines text),
        Duration = at_end (call_clock c) - at_start (call_clock c), qr_Cached = False\<rparr>)"
    by (simp add: do_call_def e Let_def split: sum.split)
  show "inert (snd (do_call b c))" "b_url (snd (do_call b c)) = b_url b"
    using assms ttl
    by (simp_all add: do_call_def e Let_def journal_def inert_def rc.life_put split: sum.split)
qed

lemma inert_calls:
  "inert b \<Longrightarrow> inert (snd (run_calls b cs)) \<and> b_url (snd (run_calls b cs)) = b_url b"
proof (induction cs arbitrary: b)
  case (Cons c cs)
  show ?case using Cons.IH [OF inert_query(2) [OF Cons.prems, of c]] inert_query(3) [OF Cons.prems, of c]
    by (cases "do_call b c"; cases "run_calls (snd (do_call b c)) cs") simp
qed simp

lemma serveAPI_broker:
  assumes "serveAPI pe rs = Continues sg"
  shows "inert (sv_broker (sg_server sg)) \<and> b_url (sv_broker (sg_server sg)) = clickhouse_url pe"
  using assms
  by (auto simp: serveAPI_def Let_def NewBroker_def api_broker_config_def inert_def NewCache_def
      NewQuotaTracker_def split: or_exit.splits option.splits sum.splits prod.splits)

text \<open>The shipped server sets no quota. Whatever calls came before on the broker that \<open>serve-api\<close>
  builds, the next one goes straight to ClickHouse, its answer is not one of the cache, and the
  request carries no limit on the rows read: the per-user limit, the scan limit and the cache of the
  broker are all off.\<close>

theorem shipped_broker_has_no_limits:
  assumes "serveAPI pe rs = Continues sg" and "b = snd (run_calls (sv_broker (sg_server sg)) cs)"
  shows "fst (do_call b c) = (case doQuery (call_net c) b (call_sql c) of
      Inl err \<Rightarrow> Inl err
    | Inr text \<Rightarrow> Inr \<lparr>Rows = splitLines text, qr_RowCount = length (splitLines text),
        Duration = at_end (call_clock c) - at_start (call_clock c), qr_Cached = False\<rparr>)
    \<and> query_request b (call_sql c) = \<lparr>rq_method = ''POST'', rq_url = clickhouse_url pe,
        rq_query = [(''query'', call_sql c @ '' FORMAT JSONEachRow'')],
        rq_headers = [(''Content-Length'', ''0'')], rq_body = []\<rparr>"
proof -
  have b: "inert b" "b_url b = clickhouse_url pe"
    using inert_calls serveAPI_broker [OF assms(1)] assms(2) by simp_all
  show ?thesis using inert_query(1) [OF b(1)] b by (simp add: query_request_def inert_def)
qed

definition sample_resources :: "unit resources" where
  "sample_resources = \<lparr>rs_disk = good_disk, rs_auth = Inr \<lparr>users = [], api_tokens = []\<rparr>,
     rs_schemas = Inr \<lparr>datasets = [], dataset_versions = []\<rparr>,
     rs_audit = Inr \<lparr>al_entries = [], al_writable = True\<rparr>, rs_rand = Inr [],
     rs_ws = Inr \<lparr>envelope = (\<lambda>_. None), payloads = Map.empty\<rparr>, rs_crypto = sample_crypto,
     rs_faults = auth_no_faults (Plain ''UNIQUE''), rs_jwt = \<lparr>NewNumericDate = (\<lambda>t. t),
       SignedString = (\<lambda>_ _ _. Inl (Plain [])), ParseWithClaims = (\<lambda>_ _ _ _. Inl (Plain []))\<rparr>, rs_now = 0\<rparr>"

lemma sample_serving: "\<exists>sg. serveAPI sample_process_env sample_resources = Continues sg
    \<and> 0 < RateLimitPerMinute (sg_deps sg)"
  by (simp add: serveAPI_def loadSettingsOrExit_def Load_def sample_process_env_def sample_resources_def
      good_disk_def NewBroker_def OpenAuditLog_def bootstrapAdminUser_def VerifyPassword_def
      auth_no_faults_def tbl_select_def CreateUser_def Valid_iff_All All_def sample_crypto_def
      insert_user_def tbl_insert_def jwtSecretFromEnv_def Let_def)

lemma shipped_broker_has_no_limits_witness:
  "\<exists>sg. serveAPI sample_process_env sample_resources = Continues sg
    \<and> fst (do_call (snd (run_calls (sv_broker (sg_server sg)) []))
        \<lparr>call_net = sample_net 200 ''1'', call_clock = sample_clock 0, call_user = ''u'', call_sql = ''S''\<rparr>)
      = Inr \<lparr>Rows = [''1''], qr_RowCount = 1, Duration = 0, qr_Cached = False\<rparr>"
proof -
  obtain sg where sg: "serveAPI sample_process_env sample_resources = Continues sg"
    using sample_serving by blast
  have "doQuery (sample_net 200 ''1'') b q = Inr ''1''" for b q
    by (simp add: doQuery_def request_def sample_net_def StatusOK_def)
  with shipped_broker_has_no_limits [OF sg refl, THEN conjunct1, of "[]"
      "\<lparr>call_net = sample_net 200 ''1'', call_clock = sample_clock 0, call_user = ''u'', call_sql = ''S''\<rparr>"] sg
  show ?thesis by (simp add: splitLines_def sample_clock_def)
qed

section \<open>The settings that matter\<close>

text \<open>The same environment with another text in the settings file.\<close>

definition reconfigured :: "(raw_settings \<Rightarrow> raw_settings) \<Rightarrow> process_env \<Rightarrow> process_env" where
  "reconfigured f pe = pe\<lparr>UnmarshalConfig := (\<lambda>p. map_sum id f (UnmarshalConfig pe p))\<rparr>"

lemma reconfigured_simps [simp]:
  "Getenv (reconfigured f pe) = Getenv pe" "Getwd (reconfigured f pe) = Getwd pe"
  "ReadInConfig (reconfigured f pe) = ReadInConfig pe"
  "UnmarshalConfig (reconfigured f pe) p = map_sum id f (UnmarshalConfig pe p)"
  "config_path (reconfigured f pe) = config_path pe"
  by (simp_all add: reconfigured_def config_path_def)

lemma load_reconfigured:
  assumes "\<And>raw. raw_http_port (f raw) = raw_http_port raw"
  shows "(\<exists>m. loadSettingsOrExit pe = ExitWith m \<and> loadSettingsOrExit (reconfigured f pe) = ExitWith m)
    \<or> (\<exists>cfg cfg' l. loadSettingsOrExit pe = Continues (cfg, l)
        \<and> loadSettingsOrExit (reconfigured f pe) = Continues (cfg', l) \<and> httpPort cfg' = httpPort cfg)"
  by (cases "ReadInConfig pe (config_path pe)"; cases "UnmarshalConfig pe (config_path pe)")
    (simp_all add: loadSettingsOrExit_def Load_def assms)

text \<open>Of the settings file only the port counts. Whatever else it says (the environment, the data
  directory, the gRPC port, the language model), as long as it loads, starting the server and
  running the supervised services do the same, and so does the status command; only the check
  prints the rest.\<close>

theorem only_the_port_is_used:
  assumes "\<And>raw. raw_http_port (f raw) = raw_http_port raw"
  shows "serveAPI (reconfigured f pe) rs = serveAPI pe rs
    \<and> runControlPlane (reconfigured f pe) os k fs dur starts signalled stops
        = runControlPlane pe os k fs dur starts signalled stops
    \<and> statusControlPlane (reconfigured f pe) os w now = statusControlPlane pe os w now"
proof -
  have "bootstrapAdminUser (reconfigured f pe) = bootstrapAdminUser pe"
    "jwtSecretFromEnv (reconfigured f pe) = jwtSecretFromEnv pe"
    "clickhouse_url (reconfigured f pe) = clickhouse_url pe"
    by (simp_all add: fun_eq_iff bootstrapAdminUser_def jwtSecretFromEnv_def clickhouse_url_def)
  then have same: "bootstrapAdminUser (reconfigured f pe) = bootstrapAdminUser pe"
    "jwtSecretFromEnv (reconfigured f pe) = jwtSecretFromEnv pe"
    "clickhouse_url (reconfigured f pe) = clickhouse_url pe"
    "api_broker_config (reconfigured f pe) = api_broker_config pe"
    by (simp_all add: api_broker_config_def)
  show ?thesis
    using load_reconfigured [of f pe, OF assms]
    by (elim disjE exE conjE)
      (simp_all add: serveAPI_def runControlPlane_def statusControlPlane_def same
        cong del: option.case_cong_weak sum.case_cong_weak prod.case_cong_weak or_exit.case_cong_weak)
qed

lemma only_the_port_is_used_witness:
  "serveAPI (reconfigured (\<lambda>raw. raw\<lparr>raw_data_dir := ''/elsewhere'', raw_grpc_port := 1\<rparr>) sample_process_env)
     sample_resources = serveAPI sample_process_env sample_resources"
  by (rule only_the_port_is_used [THEN conjunct1]) simp

section \<open>The first account\<close>

text \<open>C35: the bootstrap account. With both variables set, and a bcrypt whose hashes verify their
  password: an error comes back only when hashing fails. A name that exists is left as it is, so the
  configured password does not log in unless it was the one before. Otherwise the account is made
  and logs in as an administrator; unless the database refuses the row, for whatever reason, in
  which case no account is made and no error comes back either.\<close>

theorem bootstrap_account:
  assumes "bootstrapAdminUser pe c flt now db = (res, db')"
    and u: "u = Getenv pe ''HERMINAS_BOOTSTRAP_ADMIN_USER''" "u \<noteq> []"
    and p: "p = Getenv pe ''HERMINAS_BOOTSTRAP_ADMIN_PASSWORD''" "p \<noteq> []"
    and bcrypt: "\<And>h. GenerateFromPassword c p = Inr h \<Longrightarrow> CompareHashAndPassword c h p"
  shows "(\<forall>err. res = Some err \<longrightarrow> db' = db
        \<and> (\<exists>e. GenerateFromPassword c p = Inl e \<and> err = Wrap CodeInternal ''hash password'' e))
    \<and> (tbl_select Username u (users db) \<noteq> None \<longrightarrow> db' = db)
    \<and> (res = None \<and> tbl_select Username u (users db) = None \<and> on_exec flt = None \<longrightarrow>
        (\<exists>x. VerifyPassword c (auth_no_faults v) db' u p = Inr x \<and> u_Role x = RoleAdmin))
    \<and> (on_exec flt \<noteq> None \<and> GenerateFromPassword c p = Inr h \<longrightarrow> (res, db') = (None, db))"
proof -
  have valid: "Valid RoleAdmin" by (simp add: Valid_iff_All All_def)
  let ?new = "\<lambda>h. \<lparr>Username = u, PasswordHash = h, u_Role = RoleAdmin, u_CreatedAt = now\<rparr>"
  have run: "(res, db') = (case VerifyPassword c flt db u p of Inr _ \<Rightarrow> (None, db)
      | Inl _ \<Rightarrow> (case GenerateFromPassword c p of
          Inl e \<Rightarrow> (Some (Wrap CodeInternal ''hash password'' e), db)
        | Inr g \<Rightarrow> (case insert_user flt (?new g) (users db) of
            Inl _ \<Rightarrow> (None, db) | Inr rows \<Rightarrow> (None, db\<lparr>users := rows\<rparr>))))"
    unfolding assms(1) [symmetric] bootstrapAdminUser_def Let_def CreateUser_def u(1) [symmetric] p(1) [symmetric]
    using u(2) p(2) valid
    by (simp add: Wrap_def IsAlreadyExists_def Is_def split: sum.split)
  consider (exists) x where "VerifyPassword c flt db u p = Inr x" "res = None" "db' = db"
    | (hash) e g where "VerifyPassword c flt db u p = Inl e" "GenerateFromPassword c p = Inl g"
        "res = Some (Wrap CodeInternal ''hash password'' g)" "db' = db"
    | (refused) e g x where "VerifyPassword c flt db u p = Inl e" "GenerateFromPassword c p = Inr g"
        "insert_user flt (?new g) (users db) = Inl x" "res = None" "db' = db"
    | (created) e g rows where "VerifyPassword c flt db u p = Inl e" "GenerateFromPassword c p = Inr g"
        "insert_user flt (?new g) (users db) = Inr rows" "res = None" "db' = db\<lparr>users := rows\<rparr>"
    using run by (simp split: sum.splits)
  then show ?thesis
  proof cases
    case exists
    moreover have "tbl_select Username u (users db) \<noteq> None"
      using exists(1) by (auto simp: VerifyPassword_def split: option.splits)
    ultimately show ?thesis by auto
  next
    case hash
    then show ?thesis by simp
  next
    case refused
    then have "on_exec flt = None \<Longrightarrow> tbl_select Username u (users db) \<noteq> None"
      by (auto simp: insert_user_def us.insert_refused split: option.splits)
    then show ?thesis using refused by auto
  next
    case created
    then have ins: "tbl_insert Username (?new g) (users db) = Some rows" and "on_exec flt = None"
      by (auto simp: insert_user_def split: option.splits)
    moreover have "tbl_select Username u (users db) = None"
      using us.insert_refused [of "?new g" "users db"] ins by simp
    moreover have "tbl_select Username u rows = Some (?new g)"
      using us.select_inserted [OF ins] by simp
    ultimately show ?thesis using created bcrypt by (simp add: VerifyPassword_def auth_no_faults_def)
  qed
qed

lemma bootstrap_account_witness:
  "let flt = auth_no_faults (Plain ''UNIQUE''); db = \<lparr>users = [], api_tokens = []\<rparr> in
   bootstrapAdminUser sample_process_env sample_crypto (flt\<lparr>on_exec := Some (Plain ''disk full'')\<rparr>) 0 db = (None, db)
   \<and> (\<exists>db' x. bootstrapAdminUser sample_process_env sample_crypto flt 0 db = (None, db')
        \<and> VerifyPassword sample_crypto flt db' ''root'' ''pw'' = Inr x \<and> u_Role x = RoleAdmin)"
proof -
  let ?flt = "auth_no_faults (Plain ''UNIQUE'')" and ?db = "\<lparr>users = [], api_tokens = []\<rparr>"
  let ?full = "?flt\<lparr>on_exec := Some (Plain ''disk full'')\<rparr>"
  have u: "''root'' = Getenv sample_process_env ''HERMINAS_BOOTSTRAP_ADMIN_USER''"
    and p: "''pw'' = Getenv sample_process_env ''HERMINAS_BOOTSTRAP_ADMIN_PASSWORD''"
    by (simp_all add: sample_process_env_def)
  have h: "CompareHashAndPassword sample_crypto h ''pw''" if "GenerateFromPassword sample_crypto ''pw'' = Inr h" for h
    using that by (auto simp: sample_crypto_def)
  have g: "GenerateFromPassword sample_crypto ''pw'' = Inr ''h:pw''" by (simp add: sample_crypto_def)
  obtain res db' where b: "bootstrapAdminUser sample_process_env sample_crypto ?flt 0 ?db = (res, db')"
    by (cases "bootstrapAdminUser sample_process_env sample_crypto ?flt 0 ?db")
  obtain res1 db1 where b1: "bootstrapAdminUser sample_process_env sample_crypto ?full 0 ?db = (res1, db1)"
    by (cases "bootstrapAdminUser sample_process_env sample_crypto ?full 0 ?db")
  note ok = bootstrap_account [OF b u _ p _ h, of "Plain ''UNIQUE''" "''h:pw''"]
  note full = bootstrap_account [OF b1 u _ p _ h, of "Plain ''UNIQUE''" "''h:pw''"]
  have "res = None" using ok g by (cases res) auto
  moreover have "tbl_select Username ''root'' (users ?db) = None" by (simp add: tbl_select_def)
  moreover have "on_exec ?flt = None" by (simp add: auth_no_faults_def)
  ultimately have "\<exists>x. VerifyPassword sample_crypto ?flt db' ''root'' ''pw'' = Inr x \<and> u_Role x = RoleAdmin"
    using ok by simp
  moreover have "(res1, db1) = (None, ?db)" using full g by simp
  ultimately show ?thesis using b b1 \<open>res = None\<close> unfolding Let_def by auto
qed

section \<open>The hub beside the router\<close>



definition login_reply :: "api_body reply \<Rightarrow> bool" where
  "login_reply rep \<longleftrightarrow> (\<exists>st tok ro. rep = Reply st (LoginJson tok ro))"

lemma no_login_reply:
  "\<not> login_reply (fst (queryHandler e r s))"
  "\<not> login_reply (fst (Routes d e r s))"
  "\<not> login_reply (fst (static_or d e st r s))"
  "\<not> login_reply (fst (ingestHandler d e name re r s))"
  by (auto simp: login_reply_def queryHandler_def Routes_def static_or_def ingestHandler_def ingest_records_def
      api_error_def mux_miss_def after_ddl_def schema_reply_def Let_def
      split: sum.splits prod.splits list.splits option.splits ingest_lines.splits)

lemma mux_login:
  assumes "login_reply (fst (mux d e re r s))"
  shows "mux d e re r s = loginHandler d e r s"
proof (cases "in_Path r = [''api'', ''v1'', ''auth'', ''login''] \<and> in_Method r = ''POST''")
  case True
  then show ?thesis by (simp add: mux_def)
next
  case False
  have "\<not> login_reply (fst (mux d e re r s))"
    by (rule mux_obeys [where R = "\<lambda>_ out. \<not> login_reply (fst out)"])
      (use False in \<open>auto simp: obeys_def no_login_reply healthHandler_def login_reply_def [of "Reply _ _"]\<close>)
  then show ?thesis using assms by contradiction
qed

text \<open>C23: one login for both. The token a login through the router returns opens a connection of the
  hub, for the user who logged in, from then until a second before its hour is over; once it is over
  the hub answers 401 and keeps its clients as they were.\<close>

theorem login_token_opens_socket:
  assumes "serveAPI pe rs = Continues sg0" and lib: "jwt_lib_ok (Jwt_lib (sg_deps sg0))"
    and "serve e1 err up tok1 r1 sg1 = (Http (Reply StatusOK (LoginJson tok role)), sg2)"
    and "sg_deps sg1 = sg_deps sg0" and "sg_deps sg = sg_deps sg0" and ws: "in_Path r = ws_path"
  shows "\<exists>req u. decode_login (e_json e1) (in_Body r1) = Inr req
    \<and> VerifyPassword (Crypto (sg_deps sg0)) (e_auth_faults e1) (AuthDb (sg_deps sg0)) (lr_Username req) (lr_Password req)
        = Inr u
    \<and> (e_now e \<le> e_now e1 + Hour - Second \<longrightarrow>
        serve e err2 True tok r sg = (Socket None, sg\<lparr>sg_next := Suc (sg_next sg),
          sg_hub := add (sg_next sg) (newClient (e_now e) (Username u)) (sg_hub sg)\<rparr>))
    \<and> (e_now e \<ge> e_now e1 + Hour \<longrightarrow>
        serve e err2 True tok r sg = (Socket (Some 401), sg\<lparr>sg_next := Suc (sg_next sg)\<rparr>))"
proof -
  let ?d = "sg_deps sg0"
  have ttl: "ttl (JWTManager ?d) = Hour"
    using assms(1) by (auto simp: serveAPI_def Let_def NewJWTManager_def
        split: or_exit.splits option.splits sum.splits prod.splits)
  obtain s s' where "mux ?d e1 err r1 s = (Reply StatusOK (LoginJson tok role), s')"
    using assms(3,4)
    by (auto simp: serve_def NewRouter_def RateLimit_mw_def api_error_def split: prod.splits if_splits bool.splits)
  then have "loginHandler ?d e1 r1 s = (Reply StatusOK (LoginJson tok role), s')"
    using mux_login [of ?d e1 err r1 s] by (simp add: login_reply_def)
  then obtain req u where req: "decode_login (e_json e1) (in_Body r1) = Inr req"
    and u: "VerifyPassword (Crypto ?d) (e_auth_faults e1) (AuthDb ?d) (lr_Username req) (lr_Password req) = Inr u"
    and tok: "Issue (Jwt_lib ?d) (e_now e1) (JWTManager ?d) (Username u) (u_Role u) = Inr tok"
    by (auto simp: loginHandler_def api_error_def split: sum.splits)
  obtain x where x: "x \<le> e_now e1 + Hour" "e_now e1 + Hour < x + Second"
    and v: "if e_now e < x then \<exists>c. Verify (Jwt_lib ?d) (e_now e) (JWTManager ?d) tok = Inr c
        \<and> cl_Username c = Username u \<and> cl_Role c = u_Role u
      else \<exists>err. Verify (Jwt_lib ?d) (e_now e) (JWTManager ?d) tok = Inl err"
    using Issue_Verify [OF lib tok, of "e_now e"] unfolding ttl by blast
  have early: "e_now e < x" if "e_now e \<le> e_now e1 + Hour - Second" using that x(2) by simp
  have late: "\<not> e_now e < x" if "e_now e \<ge> e_now e1 + Hour" using that x(1) by simp
  show ?thesis
    using req u v early late assms(5) ws
    by (auto simp: serve_def ServeWS_def StatusUnauthorized_def split: if_splits)
qed

definition root_claims :: claims where
  "root_claims = \<lparr>IssuedAt = 0, cl_ExpiresAt = Hour, cl_Subject = ''root'', cl_Username = ''root'',
     cl_Role = RoleAdmin\<rparr>"

definition root_jwt_lib :: jwt_lib where
  "root_jwt_lib = \<lparr>NewNumericDate = (\<lambda>t. t),
     SignedString = (\<lambda>alg s c. if c = root_claims \<and> s = ''key'' then Inr ''tok'' else Inl (Plain [])),
     ParseWithClaims = (\<lambda>ms s now tok. if tok = ''tok'' \<and> s = ''key'' \<and> now < Hour
       then Inr (root_claims, True) else Inl (Plain []))\<rparr>"

lemma login_token_opens_socket_witness:
  "\<exists>sg sg2. serveAPI sample_process_env (sample_resources\<lparr>rs_jwt := root_jwt_lib\<rparr>) = Continues sg
     \<and> serve (sample_env 0\<lparr>e_json := sample_json\<lparr>decode_login := (\<lambda>_. Inr \<lparr>lr_Username = ''root'', lr_Password = ''pw''\<rparr>)\<rparr>\<rparr>)
         None False [] (sample_in ''POST'' [''api'', ''v1'', ''auth'', ''login''] []) sg
       = (Http (Reply StatusOK (LoginJson ''tok'' RoleAdmin)), sg2)
     \<and> fst (serve (sample_env 5) None True ''tok'' (sample_in ''GET'' ws_path []) sg2) = Socket None
     \<and> fst (serve (sample_env Hour) None True ''tok'' (sample_in ''GET'' ws_path []) sg2) = Socket (Some 401)"
proof -
  let ?rs = "sample_resources\<lparr>rs_jwt := root_jwt_lib\<rparr>"
  let ?e = "sample_env 0\<lparr>e_json := sample_json\<lparr>decode_login := (\<lambda>_. Inr \<lparr>lr_Username = ''root'', lr_Password = ''pw''\<rparr>)\<rparr>\<rparr>"
  let ?r = "sample_in ''POST'' [''api'', ''v1'', ''auth'', ''login''] []"
  let ?u = "\<lparr>Username = ''root'', PasswordHash = ''h:pw'', u_Role = RoleAdmin, u_CreatedAt = 0\<rparr>"
  obtain sg where sg: "serveAPI sample_process_env ?rs = Continues sg"
    and d: "Jwt_lib (sg_deps sg) = root_jwt_lib" "JWTManager (sg_deps sg) = \<lparr>secret = ''key'', ttl = Hour\<rparr>"
      "Crypto (sg_deps sg) = sample_crypto" "AuthDb (sg_deps sg) = \<lparr>users = [?u], api_tokens = []\<rparr>"
      "RateLimitPerMinute (sg_deps sg) = 600" "sv_limiter (sg_server sg) = newSlidingWindow 600"
    by (simp add: serveAPI_def loadSettingsOrExit_def Load_def sample_process_env_def sample_resources_def
      good_disk_def NewBroker_def OpenAuditLog_def bootstrapAdminUser_def VerifyPassword_def
      auth_no_faults_def tbl_select_def CreateUser_def Valid_iff_All All_def sample_crypto_def
      insert_user_def tbl_insert_def jwtSecretFromEnv_def Let_def NewJWTManager_def)
  have login: "loginHandler (sg_deps sg) ?e ?r s = (Reply StatusOK (LoginJson ''tok'' RoleAdmin), s)" for s
    by (simp add: loginHandler_def d VerifyPassword_def sample_env_def auth_no_faults_def tbl_select_def
        sample_crypto_def Issue_def root_jwt_lib_def root_claims_def)
  have path: "in_Path ?r = [''api'', ''v1'', ''auth'', ''login'']" "in_Method ?r = ''POST''"
    by (simp_all add: sample_in_def)
  obtain l where l: "allow (newSlidingWindow 600) t k = (True, l t k)" for t k
    by (simp add: allow_def newSlidingWindow_def Let_def)
  obtain sg2 where s: "serve ?e None False [] ?r sg = (Http (Reply StatusOK (LoginJson ''tok'' RoleAdmin)), sg2)"
    and sg2: "sg_deps sg2 = sg_deps sg"
    using path by (simp add: serve_def NewRouter_def RateLimit_mw_def d l mux_def login ws_path_def)
  have lib: "jwt_lib_ok (Jwt_lib (sg_deps sg))"
    by (auto simp: d jwt_lib_ok_def root_jwt_lib_def root_claims_def Second_def split: if_splits)
  have ws: "in_Path (sample_in ''GET'' ws_path []) = ws_path" by (simp add: sample_in_def)
  note t = login_token_opens_socket [OF sg lib s refl sg2 ws, of _ None]
  have "fst (serve (sample_env 5) None True ''tok'' (sample_in ''GET'' ws_path []) sg2) = Socket None"
    using t [of "sample_env 5"] by (auto simp: sample_env_def Hour_def Second_def)
  moreover have "fst (serve (sample_env Hour) None True ''tok'' (sample_in ''GET'' ws_path []) sg2) = Socket (Some 401)"
    using t [of "sample_env Hour"] by (auto simp: sample_env_def)
  ultimately show ?thesis using sg s by blast
qed

end
