(* ===== verification/Threads.thy ===== *)
theory Threads
  imports Prelude "HOL-Library.Multiset"
begin

text \<open>
  Goroutines that share a state. A \<open>thread\<close> is a computation as the code runs it: a sequence of atomic
  actions on the shared state (what one mutex, one SQL statement or transaction, one channel
  operation protects), each of which may decide how to go on. Between two actions of a thread any
  number of actions of others may happen. The theory gives the sequential reading, the interleaved
  one, and the rule by which what every thread guarantees holds of every interleaving.
\<close>

section \<open>Threads\<close>

datatype ('s, 'a) thread = Done 'a | Act "'s \<Rightarrow> 's \<times> ('s, 'a) thread"

lemma thread_induct [case_names Done Act]:
  assumes "\<And>a. P (Done a)" and "\<And>g. (\<And>s. P (snd (g s))) \<Longrightarrow> P (Act g)"
  shows "P t"
proof (induction t)
  case (Act g)
  show ?case by (rule assms(2)) (rule Act [OF rangeI], simp add: snds.simps)
qed (rule assms(1))

text \<open>One action with a result, sequencing, and a thread on a part of a larger state.\<close>

definition atom :: "('s \<Rightarrow> 'a \<times> 's) \<Rightarrow> ('s, 'a) thread" where
  "atom f = Act (\<lambda>s. case f s of (a, s') \<Rightarrow> (s', Done a))"

primrec and_then :: "('s, 'a) thread \<Rightarrow> ('a \<Rightarrow> ('s, 'b) thread) \<Rightarrow> ('s, 'b) thread" where
  "and_then (Done a) f = f a"
| "and_then (Act g) f = Act (\<lambda>s. map_prod id (\<lambda>t. and_then t f) (g s))"

lemma and_then_atom: "and_then (atom f) k = Act (\<lambda>s. (snd (f s), k (fst (f s))))"
  by (simp add: atom_def fun_eq_iff case_prod_beta)

primrec zoom :: "('s \<Rightarrow> 'p) \<Rightarrow> ('p \<Rightarrow> 's \<Rightarrow> 's) \<Rightarrow> ('p, 'a) thread \<Rightarrow> ('s, 'a) thread" where
  "zoom get put (Done a) = Done a"
| "zoom get put (Act g) = Act (\<lambda>s. map_prod (\<lambda>p. put p s) (zoom get put) (g (get s)))"

text \<open>The sequential reading: nobody else runs.\<close>

primrec run_alone :: "('s, 'a) thread \<Rightarrow> 's \<Rightarrow> 'a \<times> 's" where
  "run_alone (Done a) = (\<lambda>s. (a, s))"
| "run_alone (Act g) = (\<lambda>s. case map_prod id run_alone (g s) of (s', k) \<Rightarrow> k s')"

lemma run_atom [simp]: "run_alone (atom f) s = f s"
  by (simp add: atom_def split: prod.split)

lemma run_Act: "run_alone (Act g) s = run_alone (snd (g s)) (fst (g s))"
  by (simp add: case_prod_beta)

declare run_alone.simps(2) [simp del]

lemma run_and_then:
  "run_alone (and_then t f) s = (case run_alone t s of (a, s') \<Rightarrow> run_alone (f a) s')"
  by (induction t arbitrary: s rule: thread_induct) (simp_all add: run_Act)

lemma run_zoom:
  assumes "\<And>p s. get (put p s) = p" "\<And>p q s. put p (put q s) = put p s" "\<And>s. put (get s) s = s"
  shows "run_alone (zoom get put t) s = (case run_alone t (get s) of (a, p) \<Rightarrow> (a, put p s))"
  by (induction t arbitrary: s rule: thread_induct) (simp_all add: run_Act assms split: prod.split)

text \<open>A part of a part.\<close>

lemma zoom_Act: "zoom get put (Act g) = Act (\<lambda>s. (put (fst (g (get s))) s, zoom get put (snd (g (get s)))))"
  by (simp add: map_prod_def case_prod_beta)

lemma and_then_Act: "and_then (Act g) k = Act (\<lambda>s. (fst (g s), and_then (snd (g s)) k))"
  by (simp add: map_prod_def case_prod_beta)

lemma zoom_zoom: "zoom get put (zoom get' put' t) = zoom (\<lambda>s. get' (get s)) (\<lambda>p s. put (put' p (get s)) s) t"
  by (induction t rule: thread_induct) (simp_all only: zoom.simps(1) zoom_Act fst_conv snd_conv)

lemma zoom_atom: "zoom get put (atom f) = atom (\<lambda>s. case f (get s) of (a, p) \<Rightarrow> (a, put p s))"
  by (simp add: atom_def fun_eq_iff split: prod.split)

lemma zoom_and_then: "zoom get put (and_then t k) = and_then (zoom get put t) (\<lambda>a. zoom get put (k a))"
  by (induction t rule: thread_induct)
    (simp_all only: zoom.simps(1) and_then.simps(1) zoom_Act and_then_Act fst_conv snd_conv)

section \<open>Interleavings\<close>

text \<open>One action of a thread; a thread that is done stays as it is.\<close>

fun advance :: "('s, 'a) thread \<Rightarrow> 's \<Rightarrow> 's \<times> ('s, 'a) thread" where
  "advance (Done a) s = (s, Done a)"
| "advance (Act g) s = g s"

fun is_done :: "('s, 'a) thread \<Rightarrow> bool" where
  "is_done (Done a) \<longleftrightarrow> True"
| "is_done (Act g) \<longleftrightarrow> False"

definition pool_step :: "nat \<Rightarrow> 's \<times> ('s, 'a) thread list \<Rightarrow> 's \<times> ('s, 'a) thread list" where
  "pool_step i c =
     (case c of (s, ts) \<Rightarrow>
        if i < length ts then (case advance (ts ! i) s of (s', t) \<Rightarrow> (s', ts[i := t])) else (s, ts))"

definition pool_run :: "nat list \<Rightarrow> 's \<times> ('s, 'a) thread list \<Rightarrow> 's \<times> ('s, 'a) thread list" where
  "pool_run is c = foldl (\<lambda>c i. pool_step i c) c is"

lemma pool_run_Nil [simp]: "pool_run [] c = c"
  and pool_run_Cons [simp]: "pool_run (i # is) c = pool_run is (pool_step i c)"
  by (simp_all add: pool_run_def)

lemma pool_run_append: "pool_run (is @ js) c = pool_run js (pool_run is c)"
  by (simp add: pool_run_def)

lemma pool_step_length [simp]: "length (snd (pool_step i c)) = length (snd c)"
  by (simp add: pool_step_def split: prod.split)

lemma pool_run_length [simp]: "length (snd (pool_run is c)) = length (snd c)"
  by (induction "is" arbitrary: c) simp_all

section \<open>What a thread guarantees\<close>

text \<open>\<open>guarantees I R t Q s\<close>: from \<open>s\<close> on, as long as everybody else keeps \<open>I\<close> and moves along \<open>R\<close>, so does
  every action of \<open>t\<close>, and its result satisfies \<open>Q\<close> in the state it is reached in and later.\<close>

primrec guarantees ::
  "('s \<Rightarrow> bool) \<Rightarrow> ('s \<Rightarrow> 's \<Rightarrow> bool) \<Rightarrow> ('s, 'a) thread \<Rightarrow> ('s \<Rightarrow> 'a \<Rightarrow> bool) \<Rightarrow> 's \<Rightarrow> bool" where
  "guarantees I R (Done a) = (\<lambda>Q s. \<forall>s'. I s' \<longrightarrow> R s s' \<longrightarrow> Q s' a)"
| "guarantees I R (Act g) = (\<lambda>Q s. \<forall>s'. I s' \<longrightarrow> R s s' \<longrightarrow>
     (case map_prod id (guarantees I R) (g s') of (s'', G) \<Rightarrow> I s'' \<and> R s' s'' \<and> G Q s''))"

lemma guarantees_Act:
  "guarantees I R (Act g) Q s \<longleftrightarrow> (\<forall>s'. I s' \<longrightarrow> R s s' \<longrightarrow>
     I (fst (g s')) \<and> R s' (fst (g s')) \<and> guarantees I R (snd (g s')) Q (fst (g s')))"
  by (simp add: case_prod_beta)

declare guarantees.simps(2) [simp del]

text \<open>A thread on a part of the state gives the guarantees of the whole that those of the part imply.\<close>

lemma guarantees_zoom:
  assumes "\<And>s. I s \<Longrightarrow> J (get s)" and "\<And>s s'. R s s' \<Longrightarrow> S (get s) (get s')"
    and "\<And>s p. I s \<Longrightarrow> J p \<Longrightarrow> S (get s) p \<Longrightarrow> I (put p s) \<and> R s (put p s)"
    and "\<And>p s. get (put p s) = p"
  shows "guarantees J S t Q (get s) \<Longrightarrow> guarantees I R (zoom get put t) (\<lambda>s. Q (get s)) s"
  by (induction t arbitrary: s rule: thread_induct) (simp_all add: guarantees_Act assms)

text \<open>A thread that leaves the part \<open>f\<close> of the state alone.\<close>

primrec leaves :: "('s \<Rightarrow> 'p) \<Rightarrow> ('s, 'a) thread \<Rightarrow> bool" where
  "leaves f (Done a) \<longleftrightarrow> True"
| "leaves f (Act g) \<longleftrightarrow> (\<forall>s. case map_prod id (leaves f) (g s) of (s', l) \<Rightarrow> f s' = f s \<and> l)"

lemma leaves_Act: "leaves f (Act g) \<longleftrightarrow> (\<forall>s. f (fst (g s)) = f s \<and> leaves f (snd (g s)))"
  by (simp add: case_prod_beta)

declare leaves.simps(2) [simp del]

lemma leaves_atom: "(\<And>s. f (snd (a s)) = f s) \<Longrightarrow> leaves f (atom a)"
  by (simp add: atom_def leaves_Act case_prod_beta)

lemma leaves_and_then:
  assumes "leaves f t" and "\<And>a. leaves f (k a)"
  shows "leaves f (and_then t k)"
  using assms by (induction t rule: thread_induct) (simp_all add: leaves_Act)

lemma leaves_zoom:
  assumes "\<And>p s. f (put p s) = f s"
  shows "leaves f (zoom get put t)"
  by (induction t rule: thread_induct) (simp_all add: leaves_Act assms)

lemma leaves_zoom_part:
  assumes "\<And>p s. get (put p s) = p" and "leaves f t"
  shows "leaves (\<lambda>s. f (get s)) (zoom get put t)"
  using assms(2) by (induction t rule: thread_induct) (simp_all add: leaves_Act assms(1))

lemma leaves_advance: "leaves f t \<Longrightarrow> f (fst (advance t s)) = f s \<and> leaves f (snd (advance t s))"
  by (cases t) (simp_all add: leaves_Act)

lemma leaves_guarantees:
  assumes "leaves f t" and "\<And>s s'. f s' = f s \<Longrightarrow> R s s'"
  shows "guarantees (\<lambda>_. True) R t (\<lambda>_ _. True) s"
  using assms(1) by (induction t arbitrary: s rule: thread_induct) (simp_all add: leaves_Act guarantees_Act assms(2))

text \<open>What a thread can return, whatever the others do.\<close>

primrec returns :: "('a \<Rightarrow> bool) \<Rightarrow> ('s, 'a) thread \<Rightarrow> bool" where
  "returns Q (Done a) \<longleftrightarrow> Q a"
| "returns Q (Act g) \<longleftrightarrow> (\<forall>s. case map_prod id (returns Q) (g s) of (s', r) \<Rightarrow> r)"

lemma returns_Act: "returns Q (Act g) \<longleftrightarrow> (\<forall>s. returns Q (snd (g s)))"
  by (simp add: case_prod_beta)

declare returns.simps(2) [simp del]

lemma returns_atom: "(\<And>s. Q (fst (f s))) \<Longrightarrow> returns Q (atom f)"
  by (simp add: atom_def returns_Act case_prod_beta)

lemma returns_and_then:
  assumes "returns P t" and "\<And>a. P a \<Longrightarrow> returns Q (k a)"
  shows "returns Q (and_then t k)"
  using assms by (induction t rule: thread_induct) (simp_all add: returns_Act)

lemma returns_any [simp]: "returns (\<lambda>_. True) t"
  by (induction t rule: thread_induct) (simp_all add: returns_Act)

lemma returns_zoom: "returns Q t \<Longrightarrow> returns Q (zoom get put t)"
  by (induction t rule: thread_induct) (simp_all add: returns_Act)

lemma returns_advance: "returns Q t \<Longrightarrow> returns Q (snd (advance t s))"
  by (cases t) (simp_all add: returns_Act)

lemma returns_weaken: "returns P t \<Longrightarrow> (\<And>a. P a \<Longrightarrow> Q a) \<Longrightarrow> returns Q t"
  by (induction t rule: thread_induct) (simp_all add: returns_Act)

lemma returns_guarantees: "returns Q t \<Longrightarrow> guarantees (\<lambda>_. True) (\<lambda>_ _. True) t (\<lambda>_. Q) s"
  by (induction t arbitrary: s rule: thread_induct) (simp_all add: returns_Act guarantees_Act)

text \<open>A thread that is done after at most \<open>n\<close> actions of its own, whatever the others do.\<close>

fun within :: "nat \<Rightarrow> ('s, 'a) thread \<Rightarrow> bool" where
  "within n (Done a) \<longleftrightarrow> True"
| "within 0 (Act g) \<longleftrightarrow> False"
| "within (Suc n) (Act g) \<longleftrightarrow> (\<forall>s. within n (snd (g s)))"

lemma within_more: "within n t \<Longrightarrow> n \<le> m \<Longrightarrow> within m t"
proof (induction n t arbitrary: m rule: within.induct)
  case (3 n g)
  then show ?case by (cases m) auto
qed simp_all

lemma within_atom [simp]: "within n (atom f) \<longleftrightarrow> 0 < n"
  by (cases n) (simp_all add: atom_def case_prod_beta)

lemma within_and_then:
  assumes "within n t" and "\<And>a. within m (k a)"
  shows "within (n + m) (and_then t k)"
  using assms
proof (induction n t rule: within.induct)
  case (1 n a)
  then show ?case using within_more [of m "k a" "n + m"] by simp
qed simp_all

lemma within_then:
  "within n t \<Longrightarrow> n \<le> m \<Longrightarrow> (\<And>a. within (m - n) (k a)) \<Longrightarrow> within m (and_then t k)"
  using within_and_then [of n t "m - n" k] by simp

lemma within_action: "0 < m \<Longrightarrow> (\<And>a. within (m - 1) (k a)) \<Longrightarrow> within m (and_then (atom f) k)"
  by (rule within_then [of 1]) simp_all

lemma within_zoom: "within n t \<Longrightarrow> within n (zoom get put t)"
  by (induction n t rule: within.induct) simp_all

lemma within_advance: "within n t \<Longrightarrow> within (n - 1) (snd (advance t s))"
  by (induction n t rule: within.induct) simp_all

lemma within_0: "within 0 t \<Longrightarrow> \<exists>a. t = Done a"
  by (cases t) simp_all

definition pool_ok :: "('s \<Rightarrow> bool) \<Rightarrow> ('s \<Rightarrow> 's \<Rightarrow> bool) \<Rightarrow> 's \<times> ('s, 'a) thread list
    \<Rightarrow> (nat \<Rightarrow> 's \<Rightarrow> 'a \<Rightarrow> bool) \<Rightarrow> bool" where
  "pool_ok I R c Q \<longleftrightarrow> I (fst c) \<and> (\<forall>i<length (snd c). guarantees I R (snd c ! i) (Q i) (fst c))"

text \<open>The invariant and the order along which the shared state may move.\<close>

locale evolution =
  fixes I :: "'s \<Rightarrow> bool" and R :: "'s \<Rightarrow> 's \<Rightarrow> bool"
  assumes R_refl: "R s s" and R_trans: "R s s' \<Longrightarrow> R s' s'' \<Longrightarrow> R s s''"
begin

lemma later:
  "guarantees I R t Q s \<Longrightarrow> R s s' \<Longrightarrow> guarantees I R t Q s'"
  by (cases t) (auto simp: guarantees_Act dest: R_trans)

lemma done_intro: "(\<And>s'. I s' \<Longrightarrow> R s s' \<Longrightarrow> Q s' a) \<Longrightarrow> guarantees I R (Done a) Q s"
  by simp

lemma act_intro:
  "(\<And>s' s'' t. I s' \<Longrightarrow> R s s' \<Longrightarrow> g s' = (s'', t) \<Longrightarrow> I s'' \<and> R s' s'' \<and> guarantees I R t Q s'')
   \<Longrightarrow> guarantees I R (Act g) Q s"
  unfolding guarantees_Act by (metis prod.collapse)

lemma atom_intro:
  fixes f :: "'s \<Rightarrow> 'a \<times> 's"
  assumes "\<And>s' a s''. I s' \<Longrightarrow> R s s' \<Longrightarrow> f s' = (a, s'') \<Longrightarrow>
      I s'' \<and> R s' s'' \<and> (\<forall>z. I z \<longrightarrow> R s'' z \<longrightarrow> Q z a)"
  shows "guarantees I R (atom f) Q s"
  unfolding atom_def
proof (rule act_intro)
  fix s' s'' and t :: "('s, 'a) thread"
  assume i: "I s'" "R s s'" and "(case f s' of (a, s'') \<Rightarrow> (s'', Done a)) = (s'', t)"
  then have "f s' = (fst (f s'), s'')" "t = Done (fst (f s'))" by (auto split: prod.splits)
  then show "I s'' \<and> R s' s'' \<and> guarantees I R t Q s''"
    using assms [OF i, of "fst (f s')" s''] by simp
qed

lemma atom_then:
  assumes "\<And>s' a s''. I s' \<Longrightarrow> R s s' \<Longrightarrow> f s' = (a, s'') \<Longrightarrow> I s'' \<and> R s' s'' \<and> guarantees I R (k a) Q s''"
  shows "guarantees I R (and_then (atom f) k) Q s"
  unfolding and_then_atom guarantees_Act using assms by (metis fst_conv prod.collapse snd_conv)

lemma weaken:
  assumes "guarantees I R t Q s" and "\<And>s' a. I s' \<Longrightarrow> Q s' a \<Longrightarrow> Q' s' a"
  shows "guarantees I R t Q' s"
  using assms(1) by (induction t arbitrary: s rule: thread_induct) (simp_all add: guarantees_Act assms(2))

text \<open>What holds at the start and stays true along \<open>R\<close> holds at the end.\<close>

lemma keep:
  assumes "guarantees I R t Q s" and "P s" and "\<And>s s'. P s \<Longrightarrow> R s s' \<Longrightarrow> P s'"
  shows "guarantees I R t (\<lambda>s a. Q s a \<and> P s) s"
  using assms(1,2)
proof (induction t arbitrary: s rule: thread_induct)
  case (Act g)
  have IH: "guarantees I R (snd (g s')) (\<lambda>s a. Q s a \<and> P s) (fst (g s'))" if "I s'" "R s s'" for s'
  proof (rule Act.IH)
    show "guarantees I R (snd (g s')) Q (fst (g s'))" using Act.prems(1) that by (simp add: guarantees_Act)
    have "R s' (fst (g s'))" using Act.prems(1) that by (simp add: guarantees_Act)
    then show "P (fst (g s'))" using assms(3) [OF assms(3) [OF Act.prems(2) that(2)]] by blast
  qed
  then show ?case using Act.prems(1) by (simp add: guarantees_Act)
qed (use assms(3) in simp)

lemma and_then_intro:
  assumes "guarantees I R t (\<lambda>s a. guarantees I R (f a) Q s) s" and "I s"
  shows "guarantees I R (and_then t f) Q s"
  using assms
  by (induction t arbitrary: s rule: thread_induct) (simp_all add: guarantees_Act R_refl)

lemma map_result:
  assumes "guarantees I R t Q s" and "\<And>s a. I s \<Longrightarrow> Q s a \<Longrightarrow> Q' s (f a)"
  shows "guarantees I R (and_then t (\<lambda>a. Done (f a))) Q' s"
  using assms(1) by (induction t arbitrary: s rule: thread_induct) (simp_all add: guarantees_Act assms(2))

text \<open>Every interleaving of threads that give the guarantee keeps it.\<close>

lemma advance_ok:
  assumes "I s" "guarantees I R t Q s" "advance t s = (s', t')"
  shows "I s' \<and> R s s' \<and> guarantees I R t' Q s'"
  using assms R_refl by (cases t) (auto simp: guarantees_Act)

lemma pool_step_ok:
  assumes "pool_ok I R c Q"
  shows "pool_ok I R (pool_step i c) Q \<and> R (fst c) (fst (pool_step i c))"
proof -
  obtain s ts where c: "c = (s, ts)" by (cases c)
  show ?thesis
  proof (cases "i < length ts")
    case True
    obtain s' t where a: "advance (ts ! i) s = (s', t)" by (cases "advance (ts ! i) s")
    have ok: "I s' \<and> R s s' \<and> guarantees I R t (Q i) s'"
      using advance_ok [OF _ _ a, of "Q i"] assms True by (auto simp: pool_ok_def c)
    then have "\<forall>j<length ts. guarantees I R (ts[i := t] ! j) (Q j) s'"
      using assms True by (auto simp: pool_ok_def c nth_list_update intro: later)
    then show ?thesis using ok a True by (simp add: pool_ok_def pool_step_def c)
  qed (use assms R_refl in \<open>simp add: pool_step_def c\<close>)
qed

lemma pool_run_ok:
  assumes "pool_ok I R c Q"
  shows "pool_ok I R (pool_run is c) Q \<and> R (fst c) (fst (pool_run is c))"
  using assms
proof (induction "is" arbitrary: c)
  case (Cons i "is")
  show ?case using Cons.IH [of "pool_step i c"] pool_step_ok [OF Cons.prems, of i] R_trans by auto
qed (simp add: R_refl)

end

end
