(* ===== verification/BrokerThreads.thy ===== *)
theory BrokerThreads
  imports Broker Threads
begin

text \<open>
  Calls of \<open>Broker.Execute\<close> that run at the same time. The tracker, the cache and the journal each have
  a mutex of their own, so a call is a thread of four or five actions; the request to ClickHouse
  is made with none of the locks held.
\<close>

section \<open>Execute, action by action\<close>

definition record_entry :: "audit_entry \<Rightarrow> (broker, unit) thread" where
  "record_entry e = atom (\<lambda>b. ((), journal b e))"

type_synonym execute_thread = "(broker, query_result result) thread"

definition denied :: "clock \<Rightarrow> string \<Rightarrow> string \<Rightarrow> execute_thread" where
  "denied k userID sql =
     (let err = rate_limit_error userID in
      and_then (record_entry \<lparr>UserID = userID, SQL = sql, StartedAt = at_audit k, DurationMs = 0,
          RowCount = 0, Cached = False, Success = False, ErrText = Error err\<rparr>) (\<lambda>_. Done (Inl err)))"

definition served_from_cache :: "clock \<Rightarrow> string \<Rightarrow> string \<Rightarrow> string \<Rightarrow> execute_thread" where
  "served_from_cache k userID sql cached =
     (let rows = splitLines cached in
      and_then (record_entry \<lparr>UserID = userID, SQL = sql, StartedAt = at_audit k, DurationMs = 0,
          RowCount = length rows, Cached = True, Success = True, ErrText = []\<rparr>)
        (\<lambda>_. Done (Inr \<lparr>Rows = rows, qr_RowCount = length rows, Duration = 0, qr_Cached = True\<rparr>)))"

definition asked :: "net \<Rightarrow> clock \<Rightarrow> string \<Rightarrow> string \<Rightarrow> execute_thread" where
  "asked w k userID sql =
     and_then (atom (\<lambda>b. (doQuery w b sql, b))) (\<lambda>answer.
     let start = at_start k; dur = at_end k - start;
         entry = \<lparr>UserID = userID, SQL = sql, StartedAt = start, DurationMs = milliseconds dur,
           RowCount = 0, Cached = False, Success = False, ErrText = []\<rparr>
     in case answer of
          Inl err \<Rightarrow> and_then (record_entry (entry\<lparr>ErrText := Error err\<rparr>)) (\<lambda>_. Done (Inl err))
        | Inr body \<Rightarrow>
            let rows = splitLines body in
            and_then (record_entry (entry\<lparr>Success := True, RowCount := length rows\<rparr>)) (\<lambda>_.
            and_then (atom (\<lambda>b. ((), b\<lparr>b_cache := Set (b_cache b) (at_store k) sql body\<rparr>))) (\<lambda>_.
            Done (Inr \<lparr>Rows = rows, qr_RowCount = length rows, Duration = dur, qr_Cached = False\<rparr>))))"

definition Execute_thread :: "net \<Rightarrow> clock \<Rightarrow> string \<Rightarrow> string \<Rightarrow> execute_thread" where
  "Execute_thread w k userID sql =
     and_then (atom (\<lambda>b. case Allow (b_quotas b) (at_quota k) userID of (ok, q) \<Rightarrow> (ok, b\<lparr>b_quotas := q\<rparr>))) (\<lambda>ok.
     if \<not> ok then denied k userID sql
     else
     and_then (atom (\<lambda>b. case Get (b_cache b) (at_cache k) sql of (hit, c) \<Rightarrow> (hit, b\<lparr>b_cache := c\<rparr>))) (\<lambda>hit.
     case hit of
       Some cached \<Rightarrow> served_from_cache k userID sql cached
     | None \<Rightarrow> asked w k userID sql))"

lemmas execute_parts = denied_def served_from_cache_def asked_def record_entry_def

text \<open>Undisturbed it is \<open>Execute\<close>.\<close>

lemma Execute_alone: "run_alone (Execute_thread w k u sql) b = Execute w k b u sql"
  by (simp add: Execute_thread_def Execute_def run_and_then execute_parts Let_def
      split: prod.split bool.split option.split sum.split)

definition call_thread :: "call \<Rightarrow> execute_thread" where
  "call_thread c = Execute_thread (call_net c) (call_clock c) (call_user c) (call_sql c)"

section \<open>The journal\<close>

text \<open>What an entry says of a call, and what its result says.\<close>

type_synonym account = "string \<times> string \<times> bool \<times> bool \<times> nat \<times> string"

definition account :: "audit_entry \<Rightarrow> account" where
  "account e = (UserID e, SQL e, Success e, Cached e, RowCount e, ErrText e)"

definition account_of :: "call \<Rightarrow> query_result result \<Rightarrow> account" where
  "account_of c res = (call_user c, call_sql c,
     (case res of Inl err \<Rightarrow> (False, False, 0, Error err)
      | Inr r \<Rightarrow> (True, qr_Cached r, length (Rows r), [])))"

text \<open>A thread that has made its entry, saying \<open>x\<close>, and makes no other; one that has yet to make it.\<close>

primrec settled :: "call \<Rightarrow> account \<Rightarrow> execute_thread \<Rightarrow> bool" where
  "settled c x (Done res) \<longleftrightarrow> account_of c res = x"
| "settled c x (Act g) \<longleftrightarrow> (\<forall>b. case map_prod id (settled c x) (g b) of (b', S) \<Rightarrow> b_audit b' = b_audit b \<and> S)"

lemma settled_Act:
  "settled c x (Act g) \<longleftrightarrow> (\<forall>b. b_audit (fst (g b)) = b_audit b \<and> settled c x (snd (g b)))"
  by (simp add: case_prod_beta)

inductive owing :: "call \<Rightarrow> execute_thread \<Rightarrow> bool" for c where
  "(\<And>b. (b_audit (fst (g b)) = b_audit b \<and> owing c (snd (g b)))
      \<or> (\<exists>e. b_audit (fst (g b)) = Record (b_audit b) e \<and> settled c (account e) (snd (g b))))
   \<Longrightarrow> owing c (Act g)"

inductive_cases owing_DoneE: "owing c (Done res)"
inductive_cases owing_ActE: "owing c (Act g)"

declare settled.simps(2) [simp del]

lemma settled_atom:
  "(\<And>b. b_audit (snd (f b)) = b_audit b) \<Longrightarrow> (\<And>a. settled c x (k a)) \<Longrightarrow> settled c x (and_then (atom f) k)"
  by (simp add: and_then_atom settled_Act)

lemma owing_atom:
  "(\<And>b. b_audit (snd (f b)) = b_audit b) \<Longrightarrow> (\<And>a. owing c (k a)) \<Longrightarrow> owing c (and_then (atom f) k)"
  by (auto simp: and_then_atom intro: owing.intros)

lemma owing_record:
  "settled c (account e) (k ()) \<Longrightarrow> owing c (and_then (record_entry e) k)"
  by (auto simp: record_entry_def and_then_atom journal_def intro: owing.intros)

lemma call_owing: "owing c (call_thread c)"
  unfolding call_thread_def Execute_thread_def denied_def served_from_cache_def asked_def Let_def
  by (rule owing_atom;
      auto intro!: owing_atom owing_record settled_atom simp: account_def account_of_def
        split: prod.split option.split sum.split)

text \<open>The entries of the calls that have made theirs.\<close>

definition made :: "'a option list \<Rightarrow> 'a multiset" where
  "made st = image_mset the (filter_mset (\<lambda>x. \<not> Option.is_none x) (mset st))"

lemma made_simps [simp]: "made [] = {#}" "made (None # st) = made st" "made (Some x # st) = add_mset x (made st)"
  by (simp_all add: made_def)

lemma made_update: "i < length st \<Longrightarrow> st ! i = None \<Longrightarrow> made (st[i := Some x]) = add_mset x (made st)"
  by (simp add: made_def mset_update)

lemma made_None [simp]: "made (map (\<lambda>_. None) xs) = {#}"
  by (induction xs) simp_all

lemma made_Some [simp]: "made (map Some xs) = mset xs"
  by (induction xs) simp_all

fun stage :: "call \<Rightarrow> account option \<Rightarrow> execute_thread \<Rightarrow> bool" where
  "stage c None t \<longleftrightarrow> owing c t"
| "stage c (Some x) t \<longleftrightarrow> settled c x t"

definition journaled :: "call list \<Rightarrow> audit_entry list \<Rightarrow> broker \<times> execute_thread list \<Rightarrow> bool" where
  "journaled cs old c \<longleftrightarrow> al_writable (b_audit (fst c)) \<and> (\<exists>st new. length st = length cs \<and> length (snd c) = length cs
     \<and> (\<forall>i<length cs. stage (cs ! i) (st ! i) (snd c ! i))
     \<and> al_entries (b_audit (fst c)) = old @ new \<and> mset (map account new) = made st)"

lemma journaled_step:
  assumes "journaled cs old c"
  shows "journaled cs old (pool_step i c)"
proof -
  obtain b ts where c: "c = (b, ts)" by (cases c)
  obtain st new where len: "length st = length cs" "length ts = length cs" and w: "al_writable (b_audit b)"
    and st: "\<And>j. j < length cs \<Longrightarrow> stage (cs ! j) (st ! j) (ts ! j)"
    and new: "al_entries (b_audit b) = old @ new" "mset (map account new) = made st"
    using assms unfolding journaled_def c by auto
  consider "\<not> i < length ts" | res where "i < length ts" "ts ! i = Done res" | g where "i < length ts" "ts ! i = Act g"
    by (cases "ts ! i") auto
  then show ?thesis
  proof cases
    case 1
    then show ?thesis using assms by (simp add: c pool_step_def)
  next
    case 2
    then have "pool_step i c = c" using list_update_id [of ts i] by (simp add: c pool_step_def)
    then show ?thesis using assms by simp
  next
    case 3
    let ?b = "fst (g b)" and ?ts = "ts[i := snd (g b)]"
    have step: "pool_step i c = (?b, ?ts)" using 3 by (simp add: c pool_step_def case_prod_beta)
    have keep: "journaled cs old (?b, ?ts)"
      if "b_audit ?b = b_audit b" "stage (cs ! i) (st ! i) (snd (g b))"
      unfolding journaled_def using that w len new st 3(1)
      by (auto intro!: exI [of _ st] exI [of _ new] simp: nth_list_update)
    have i: "i < length cs" using 3 len by simp
    show ?thesis
    proof (cases "st ! i")
      case (Some x)
      then have "settled (cs ! i) x (Act g)" using st [OF i] 3 by simp
      then show ?thesis using keep Some by (simp add: step settled_Act)
    next
      case None
      then have "owing (cs ! i) (Act g)" using st [OF i] 3 by simp
      then have "(b_audit ?b = b_audit b \<and> owing (cs ! i) (snd (g b)))
          \<or> (\<exists>e. b_audit ?b = Record (b_audit b) e \<and> settled (cs ! i) (account e) (snd (g b)))"
        by (rule owing_ActE) blast
      then consider "b_audit ?b = b_audit b" "owing (cs ! i) (snd (g b))"
        | e where "b_audit ?b = Record (b_audit b) e" "settled (cs ! i) (account e) (snd (g b))"
        by blast
      then show ?thesis
      proof cases
        case 1
        then show ?thesis using keep None by (simp add: step)
      next
        case 2
        have "journaled cs old (?b, ?ts)"
          unfolding journaled_def using 2 w len new st i None
          by (auto intro!: exI [of _ "st[i := Some (account e)]"] exI [of _ "new @ [e]"]
              simp: nth_list_update made_update)
        then show ?thesis by (simp add: step)
      qed
    qed
  qed
qed

lemma journaled_run: "journaled cs old c \<Longrightarrow> journaled cs old (pool_run is c)"
  by (induction "is" arbitrary: c) (simp_all add: journaled_step)


lemma sample_answers: "doQuery (sample_net 200 body) b sql = Inr body" "\<exists>e. doQuery (sample_net 500 body) b sql = Inl e"
  by (simp_all add: doQuery_def request_def sample_net_def StatusOK_def)

definition sample_config :: broker_config where
  "sample_config = \<lparr>cfg_url = ''http://ch:8123'', cfg_quota = \<lparr>RequestsPerMinute = 0, MaxRowsToRead = 5\<rparr>,
     cfg_cache_ttl = 100\<rparr>"

definition sample_calls :: "call list" where
  "sample_calls =
     [\<lparr>call_net = sample_net 200 ''7'', call_clock = sample_clock 0, call_user = ''ana'', call_sql = ''SELECT 7''\<rparr>,
      \<lparr>call_net = sample_net 500 [], call_clock = sample_clock 5, call_user = ''bob'', call_sql = ''SELECT 7''\<rparr>]"


section \<open>The cache\<close>

text \<open>What ClickHouse itself answered to one of the calls, and when it was stored.\<close>

definition answered :: "broker \<Rightarrow> call list \<Rightarrow> string \<Rightarrow> string \<Rightarrow> time \<Rightarrow> bool" where
  "answered b cs sql body stored \<longleftrightarrow> (\<exists>c\<in>set cs. call_sql c = sql \<and> doQuery (call_net c) b sql = Inr body
     \<and> stored = at_store (call_clock c))"

definition cache_genuine :: "broker \<Rightarrow> call list \<Rightarrow> broker \<Rightarrow> bool" where
  "cache_genuine b0 cs b \<longleftrightarrow> b_url b = b_url b0 \<and> qt_quota (b_quotas b) = qt_quota (b_quotas b0)
     \<and> c_ttl (b_cache b) = c_ttl (b_cache b0)
     \<and> (\<forall>sql e. c_entries (b_cache b) sql = Some e \<longrightarrow>
          (\<exists>stored. answered b0 cs sql (ce_body e) stored \<and> ce_expiresAt e = stored + c_ttl (b_cache b0)))"

definition genuine_result :: "broker \<Rightarrow> call list \<Rightarrow> call \<Rightarrow> query_result result \<Rightarrow> bool" where
  "genuine_result b0 cs c res \<longleftrightarrow> (\<forall>r. res = Inr r \<longrightarrow>
     (if qr_Cached r
      then \<exists>body stored. answered b0 cs (call_sql c) body stored \<and> Rows r = splitLines body
             \<and> at_cache (call_clock c) \<le> stored + c_ttl (b_cache b0)
      else \<exists>body. doQuery (call_net c) b0 (call_sql c) = Inr body \<and> Rows r = splitLines body))"

lemma doQuery_same:
  assumes "b_url b = b_url b0" "qt_quota (b_quotas b) = qt_quota (b_quotas b0)"
  shows "doQuery w b sql = doQuery w b0 sql"
proof -
  have q: "query_request b sql = query_request b0 sql" using assms by (simp add: query_request_def)
  show ?thesis unfolding doQuery_def request_def q ..
qed

interpretation any: evolution I "\<lambda>_ _. True" for I :: "broker \<Rightarrow> bool"
  by unfold_locales simp_all

abbreviation genuine_thread where
  "genuine_thread b0 cs t Q s \<equiv> guarantees (cache_genuine b0 cs) (\<lambda>_ _. True) t Q s"

lemma record_genuine:
  "(\<And>s. genuine_thread b0 cs (k ()) Q s) \<Longrightarrow> genuine_thread b0 cs (and_then (record_entry e) k) Q s"
  unfolding record_entry_def
  by (rule any.atom_then) (auto simp: cache_genuine_def journal_def)

lemma get_genuine:
  assumes g: "cache_genuine b0 cs s" and h: "Get (b_cache s) t sql = (hit, c)"
  shows "cache_genuine b0 cs (s\<lparr>b_cache := c\<rparr>)"
    and "hit = Some body \<Longrightarrow> \<exists>stored. answered b0 cs sql body stored \<and> t \<le> stored + c_ttl (b_cache b0)"
proof -
  have "c_ttl c = c_ttl (b_cache s)" using rc.life_get [of "b_cache s" t sql] h by simp
  then show "cache_genuine b0 cs (s\<lparr>b_cache := c\<rparr>)"
    using g Get_entries [of "b_cache s" t sql] h by (auto simp: cache_genuine_def)
  assume "hit = Some body"
  then obtain e where "c_entries (b_cache s) sql = Some e" "ce_body e = body" "t \<le> ce_expiresAt e"
    using h by (auto simp: Get_def split: if_splits option.splits)
  then show "\<exists>stored. answered b0 cs sql body stored \<and> t \<le> stored + c_ttl (b_cache b0)"
    using g unfolding cache_genuine_def by metis
qed

lemma call_genuine:
  assumes "c \<in> set cs"
  shows "genuine_thread b0 cs (call_thread c) (\<lambda>_. genuine_result b0 cs c) s"
proof -
  let ?k = "call_clock c" and ?sql = "call_sql c"
  have store: "cache_genuine b0 cs (s\<lparr>b_cache := Set (b_cache s) (at_store ?k) ?sql body\<rparr>)"
    if "cache_genuine b0 cs s" "doQuery (call_net c) b0 ?sql = Inr body" for s body
    using that assms
    by (auto simp: cache_genuine_def Set_def rc.life_put answered_def split: if_splits)
  have quota: "cache_genuine b0 cs (s\<lparr>b_quotas := q\<rparr>)"
    if "cache_genuine b0 cs s" "Allow (b_quotas s) (at_quota ?k) u = (ok, q)" for s u ok q
    using that Allow_quota [of "b_quotas s" "at_quota ?k" u] by (auto simp: cache_genuine_def)
  have query: "doQuery w s sql = doQuery w b0 sql" if "cache_genuine b0 cs s" for w s sql
    using that by (intro doQuery_same) (simp_all add: cache_genuine_def)
  have deny: "genuine_thread b0 cs (denied ?k (call_user c) ?sql) (\<lambda>_. genuine_result b0 cs c) s" for s
    unfolding denied_def Let_def by (rule record_genuine) (simp add: genuine_result_def)
  have hit: "genuine_thread b0 cs (served_from_cache ?k (call_user c) ?sql body) (\<lambda>_. genuine_result b0 cs c) s"
    if "\<exists>stored. answered b0 cs ?sql body stored \<and> at_cache ?k \<le> stored + c_ttl (b_cache b0)" for s body
    unfolding served_from_cache_def Let_def by (rule record_genuine) (use that in \<open>auto simp: genuine_result_def\<close>)
  have stored: "genuine_thread b0 cs (and_then (atom (\<lambda>b. ((), b\<lparr>b_cache := Set (b_cache b) (at_store ?k) ?sql body\<rparr>)))
      (\<lambda>_. Done (Inr \<lparr>Rows = splitLines body, qr_RowCount = n, Duration = d, qr_Cached = False\<rparr>)))
      (\<lambda>_. genuine_result b0 cs c) s" if "doQuery (call_net c) b0 ?sql = Inr body" for body n d s
    by (rule any.atom_then) (use store that in \<open>auto simp: genuine_result_def\<close>)
  have miss: "genuine_thread b0 cs (asked (call_net c) ?k (call_user c) ?sql) (\<lambda>_. genuine_result b0 cs c) s" for s
    unfolding asked_def Let_def
    by (rule any.atom_then)
      (auto simp: query genuine_result_def intro!: record_genuine stored split: sum.split)
  have look: "genuine_thread b0 cs (and_then (atom (\<lambda>b. case Get (b_cache b) (at_cache ?k) ?sql of
        (hit, ca) \<Rightarrow> (hit, b\<lparr>b_cache := ca\<rparr>))) (\<lambda>hit. case hit of
          Some cached \<Rightarrow> served_from_cache ?k (call_user c) ?sql cached
        | None \<Rightarrow> asked (call_net c) ?k (call_user c) ?sql)) (\<lambda>_. genuine_result b0 cs c) s" for s
  proof (rule any.atom_then)
    fix s' h s''
    assume g: "cache_genuine b0 cs s'"
      and "(case Get (b_cache s') (at_cache ?k) ?sql of (hit, ca) \<Rightarrow> (hit, s'\<lparr>b_cache := ca\<rparr>)) = (h, s'')"
    then obtain ca where "Get (b_cache s') (at_cache ?k) ?sql = (h, ca)" "s'' = s'\<lparr>b_cache := ca\<rparr>"
      by (auto split: prod.splits)
    then show "cache_genuine b0 cs s'' \<and> True \<and> genuine_thread b0 cs (case h of
          Some cached \<Rightarrow> served_from_cache ?k (call_user c) ?sql cached
        | None \<Rightarrow> asked (call_net c) ?k (call_user c) ?sql) (\<lambda>_. genuine_result b0 cs c) s''"
      using get_genuine [OF g] hit miss by (cases h) auto
  qed
  show ?thesis
    unfolding call_thread_def Execute_thread_def
    by (rule any.atom_then) (auto simp: quota deny look split: prod.splits)
qed

text \<open>C6: no made-up answers, however the calls interleave. When calls run at the same time on a new
  broker, every result that one of them returns has the rows of an answer of ClickHouse to the very
  statement: its own, or, if it is marked as cached, that of one of the calls, stored at most the
  time to live before it was looked up.\<close>

theorem concurrent_answers_are_genuine:
  assumes "NewBroker cfg f = Inr b0" and "pool_run is (b0, map call_thread cs) = (b, ts)"
    and "i < length cs" "ts ! i = Done (Inr r)"
  shows "if qr_Cached r
    then \<exists>c\<in>set cs. call_sql c = call_sql (cs ! i)
      \<and> (\<exists>body. doQuery (call_net c) b0 (call_sql c) = Inr body \<and> Rows r = splitLines body)
      \<and> at_cache (call_clock (cs ! i)) \<le> at_store (call_clock c) + cfg_cache_ttl cfg
    else \<exists>body. doQuery (call_net (cs ! i)) b0 (call_sql (cs ! i)) = Inr body \<and> Rows r = splitLines body"
proof -
  let ?Q = "\<lambda>i _. genuine_result b0 cs (cs ! i)"
  have new: "c_entries (b_cache b0) = (\<lambda>_. None)" "c_ttl (b_cache b0) = cfg_cache_ttl cfg"
    using assms(1) by (auto simp: NewBroker_def NewCache_def split: sum.splits)
  then have "cache_genuine b0 cs b0" by (simp add: cache_genuine_def)
  then have "pool_ok (cache_genuine b0 cs) (\<lambda>_ _. True) (b0, map call_thread cs) ?Q"
    using call_genuine by (simp add: pool_ok_def)
  from any.pool_run_ok [OF this, of "is"] have "pool_ok (cache_genuine b0 cs) (\<lambda>_ _. True) (b, ts) ?Q"
    using assms(2) by simp
  then have ok: "cache_genuine b0 cs b"
      "\<And>j. j < length ts \<Longrightarrow> genuine_thread b0 cs (ts ! j) (?Q j) b"
    unfolding pool_ok_def by simp_all
  have "i < length ts" using pool_run_length [of "is" "(b0, map call_thread cs)"] assms(2,3) by simp
  from ok(2) [OF this] have "genuine_result b0 cs (cs ! i) (Inr r)"
    unfolding assms(4) using ok(1) by auto
  then show ?thesis using new by (auto simp: genuine_result_def answered_def split: if_splits)
qed

lemma concurrent_answers_are_genuine_witness:
  "let b0 = sample_broker 0 100 []
   in NewBroker sample_config (Inr \<lparr>al_entries = [], al_writable = True\<rparr>) = Inr b0
     \<and> (\<exists>b t r. pool_run [1, 0, 0, 0, 0, 0, 1, 1] (b0, map call_thread sample_calls) = (b, [t, Done (Inr r)]) \<and> qr_Cached r
     \<and> (\<exists>c\<in>set sample_calls. \<exists>body. doQuery (call_net c) b0 (call_sql c) = Inr body \<and> Rows r = splitLines body))"
proof -
  let ?b0 = "sample_broker 0 100 []"
  have b0: "NewBroker sample_config (Inr \<lparr>al_entries = [], al_writable = True\<rparr>) = Inr ?b0"
    by (simp add: NewBroker_def OpenAuditLog_def sample_config_def sample_broker_def NewQuotaTracker_def)
  have "\<exists>b t r. pool_run [1, 0, 0, 0, 0, 0, 1, 1] (?b0, map call_thread sample_calls) = (b, [t, Done (Inr r)])
      \<and> qr_Cached r"
    by (simp add: sample_calls_def call_thread_def Execute_thread_def execute_parts and_then_atom
        pool_step_def Let_def sample_broker_def NewCache_def
        Allow_def Get_def Set_def sample_answers sample_clock_def journal_def)
  then obtain b t r where run: "pool_run [1, 0, 0, 0, 0, 0, 1, 1] (?b0, map call_thread sample_calls) = (b, [t, Done (Inr r)])"
    and r: "qr_Cached r" by blast
  have "1 < length sample_calls" "[t, Done (Inr r)] ! 1 = Done (Inr r)" by (simp_all add: sample_calls_def)
  from concurrent_answers_are_genuine [OF b0 run this] r
  have "\<exists>c\<in>set sample_calls. \<exists>body. doQuery (call_net c) ?b0 (call_sql c) = Inr body \<and> Rows r = splitLines body"
    by auto
  with b0 run r show ?thesis unfolding Let_def by blast
qed

end
