(* ===== verification/StoreThreads.thy ===== *)
theory StoreThreads
  imports SchemaStore Threads
begin

text \<open>
  Calls of the dataset registry that run at the same time. \<open>Create\<close> and \<open>AddColumns\<close> look a dataset up
  with one statement and write with one transaction, with nothing held in between; \<open>EnsureDataset\<close>
  looks it up once more before that.
\<close>

section \<open>The operations, action by action\<close>

definition finish_thread :: "sql_faults \<Rightarrow> dataset result \<Rightarrow> (schema_db, dataset result) thread" where
  "finish_thread flt prepared =
     (case prepared of
        Inl e \<Rightarrow> Done (Inl e)
      | Inr d \<Rightarrow> atom (\<lambda>db. finish flt db (Inr d)))"

definition Create_thread :: "sql_faults \<Rightarrow> time \<Rightarrow> dataset \<Rightarrow> (schema_db, dataset result) thread" where
  "Create_thread flt now d = and_then (atom (\<lambda>db. (prepare_create flt now db d, db))) (finish_thread flt)"

definition AddColumns_thread ::
  "sql_faults \<Rightarrow> time \<Rightarrow> string \<Rightarrow> column list \<Rightarrow> (schema_db, dataset result) thread" where
  "AddColumns_thread flt now name newColumns =
     and_then (atom (\<lambda>db. (prepare_columns flt now db name newColumns, db))) (finish_thread flt)"

definition EnsureDataset_thread ::
  "(f64 \<Rightarrow> int) \<Rightarrow> sql_faults \<Rightarrow> sql_faults \<Rightarrow> time \<Rightarrow> string \<Rightarrow> record_map
   \<Rightarrow> (schema_db, (dataset \<times> bool) result) thread" where
  "EnsureDataset_thread oor get_flt flt now name sample =
     and_then (atom (\<lambda>db. (Get get_flt db name, db))) (\<lambda>found.
     case found of
       Inr existing \<Rightarrow> Done (Inr (existing, False))
     | Inl err \<Rightarrow>
         if \<not> IsNotFound err then Done (Inl err)
         else and_then (Create_thread flt now (inferred oor name sample)) (\<lambda>created.
              Done (map_sum id (\<lambda>d. (d, True)) created)))"

lemma finish_thread_alone: "run_alone (finish_thread flt prepared) db = finish flt db prepared"
  by (cases prepared) (simp_all add: finish_thread_def finish_def)

lemma Create_alone: "run_alone (Create_thread flt now d) db = Create flt now db d"
  by (simp add: Create_thread_def run_and_then finish_thread_alone Create_def)

lemma AddColumns_alone: "run_alone (AddColumns_thread flt now n cs) db = AddColumns flt now db n cs"
  by (simp add: AddColumns_thread_def run_and_then finish_thread_alone AddColumns_def)

lemma EnsureDataset_alone:
  "run_alone (EnsureDataset_thread oor gf flt now n sample) db = EnsureDataset oor gf flt now db n sample"
  by (simp add: EnsureDataset_thread_def run_and_then EnsureDataset_def Create_alone
      split: sum.split prod.split)

section \<open>What the operations guarantee to each other\<close>

definition grows :: "schema_db \<Rightarrow> schema_db \<Rightarrow> bool" where
  "grows db db' \<longleftrightarrow> (\<forall>n. prefix (history db n) (history db' n))"

lemma grows_set: "grows db db' \<Longrightarrow> d \<in> set (history db n) \<Longrightarrow> d \<in> set (history db' n)"
  unfolding grows_def by (meson set_mono_prefix subsetD)

interpretation registry: evolution store_ok grows
  by unfold_locales (auto simp: grows_def intro: prefix_order.order_trans)

definition recorded :: "schema_db \<Rightarrow> dataset result \<Rightarrow> bool" where
  "recorded db r \<longleftrightarrow> (\<forall>d. r = Inr d \<longrightarrow> d \<in> set (history db (Name d)))"

lemma recorded_later: "recorded db r \<Longrightarrow> grows db db' \<Longrightarrow> recorded db' r"
  by (auto simp: recorded_def dest: grows_set)

lemma finish_keeps:
  assumes "store_ok db" and "\<And>d. prepared = Inr d \<Longrightarrow> pending_ok db d" and "finish flt db prepared = (r, db')"
  shows "store_ok db' \<and> grows db db' \<and> recorded db' r \<and> (\<forall>d. r = Inr d \<longrightarrow> prepared = Inr d)"
proof -
  have "store_ok db' \<and> grows db db'" using finish_grows [OF assms] by (auto simp: grows_def)
  moreover have "recorded db' r \<and> (\<forall>d. r = Inr d \<longrightarrow> prepared = Inr d)"
  proof (cases rule: finish_cases [OF assms(3)])
    case (2 d)
    then show ?thesis using persist_appends(1) [OF assms(1) assms(2) [OF 2(2)] 2(3)] by (simp add: recorded_def)
  qed (simp add: recorded_def)
  ultimately show ?thesis by simp
qed

lemma finish_thread_ok:
  assumes "\<And>d. prepared = Inr d \<Longrightarrow> pending_ok db d"
  shows "guarantees store_ok grows (finish_thread flt prepared)
    (\<lambda>db r. recorded db r \<and> (\<forall>d. r = Inr d \<longrightarrow> prepared = Inr d)) db"
proof (cases prepared)
  case (Inr d)
  have pend: "pending_ok db' d" if "grows db db'" for db'
    using pending_ok_grows [OF assms [OF Inr]] grows_set [OF that] by blast
  show ?thesis
    unfolding finish_thread_def Inr sum.case
  proof (rule registry.atom_intro)
    fix s' a s''
    assume "store_ok s'" "grows db s'" "finish flt s' (Inr d) = (a, s'')"
    then show "store_ok s'' \<and> grows s' s'' \<and> (\<forall>z. store_ok z \<longrightarrow> grows s'' z \<longrightarrow>
        recorded z a \<and> (\<forall>x. a = Inr x \<longrightarrow> Inr d = Inr x))"
      using finish_keeps [of s' "Inr d" flt a s''] pend recorded_later by fastforce
  qed
qed (simp add: finish_thread_def recorded_def)

lemma Create_thread_ok:
  "guarantees store_ok grows (Create_thread flt now d)
    (\<lambda>db r. recorded db r \<and> (\<forall>x. r = Inr x \<longrightarrow> Name x = Name d)) db"
  unfolding Create_thread_def
proof (rule registry.atom_then)
  fix s' a s''
  assume s': "store_ok s'" "grows db s'" and a: "(prepare_create flt now s' d, s') = (a, s'')"
  have pend: "pending_ok s'' x \<and> Name x = Name d" if "a = Inr x" for x
    using prepare_create_pending [of flt now s' d x] that a by auto
  have "guarantees store_ok grows (finish_thread flt a)
      (\<lambda>db r. recorded db r \<and> (\<forall>x. r = Inr x \<longrightarrow> Name x = Name d)) s''"
    by (rule registry.weaken [OF finish_thread_ok]) (simp add: pend, metis pend)
  then show "store_ok s'' \<and> grows s' s'' \<and> guarantees store_ok grows (finish_thread flt a)
      (\<lambda>db r. recorded db r \<and> (\<forall>x. r = Inr x \<longrightarrow> Name x = Name d)) s''"
    using s' a registry.R_refl by simp
qed

lemma AddColumns_thread_ok: "guarantees store_ok grows (AddColumns_thread flt now n cs) recorded db"
  unfolding AddColumns_thread_def
proof (rule registry.atom_then)
  fix s' a s''
  assume s': "store_ok s'" "grows db s'" and a: "(prepare_columns flt now s' n cs, s') = (a, s'')"
  have "guarantees store_ok grows (finish_thread flt a) recorded s''"
    by (rule registry.weaken [OF finish_thread_ok])
      (use prepare_columns_pending [OF s'(1), of flt now n cs] a in auto)
  then show "store_ok s'' \<and> grows s' s'' \<and> guarantees store_ok grows (finish_thread flt a) recorded s''"
    using s' a registry.R_refl by simp
qed

definition ensured_in :: "string \<Rightarrow> schema_db \<Rightarrow> (dataset \<times> bool) result \<Rightarrow> bool" where
  "ensured_in n db r \<longleftrightarrow> (\<forall>d b. r = Inr (d, b) \<longrightarrow> Name d = n \<and> d \<in> set (history db n))"

lemma inferred_Name [simp]: "Name (inferred oor n sample) = n"
  by (simp add: inferred_def Let_def empty_dataset_def split: option.split)

lemma Get_ensured:
  assumes "store_ok db" "Get flt db n = Inr d" "grows db z"
  shows "Name d = n \<and> d \<in> set (history z n)"
proof -
  have "d \<in> set (history db n)" using Get_in_history [OF assms(1,2)] by simp
  then show ?thesis
    using store_okD(3) [OF assms(1), of n] grows_set [OF assms(3)] by (auto simp: history_ok_def)
qed

lemma EnsureDataset_thread_ok:
  "guarantees store_ok grows (EnsureDataset_thread oor gf flt now n sample) (ensured_in n) db"
  unfolding EnsureDataset_thread_def
proof (rule registry.atom_then)
  fix s' a s''
  assume s': "store_ok s'" "grows db s'" and a: "(Get gf s' n, s') = (a, s'')"
  let ?go = "\<lambda>found. case found of Inr existing \<Rightarrow> Done (Inr (existing, False))
     | Inl err \<Rightarrow> if \<not> IsNotFound err then Done (Inl err)
         else and_then (Create_thread flt now (inferred oor n sample)) (\<lambda>created. Done (map_sum id (\<lambda>d. (d, True)) created))"
  have "guarantees store_ok grows (?go a) (ensured_in n) s''"
  proof (cases a)
    case (Inr d)
    then show ?thesis using Get_ensured [OF s'(1), of gf n d] a by (auto simp: ensured_in_def)
  next
    case (Inl e)
    have "guarantees store_ok grows (and_then (Create_thread flt now (inferred oor n sample))
        (\<lambda>created. Done (map_sum id (\<lambda>d. (d, True)) created))) (ensured_in n) s''"
    proof (rule registry.and_then_intro)
      show "guarantees store_ok grows (Create_thread flt now (inferred oor n sample)) (\<lambda>s a. guarantees store_ok grows
          (Done (map_sum id (\<lambda>d. (d, True)) a)) (ensured_in n) s) s''"
      proof (rule registry.weaken [OF Create_thread_ok])
        fix s' :: schema_db and a :: "dataset result"
        assume "recorded s' a \<and> (\<forall>x. a = Inr x \<longrightarrow> Name x = Name (inferred oor n sample))"
        then show "guarantees store_ok grows (Done (map_sum id (\<lambda>d. (d, True)) a)) (ensured_in n) s'"
          using grows_set [of s'] by (cases a) (auto simp: ensured_in_def recorded_def)
      qed
    qed (use s' a in simp)
    then show ?thesis using Inl by (simp add: ensured_in_def)
  qed
  then show "store_ok s'' \<and> grows s' s'' \<and> guarantees store_ok grows (?go a) (ensured_in n) s''"
    using s' a registry.R_refl by simp
qed

section \<open>Calls at the same time\<close>

text \<open>A call, and what it reports: the definition, and whether the call created the dataset.\<close>

datatype store_call =
    CreateCall sql_faults time dataset
  | AddCall sql_faults time string "column list"
  | EnsureCall "f64 \<Rightarrow> int" sql_faults sql_faults time string record_map

type_synonym store_thread = "(schema_db, (dataset \<times> bool) result) thread"

definition reporting :: "bool \<Rightarrow> dataset result \<Rightarrow> store_thread" where
  "reporting b r = Done (map_sum id (\<lambda>d. (d, b)) r)"

fun store_thread :: "store_call \<Rightarrow> store_thread" where
  "store_thread (CreateCall flt now d) = and_then (Create_thread flt now d) (reporting True)"
| "store_thread (AddCall flt now n cs) = and_then (AddColumns_thread flt now n cs) (reporting False)"
| "store_thread (EnsureCall oor gf flt now n sample) = EnsureDataset_thread oor gf flt now n sample"

definition reported :: "schema_db \<Rightarrow> (dataset \<times> bool) result \<Rightarrow> bool" where
  "reported db r \<longleftrightarrow> (\<forall>d b. r = Inr (d, b) \<longrightarrow> d \<in> set (history db (Name d)))"

lemma reporting_ok:
  assumes "\<And>db. guarantees store_ok grows t recorded db"
  shows "store_ok db \<Longrightarrow> guarantees store_ok grows (and_then t (reporting b)) reported db"
proof (rule registry.and_then_intro)
  show "guarantees store_ok grows t (\<lambda>s a. guarantees store_ok grows (reporting b a) reported s) db"
  proof (rule registry.weaken [OF assms])
    fix s' a assume "recorded s' a"
    then show "guarantees store_ok grows (reporting b a) reported s'"
      using grows_set [of s'] by (cases a) (auto simp: reporting_def reported_def recorded_def)
  qed
qed

lemma store_thread_ok:
  assumes "store_ok db"
  shows "guarantees store_ok grows (store_thread c) reported db"
proof (cases c)
  case (CreateCall flt now d)
  have "guarantees store_ok grows (Create_thread flt now d) recorded db" for db
    by (rule registry.weaken [OF Create_thread_ok]) simp
  then show ?thesis using reporting_ok assms by (simp add: CreateCall)
next
  case (AddCall flt now n cs)
  then show ?thesis using reporting_ok AddColumns_thread_ok assms by simp
next
  case (EnsureCall oor gf flt now n sample)
  have "guarantees store_ok grows (EnsureDataset_thread oor gf flt now n sample) reported db"
    by (rule registry.weaken [OF EnsureDataset_thread_ok]) (auto simp: ensured_in_def reported_def)
  then show ?thesis by (simp add: EnsureCall)
qed

text \<open>A thread that reports a creation only from an action that begins the history of the dataset.\<close>

definition begins :: "store_thread \<Rightarrow> schema_db \<Rightarrow> schema_db \<Rightarrow> bool" where
  "begins t db db' \<longleftrightarrow> (\<forall>d. t = Done (Inr (d, True)) \<longrightarrow> history db (Name d) = [] \<and> history db' (Name d) \<noteq> [])"

primrec fair :: "store_thread \<Rightarrow> bool" where
  "fair (Done r) \<longleftrightarrow> True"
| "fair (Act g) \<longleftrightarrow> (\<forall>db. store_ok db \<longrightarrow> begins (snd (g db)) db (fst (g db)) \<and> snd (map_prod id fair (g db)))"

lemma fair_Act:
  "fair (Act g) \<longleftrightarrow> (\<forall>db. store_ok db \<longrightarrow> begins (snd (g db)) db (fst (g db)) \<and> fair (snd (g db)))"
  by simp

declare fair.simps(2) [simp del]

lemma begins_more [simp]: "begins (Act g) db db'" "begins (Done (Inl e)) db db'" "begins (Done (Inr (d, False))) db db'"
  by (simp_all add: begins_def)

lemma fair_returns: "returns (\<lambda>r. \<forall>d. r \<noteq> Inr (d, True)) t \<Longrightarrow> fair t"
proof (induction t rule: thread_induct)
  case (Act g)
  have "begins (snd (g db)) db (fst (g db))" for db
    using Act.prems by (cases "snd (g db)") (auto simp: returns_Act begins_def dest: spec [of _ db])
  then show ?case using Act by (simp add: fair_Act returns_Act)
qed simp

lemma finish_begins:
  assumes "store_ok db" "prepare_create flt' now db0 d = Inr x" and "finish flt db (Inr x) = (Inr y, db')"
  shows "history db (Name y) = [] \<and> history db' (Name y) \<noteq> []"
proof -
  have x: "Version x = 1" "pending_ok db x"
    using prepare_create_pending [OF assms(2)] by (auto simp: pending_ok_def)
  from assms(3) have y: "y = x" and p: "persist flt db x = (None, db')"
    by (auto simp: finish_def split: prod.splits option.splits)
  have "Version x = int (length (history db (Name x))) + 1"
    by (rule history_fresh_version(1) [OF assms(1) x(2) persist_okD(1) [OF p]])
  then show ?thesis using persist_appends(1) [OF assms(1) x(2) p, of "Name x"] x(1) y by simp
qed

lemma fair_Create: "fair (and_then (Create_thread flt now d) (reporting True))"
proof -
  have "fair (and_then (finish_thread flt a) (reporting True))" if "prepare_create flt now db0 d = a" for a db0
  proof (cases a)
    case (Inr x)
    have "begins (reporting True (fst (finish flt db (Inr x)))) db (snd (finish flt db (Inr x)))" if "store_ok db" for db
      using finish_begins [OF that, of flt now db0 d x flt] \<open>_ = a\<close> Inr
      by (cases "finish flt db (Inr x)"; cases "fst (finish flt db (Inr x))") (auto simp: reporting_def begins_def)
    then show ?thesis by (simp add: Inr finish_thread_def and_then_atom fair_Act) (simp add: reporting_def)
  qed (simp add: finish_thread_def reporting_def)
  moreover have "begins (and_then (finish_thread flt a) (reporting True)) db db" for a db
    by (cases a) (simp_all add: finish_thread_def reporting_def and_then_atom)
  ultimately show ?thesis by (simp add: Create_thread_def and_then_atom fair_Act)
qed

lemma fair_store_thread: "fair (store_thread c)"
proof (cases c)
  case (CreateCall flt now d)
  then show ?thesis using fair_Create by simp
next
  case (AddCall flt now n cs)
  have "returns (\<lambda>r. \<forall>d. r \<noteq> Inr (d, True)) (and_then (AddColumns_thread flt now n cs) (reporting False))"
    by (rule returns_and_then [OF returns_any]) (auto simp: reporting_def map_sum_def split: sum.split)
  then show ?thesis using fair_returns AddCall by simp
next
  case (EnsureCall oor gf flt now n sample)
  have "fair (and_then (Create_thread flt now (inferred oor n sample)) (\<lambda>r. Done (map_sum id (\<lambda>d. (d, True)) r)))"
    using fair_Create unfolding reporting_def .
  moreover have "begins (and_then (Create_thread flt now d) k) db db" for d k db
    by (simp add: Create_thread_def and_then_atom)
  ultimately show ?thesis
    by (auto simp: EnsureCall EnsureDataset_thread_def and_then_atom fair_Act split: sum.split)
qed

definition creator :: "store_thread list \<Rightarrow> nat \<Rightarrow> string \<Rightarrow> bool" where
  "creator ts i n \<longleftrightarrow> i < length ts \<and> (\<exists>d. ts ! i = Done (Inr (d, True)) \<and> Name d = n)"

definition one_creator :: "schema_db \<Rightarrow> schema_db \<times> store_thread list \<Rightarrow> bool" where
  "one_creator db0 c \<longleftrightarrow> (\<forall>i<length (snd c). fair (snd c ! i))
     \<and> (\<forall>i n. creator (snd c) i n \<longrightarrow> history db0 n = [] \<and> history (fst c) n \<noteq> []
          \<and> (\<forall>j. creator (snd c) j n \<longrightarrow> j = i))"

lemma one_creatorD:
  assumes "one_creator db0 (db, ts)"
  shows "i < length ts \<Longrightarrow> fair (ts ! i)"
    and "creator ts i n \<Longrightarrow> history db0 n = [] \<and> history db n \<noteq> []"
    and "creator ts i n \<Longrightarrow> creator ts j n \<Longrightarrow> j = i"
  using assms unfolding one_creator_def by auto

lemma one_creator_step:
  assumes inv: "one_creator db0 (db, ts)" and ok: "store_ok db" and i: "i < length ts" "ts ! i = Act g"
    and g: "g db = (db', t)" and grow: "grows db0 db" "grows db db'"
  shows "one_creator db0 (db', ts[i := t])"
proof -
  have "fair (Act g)" using one_creatorD(1) [OF inv i(1)] i(2) by simp
  then have t: "begins t db db'" "fair t" using ok g unfolding fair_Act by (metis fst_conv snd_conv)+
  have kept: "history db' n \<noteq> []" if "history db n \<noteq> []" for n
    using that grow(2) unfolding grows_def by (metis prefix_bot.bot_least prefix_order.order_antisym)
  have new: "creator (ts[i := t]) j n \<longleftrightarrow> (if j = i then \<exists>d. t = Done (Inr (d, True)) \<and> Name d = n else creator ts j n)" for j n
    using i(1) by (auto simp: creator_def nth_list_update)
  have fresh: "history db n = [] \<and> history db' n \<noteq> [] \<and> history db0 n = []" if "t = Done (Inr (d, True))" "Name d = n" for d n
  proof -
    have "history db n = [] \<and> history db' n \<noteq> []" using t(1) that by (simp add: begins_def)
    moreover have "prefix (history db0 n) (history db n)" using grow(1) by (simp add: grows_def)
    ultimately show ?thesis by auto
  qed
  show ?thesis
    unfolding one_creator_def
  proof (intro conjI allI impI)
    fix j assume "j < length (snd (db', ts[i := t]))"
    then show "fair (snd (db', ts[i := t]) ! j)"
      using t(2) one_creatorD(1) [OF inv, of j] by (cases "j = i") auto
  next
    fix j n assume "creator (snd (db', ts[i := t])) j n"
    then have c: "creator (ts[i := t]) j n" by simp
    show "history db0 n = []" "history (fst (db', ts[i := t])) n \<noteq> []"
      using c fresh one_creatorD(2) [OF inv] kept unfolding new by (auto split: if_splits)
    fix k assume "creator (snd (db', ts[i := t])) k n"
    then have "creator (ts[i := t]) k n" by simp
    then show "k = j"
      using c fresh one_creatorD(2,3) [OF inv] unfolding new by (metis (full_types))
  qed
qed

lemma pool_one_creator:
  assumes "pool_ok store_ok grows c Q" "one_creator db0 c" "grows db0 (fst c)"
  shows "one_creator db0 (pool_run is c) \<and> grows db0 (fst (pool_run is c))"
  using assms
proof (induction "is" arbitrary: c)
  case (Cons i "is")
  obtain db ts where c: "c = (db, ts)" by (cases c)
  have st: "pool_ok store_ok grows (pool_step i c) Q" "grows db (fst (pool_step i c))"
    using registry.pool_step_ok [OF Cons.prems(1), of i] c by auto
  have "one_creator db0 (pool_step i c)"
  proof (cases "\<exists>g. i < length ts \<and> ts ! i = Act g")
    case True
    then obtain g where g: "i < length ts" "ts ! i = Act g" by blast
    obtain db' t where gd: "g db = (db', t)" by (cases "g db")
    have p: "pool_step i c = (db', ts[i := t])" using g gd by (simp add: c pool_step_def)
    show ?thesis unfolding p
      by (rule one_creator_step [OF _ _ g gd])
        (use Cons.prems st p in \<open>auto simp: c pool_ok_def\<close>)
  next
    case False
    have "pool_step i c = c"
    proof (cases "i < length ts")
      case True
      then obtain r where "ts ! i = Done r" using False by (cases "ts ! i") auto
      then show ?thesis using True list_update_id [of ts i] by (simp add: c pool_step_def)
    qed (simp add: c pool_step_def)
    then show ?thesis using Cons.prems(2) by simp
  qed
  moreover have "grows db0 (fst (pool_step i c))"
    using registry.R_trans [OF Cons.prems(3)] st(2) c by simp
  ultimately show ?case using Cons.IH [OF st(1)] by simp
qed simp



section \<open>Two first ingestions\<close>



end
