(* ===== verification/RouteThreads.thy ===== *)
theory RouteThreads
  imports ApiProps StoreThreads BrokerThreads
begin

text \<open>
  Requests of the router that run at the same time, each in a goroutine of its own. A handler is a thread
  on the state the handlers share; its actions are those of the parts it uses (the limiter, the
  statements on the registry, the steps of a query, each request to ClickHouse, the accesses to the
  map of known tables). Undisturbed, every one of them is the handler of the same name.
\<close>

type_synonym api_thread = "(server, api_body reply) thread"

section \<open>Handlers\<close>

definition query_reply :: "query_result result \<Rightarrow> api_body reply" where
  "query_reply res =
     (case res of
        Inl err \<Rightarrow> api_error (if IsResourceExhausted err then StatusTooManyRequests
                           else if IsInvalidArgument err then StatusBadRequest
                           else StatusInternalServerError) (Error err)
      | Inr r \<Rightarrow> Reply StatusOK (RawJson (fmtWriteQueryResult r)))"

definition on_broker :: "(broker, 'a) thread \<Rightarrow> (server, 'a) thread" where
  "on_broker = zoom sv_broker (\<lambda>b s. s\<lparr>sv_broker := b\<rparr>)"

definition on_schemas :: "(schema_db, 'a) thread \<Rightarrow> (server, 'a) thread" where
  "on_schemas = zoom sv_schemas (\<lambda>db s. s\<lparr>sv_schemas := db\<rparr>)"

definition query_thread :: "env \<Rightarrow> request_in \<Rightarrow> api_thread" where
  "query_thread e r =
     (case decode_query (e_json e) (in_Body r) of
        Inl err \<Rightarrow> Done (api_error StatusBadRequest ''invalid JSON body'')
      | Inr sql \<Rightarrow>
          let subject = (case IdentityFromContext r of Some i \<Rightarrow> Subject i | None \<Rightarrow> []) in
          and_then (on_broker (Execute_thread (e_net e) (e_clock e) subject sql)) (\<lambda>res. Done (query_reply res)))"

text \<open>\<open>deps.DDL.Exec\<close>: one request to ClickHouse, when there is an executor.\<close>

definition ddl_thread :: "deps \<Rightarrow> env \<Rightarrow> string \<Rightarrow> (server, goerr option) thread" where
  "ddl_thread d e stmt =
     atom (\<lambda>s. case run_ddl (executor d e) stmt of
        (stmts, err) \<Rightarrow> (err, s\<lparr>sv_sent := sv_sent s @ sent_ddl d stmts\<rparr>))"

definition create_thread :: "deps \<Rightarrow> env \<Rightarrow> create_request result \<Rightarrow> api_thread" where
  "create_thread d e decoded_body =
     (case decoded_body of
        Inl err \<Rightarrow> Done (schema_reply (writeError StatusBadRequest (''invalid JSON body: '' @ Error err)))
      | Inr req \<Rightarrow>
          and_then (on_schemas (Create_thread (e_sql_faults e) (e_now e)
              \<lparr>Name = cr_Name req, Columns = cr_Columns req, OrderBy = cr_OrderBy req,
               PartitionByColumn = cr_PartitionByColumn req, TTLDays = cr_TTLDays req,
               Version = 0, CreatedAt = 0, UpdatedAt = 0\<rparr>)) (\<lambda>res.
          case res of
            Inl err \<Rightarrow> Done (schema_reply (writeStoreError err))
          | Inr created \<Rightarrow>
              and_then (ddl_thread d e (GenerateDDL created)) (\<lambda>ddl_err.
              Done (schema_reply (case ddl_err of
                Some err \<Rightarrow> writeError StatusInternalServerError
                  (''dataset metadata created but ClickHouse table creation failed: '' @ Error err)
              | None \<Rightarrow> writeJSON StatusCreated (DatasetBody created))))))"

definition addColumns_thread :: "deps \<Rightarrow> env \<Rightarrow> string \<Rightarrow> add_columns_request result \<Rightarrow> api_thread" where
  "addColumns_thread d e name decoded_body =
     (case decoded_body of
        Inl err \<Rightarrow> Done (schema_reply (writeError StatusBadRequest (''invalid JSON body: '' @ Error err)))
      | Inr req \<Rightarrow>
          and_then (on_schemas (AddColumns_thread (e_sql_faults e) (e_now e) name (ac_Columns req))) (\<lambda>res.
          case res of
            Inl err \<Rightarrow> Done (schema_reply (writeStoreError err))
          | Inr def \<Rightarrow>
              and_then (ddl_thread d e (GenerateAlterDDL name (ac_Columns req))) (\<lambda>ddl_err.
              Done (schema_reply (case ddl_err of
                Some err \<Rightarrow> writeError StatusInternalServerError
                  (''dataset metadata evolved but ClickHouse ALTER TABLE failed: '' @ Error err)
              | None \<Rightarrow> writeJSON StatusOK (DatasetBody def))))))"

text \<open>The table of a dataset, once per process: \<open>ensured\<close> is read, and written after the statement.\<close>

definition ensure_table :: "deps \<Rightarrow> env \<Rightarrow> string \<Rightarrow> dataset \<Rightarrow> (server, goerr option) thread" where
  "ensure_table d e name def =
     (if DDL d = None then Done None
      else
        and_then (atom (\<lambda>s. (name \<in> sv_ensured s, s))) (\<lambda>known.
        if known then Done None
        else
          and_then (ddl_thread d e (GenerateDDL def)) (\<lambda>ddl_err.
          case ddl_err of
            Some err \<Rightarrow> Done (Some err)
          | None \<Rightarrow> atom (\<lambda>s. (None, s\<lparr>sv_ensured := insert name (sv_ensured s)\<rparr>)))))"

definition insert_thread :: "deps \<Rightarrow> env \<Rightarrow> string \<Rightarrow> record_map list \<Rightarrow> (server, goerr option) thread" where
  "insert_thread d e name records =
     atom (\<lambda>s. case Insert (encode_record (e_json e)) (e_net e) (InserterURL d) name records of
        (err, sent) \<Rightarrow> (err, s\<lparr>sv_sent := sv_sent s @ sent\<rparr>))"

definition ingest_records_thread :: "deps \<Rightarrow> env \<Rightarrow> string \<Rightarrow> record_map list \<Rightarrow> api_thread" where
  "ingest_records_thread d e name records =
     and_then (on_schemas (EnsureDataset_thread (e_oor e) (e_get_faults e) (e_sql_faults e) (e_now e) name (hd records))) (\<lambda>res.
     case res of
       Inl err \<Rightarrow> Done (api_error StatusInternalServerError (''ensure dataset: '' @ Error err))
     | Inr (def, _) \<Rightarrow>
         and_then (ensure_table d e name def) (\<lambda>ddl_err.
         case ddl_err of
           Some err \<Rightarrow> Done (api_error StatusInternalServerError (''create clickhouse table: '' @ Error err))
         | None \<Rightarrow>
             and_then (insert_thread d e name records) (\<lambda>ins_err.
             Done (case ins_err of
               Some err \<Rightarrow> api_error StatusInternalServerError (''insert failed: '' @ Error err)
             | None \<Rightarrow> Reply StatusAccepted (AcceptedJson (length records))))))"

definition ingest_thread :: "deps \<Rightarrow> env \<Rightarrow> string \<Rightarrow> goerr option \<Rightarrow> request_in \<Rightarrow> api_thread" where
  "ingest_thread d e name read_err r =
     (case scan_lines MaxScanTokenSize (in_Body r) read_err of
        (toks, _) \<Rightarrow>
          (case read_records (decode_record (e_json e)) (e_now e) toks [] of
             BadLine err \<Rightarrow> Done (api_error StatusBadRequest (''invalid JSON line: '' @ Error err))
           | NilMap \<Rightarrow> Done Panicked
           | Records records \<Rightarrow>
               if length records = 0
               then Done (api_error StatusBadRequest ''no records in request body'')
               else ingest_records_thread d e name records))"

section \<open>The router\<close>

text \<open>A handler of a single action, and a guard in front of a thread: what the guard does with a request
  does not depend on the state, so it is found out with a handler that only notes the request it is given.\<close>

definition one_action :: "api_handler \<Rightarrow> request_in \<Rightarrow> api_thread" where
  "one_action h r = atom (h r)"

type_synonym probe = "(api_body, request_in option) handler"

definition behind_guard :: "(probe \<Rightarrow> probe) \<Rightarrow> (request_in \<Rightarrow> api_thread) \<Rightarrow> request_in \<Rightarrow> api_thread" where
  "behind_guard wrap h r =
     (case wrap (\<lambda>r' _. (Panicked, Some r')) r None of
        (rep, None) \<Rightarrow> Done rep
      | (_, Some r') \<Rightarrow> h r')"

definition Routes_thread :: "deps \<Rightarrow> env \<Rightarrow> request_in \<Rightarrow> api_thread" where
  "Routes_thread d e r =
     (case drop 3 (in_Path r) of
        [] \<Rightarrow>
          if in_Method r = ''POST'' then create_thread d e (decode_create (e_json e) (in_Body r))
          else one_action (Routes d e) r
      | [name, what] \<Rightarrow>
          if name \<noteq> [] \<and> what = ''columns'' \<and> in_Method r = ''POST''
          then addColumns_thread d e name (decode_columns (e_json e) (in_Body r))
          else one_action (Routes d e) r
      | _ \<Rightarrow> one_action (Routes d e) r)"

definition mux_thread :: "deps \<Rightarrow> env \<Rightarrow> goerr option \<Rightarrow> request_in \<Rightarrow> api_thread" where
  "mux_thread d e read_err r =
     (let path = in_Path r; authenticate = behind_guard (Authenticate ErrorJson (auth_env_of d e)) in
      if path = [''api'', ''v1'', ''query''] \<and> in_Method r = ''POST'' then
        authenticate (behind_guard (RequireRole ErrorJson RoleViewer) (query_thread e)) r
      else if take 3 path = [''api'', ''v1'', ''datasets''] then
        authenticate (behind_guard datasetRBAC (Routes_thread d e)) r
      else if length path = 4 \<and> take 3 path = [''api'', ''v1'', ''ingest''] \<and> path ! 3 \<noteq> [] \<and> in_Method r = ''POST'' then
        authenticate (behind_guard (RequireDatasetScope ErrorJson datasetFromPath)
          (\<lambda>r'. ingest_thread d e (datasetFromPath r') read_err r')) r
      else one_action (mux d e read_err) r)"

definition NewRouter_thread :: "deps \<Rightarrow> env \<Rightarrow> goerr option \<Rightarrow> request_in \<Rightarrow> api_thread" where
  "NewRouter_thread d e read_err r =
     (if RateLimitPerMinute d > 0 then
        and_then (atom (\<lambda>s. case allow (sv_limiter s) (e_now e) (ByRemoteIP (in_RemoteAddr r)) of
            (ok, l) \<Rightarrow> (ok, s\<lparr>sv_limiter := l\<rparr>))) (\<lambda>ok.
        if ok then mux_thread d e read_err r
        else Done (api_error StatusTooManyRequests ''rate limit exceeded''))
      else mux_thread d e read_err r)"

section \<open>Undisturbed, a thread is the handler\<close>

lemma on_broker_alone:
  "run_alone (on_broker t) s = (case run_alone t (sv_broker s) of (a, b) \<Rightarrow> (a, s\<lparr>sv_broker := b\<rparr>))"
  unfolding on_broker_def by (rule run_zoom) simp_all

lemma on_schemas_alone:
  "run_alone (on_schemas t) s = (case run_alone t (sv_schemas s) of (a, db) \<Rightarrow> (a, s\<lparr>sv_schemas := db\<rparr>))"
  unfolding on_schemas_def by (rule run_zoom) simp_all

lemma query_alone: "run_alone (query_thread e r) s = queryHandler e r s"
  by (simp add: query_thread_def queryHandler_def run_and_then on_broker_alone Execute_alone query_reply_def Let_def
      split: sum.split prod.split)

lemma sent_ddl_Nil [simp]: "sent_ddl d [] = []"
  by (simp add: sent_ddl_def split: option.split)

lemma ddl_alone:
  "run_alone (ddl_thread d e stmt) s = (case run_ddl (executor d e) stmt of
      (stmts, err) \<Rightarrow> (err, s\<lparr>sv_sent := sv_sent s @ sent_ddl d stmts\<rparr>))"
  by (simp add: ddl_thread_def)

lemma create_alone:
  "run_alone (create_thread d e req) s
   = after_ddl d s (create_handler (executor d e) (e_sql_faults e) (e_now e) (sv_schemas s) req)"
  by (simp add: create_thread_def create_handler_def run_and_then on_schemas_alone Create_alone ddl_alone after_ddl_def
      split: sum.split prod.split option.split)

lemma addColumns_alone:
  "run_alone (addColumns_thread d e n req) s
   = after_ddl d s (addColumns_handler (executor d e) (e_sql_faults e) (e_now e) (sv_schemas s) n req)"
  by (simp add: addColumns_thread_def addColumns_handler_def run_and_then on_schemas_alone AddColumns_alone ddl_alone
      after_ddl_def split: sum.split prod.split option.split)

lemma ensure_table_alone:
  "run_alone (ensure_table d e n def) s =
     (if DDL d \<noteq> None \<and> n \<notin> sv_ensured s
      then (case run_ddl (executor d e) (GenerateDDL def) of
          (stmts, Some err) \<Rightarrow> (Some err, s\<lparr>sv_sent := sv_sent s @ sent_ddl d stmts\<rparr>)
        | (stmts, None) \<Rightarrow> (None, s\<lparr>sv_sent := sv_sent s @ sent_ddl d stmts, sv_ensured := insert n (sv_ensured s)\<rparr>))
      else (None, s))"
  by (simp add: ensure_table_def run_and_then ddl_alone split: option.split prod.split)

lemma ingest_records_alone: "run_alone (ingest_records_thread d e n records) s = ingest_records d e n records s"
proof -
  obtain res db where en: "EnsureDataset (e_oor e) (e_get_faults e) (e_sql_faults e) (e_now e) (sv_schemas s) n (hd records)
      = (res, db)" by fastforce
  obtain ierr isent where ins: "Insert (encode_record (e_json e)) (e_net e) (InserterURL d) n records = (ierr, isent)"
    by fastforce
  show ?thesis
  proof (cases res)
    case (Inr x)
    obtain def b where x: "x = (def, b)" by (cases x)
    show ?thesis
    proof (cases "DDL d \<noteq> None \<and> n \<notin> sv_ensured s")
      case True
      then obtain url where url: "DDL d = Some url" by blast
      show ?thesis using True
        by (cases "Exec (e_net e) url (GenerateDDL def)"; cases ierr)
          (simp_all add: ingest_records_thread_def ingest_records_def run_and_then on_schemas_alone EnsureDataset_alone
            en Inr x ensure_table_alone url run_ddl_def executor_def insert_thread_def ins Let_def)
    next
      case False
      then show ?thesis
        by (cases ierr) (auto simp: ingest_records_thread_def ingest_records_def run_and_then on_schemas_alone
          EnsureDataset_alone en Inr x ensure_table_alone insert_thread_def ins Let_def)
    qed
  qed (simp add: ingest_records_thread_def ingest_records_def run_and_then on_schemas_alone EnsureDataset_alone en)
qed

lemma ingest_alone: "run_alone (ingest_thread d e n re r) s = ingestHandler d e n re r s"
  by (simp add: ingest_thread_def ingestHandler_def ingest_records_alone split: prod.split ingest_lines.split)

lemma Authenticate_alone:
  "run_alone (behind_guard (Authenticate ErrorJson ae) h r) s = Authenticate ErrorJson ae (\<lambda>r. run_alone (h r)) r s"
  by (simp add: behind_guard_def Authenticate_def Let_def split: prod.split sum.split)

lemma RequireRole_alone:
  "run_alone (behind_guard (RequireRole ErrorJson m) h r) s = RequireRole ErrorJson m (\<lambda>r. run_alone (h r)) r s"
  by (simp add: behind_guard_def RequireRole_def split: option.split)

lemma RequireDatasetScope_alone:
  "run_alone (behind_guard (RequireDatasetScope ErrorJson name) h r) s
   = RequireDatasetScope ErrorJson name (\<lambda>r. run_alone (h r)) r s"
  by (simp add: behind_guard_def RequireDatasetScope_def split: option.split)

lemma datasetRBAC_alone: "run_alone (behind_guard datasetRBAC h r) s = datasetRBAC (\<lambda>r. run_alone (h r)) r s"
  by (simp add: behind_guard_def datasetRBAC_def Let_def split: option.split)

lemmas guards_alone = Authenticate_alone RequireRole_alone RequireDatasetScope_alone datasetRBAC_alone

lemma one_action_alone [simp]: "run_alone (one_action h r) s = h r s"
  by (simp add: one_action_def)

lemma Routes_alone: "run_alone (Routes_thread d e r) s = Routes d e r s"
proof -
  consider "drop 3 (in_Path r) = []" | n where "drop 3 (in_Path r) = [n]"
    | n w where "drop 3 (in_Path r) = [n, w]" | n w x xs where "drop 3 (in_Path r) = n # w # x # xs"
    by (metis list.exhaust)
  then show ?thesis
    by cases (simp_all add: Routes_thread_def Routes_def create_alone addColumns_alone)
qed

lemma mux_alone: "run_alone (mux_thread d e re r) s = mux d e re r s"
proof -
  have h: "(\<lambda>r. run_alone (query_thread e r)) = queryHandler e" "(\<lambda>r. run_alone (Routes_thread d e r)) = Routes d e"
    "(\<lambda>r. run_alone (ingest_thread d e (datasetFromPath r) re r)) = (\<lambda>r. ingestHandler d e (datasetFromPath r) re r)"
    by (simp_all add: fun_eq_iff query_alone Routes_alone ingest_alone)
  have g: "(\<lambda>r. run_alone (behind_guard (RequireRole ErrorJson m) k r)) = RequireRole ErrorJson m (\<lambda>r. run_alone (k r))"
    "(\<lambda>r. run_alone (behind_guard datasetRBAC k r)) = datasetRBAC (\<lambda>r. run_alone (k r))"
    "(\<lambda>r. run_alone (behind_guard (RequireDatasetScope ErrorJson name) k r)) = RequireDatasetScope ErrorJson name (\<lambda>r. run_alone (k r))"
    for m k name by (simp_all add: fun_eq_iff guards_alone)
  show ?thesis
    by (simp add: mux_thread_def Let_def Authenticate_alone g h) (auto simp: mux_def Let_def)
qed

text \<open>A request by itself is the handler. What a request does when no other comes in between, from the
  limiter through guards, statements and calls of ClickHouse to its reply, is what the router computes.\<close>

lemma requests_sequential: "run_alone (NewRouter_thread d e re r) s = NewRouter d e re r s"
  by (simp add: NewRouter_thread_def NewRouter_def RateLimit_mw_def run_and_then mux_alone split: prod.split bool.split)

section \<open>What holds of every thread of the router\<close>

lemma behind_guard_cases:
  assumes "guard wrap refusal approved"
  obtains (refuses) rep where "refusal rep" "behind_guard wrap h r = Done rep"
    | (passes) r' where "approved r r'" "behind_guard wrap h r = h r'"
  using guard.guarded [OF assms, of r] by (auto simp: behind_guard_def)

lemma Authenticate_cases:
  obtains (refuses) m where "behind_guard (Authenticate ErrorJson ae) h r = Done (Reply StatusUnauthorized (ErrorJson m))"
    | (passes) i where "credentials ae r i" "behind_guard (Authenticate ErrorJson ae) h r = h (r\<lparr>in_Identity := Some i\<rparr>)"
proof (cases rule: behind_guard_cases [OF authn.guard_axioms [of ErrorJson ae], of h r])
  case (1 rep)
  then show ?thesis using refuses by (auto simp: refused_def)
next
  case (2 r')
  then show ?thesis using passes by auto
qed

definition refusal :: "api_body reply \<Rightarrow> bool" where
  "refusal rep \<longleftrightarrow> (\<exists>st m. st \<in> {StatusUnauthorized, StatusForbidden} \<and> rep = Reply st (ErrorJson m))"

lemma refusal_intro: "refused ErrorJson {StatusUnauthorized, StatusForbidden} rep \<Longrightarrow> refusal rep"
  by (auto simp: refusal_def refused_def)

text \<open>What the mux does with a request it asks no credentials for.\<close>

definition unguarded :: "deps \<Rightarrow> env \<Rightarrow> request_in \<Rightarrow> server \<Rightarrow> api_body reply \<times> server \<Rightarrow> bool" where
  "unguarded d e r s out \<longleftrightarrow> out \<in> {healthHandler r s, loginHandler d e r s, static_or d e StatusMethodNotAllowed r s,
     static_or d e StatusNotFound r s}"

lemma unguarded_cases:
  assumes "unguarded d e r s out"
  shows "snd out = s" "\<not> data_reply (fst out)" "fst out \<noteq> Reply StatusAccepted b"
  using assms unfolding unguarded_def
  by (elim insertE; simp add: mux_open data_reply_def healthHandler_def loginHandler_def static_or_def mux_miss_def
      api_error_def status_defs split: sum.split)+

lemma mux_thread_rule:
  assumes refuse: "\<And>rep. refusal rep \<Longrightarrow> P (Done rep)"
    and query: "\<And>i. credentials (auth_env_of d e) r i \<Longrightarrow> in_Path r = [''api'', ''v1'', ''query'']
      \<Longrightarrow> P (query_thread e (r\<lparr>in_Identity := Some i\<rparr>))"
    and routes: "\<And>i. credentials (auth_env_of d e) r i \<Longrightarrow> dataset_path (in_Path r)
      \<Longrightarrow> AtLeast (id_Role i) (if in_Method r \<noteq> ''GET'' then RoleEngineer else RoleViewer)
      \<Longrightarrow> P (Routes_thread d e (r\<lparr>in_Identity := Some i\<rparr>))"
    and ingest: "\<And>i n. credentials (auth_env_of d e) r i \<Longrightarrow> ingest_path (in_Path r) n \<Longrightarrow> in_Method r = ''POST''
      \<Longrightarrow> AllowsDataset i n \<Longrightarrow> P (ingest_thread d e n re (r\<lparr>in_Identity := Some i\<rparr>))"
    and other: "(\<And>s. unguarded d e r s (mux d e re r s))
      \<Longrightarrow> \<not> (in_Method r = ''POST'' \<and> (\<exists>n. ingest_path (in_Path r) n)) \<Longrightarrow> P (one_action (mux d e re) r)"
  shows "P (mux_thread d e re r)"
proof -
  let ?p = "in_Path r" and ?auth = "behind_guard (Authenticate ErrorJson (auth_env_of d e))"
  have out: "P (Done (Reply StatusUnauthorized (ErrorJson m)))" for m
    by (rule refuse) (simp add: refusal_def)
  have authd: "P (?auth h r)" if "\<And>i. credentials (auth_env_of d e) r i \<Longrightarrow> P (h (r\<lparr>in_Identity := Some i\<rparr>))" for h
    by (cases rule: Authenticate_cases [of "auth_env_of d e" h r]) (simp_all add: out that)
  have q': "P (behind_guard (RequireRole ErrorJson RoleViewer) (query_thread e) (r\<lparr>in_Identity := Some i\<rparr>))"
    if "credentials (auth_env_of d e) r i" "?p = [''api'', ''v1'', ''query'']" for i
    by (cases rule: behind_guard_cases [OF role_guard.guard_axioms [of ErrorJson RoleViewer],
          of "query_thread e" "r\<lparr>in_Identity := Some i\<rparr>"])
      (auto simp: query that intro: refuse refusal_intro)
  have ds: "P (behind_guard datasetRBAC (Routes_thread d e) (r\<lparr>in_Identity := Some i\<rparr>))"
    if "credentials (auth_env_of d e) r i" "dataset_path ?p" for i
    by (cases rule: behind_guard_cases [OF rbac.guard_axioms, of "Routes_thread d e" "r\<lparr>in_Identity := Some i\<rparr>"])
      (use routes [OF that] in \<open>auto intro: refuse refusal_intro\<close>)
  have ing: "P (behind_guard (RequireDatasetScope ErrorJson datasetFromPath)
      (\<lambda>r'. ingest_thread d e (datasetFromPath r') re r') (r\<lparr>in_Identity := Some i\<rparr>))"
    if "credentials (auth_env_of d e) r i" "ingest_path ?p n" "in_Method r = ''POST''" for i n
  proof -
    have n: "datasetFromPath (r\<lparr>in_Identity := Some i\<rparr>) = n" using that(2) by (simp add: ingest_path_def datasetFromPath_def)
    show ?thesis
      by (cases rule: behind_guard_cases [OF scope_guard.guard_axioms [of ErrorJson datasetFromPath],
            of "\<lambda>r'. ingest_thread d e (datasetFromPath r') re r'" "r\<lparr>in_Identity := Some i\<rparr>"])
        (use ingest [OF that] n in \<open>auto intro: refuse refusal_intro\<close>)
  qed
  consider (q) "?p = [''api'', ''v1'', ''query'']" "in_Method r = ''POST''" | (d) "take 3 ?p = [''api'', ''v1'', ''datasets'']"
    | (i) "length ?p = 4" "take 3 ?p = [''api'', ''v1'', ''ingest'']" "?p ! 3 \<noteq> []" "in_Method r = ''POST''"
    | (other) "\<not> (?p = [''api'', ''v1'', ''query''] \<and> in_Method r = ''POST'')" "take 3 ?p \<noteq> [''api'', ''v1'', ''datasets'']"
        "\<not> (length ?p = 4 \<and> take 3 ?p = [''api'', ''v1'', ''ingest''] \<and> ?p ! 3 \<noteq> [] \<and> in_Method r = ''POST'')"
    by blast
  then show ?thesis
  proof cases
    case q
    then have "mux_thread d e re r = ?auth (behind_guard (RequireRole ErrorJson RoleViewer) (query_thread e)) r"
      by (simp add: mux_thread_def Let_def)
    then show ?thesis using authd [of "behind_guard (RequireRole ErrorJson RoleViewer) (query_thread e)"]
        q' q by simp
  next
    case d
    then have "mux_thread d e re r = ?auth (behind_guard datasetRBAC (Routes_thread d e)) r"
      by (auto simp: mux_thread_def Let_def)
    then show ?thesis using authd [of "behind_guard datasetRBAC (Routes_thread d e)"] ds d
      by (simp add: dataset_path_def)
  next
    case i
    obtain n where n: "ingest_path ?p n"
      using path4 [OF i(1,2)] i(3) by (auto simp: ingest_path_def)
    have "mux_thread d e re r = ?auth (behind_guard (RequireDatasetScope ErrorJson datasetFromPath)
        (\<lambda>r'. ingest_thread d e (datasetFromPath r') re r')) r"
      using i n by (simp add: mux_thread_def Let_def ingest_path_def)
    then show ?thesis
      using authd [of "behind_guard (RequireDatasetScope ErrorJson datasetFromPath)
        (\<lambda>r'. ingest_thread d e (datasetFromPath r') re r')"] ing n i(4) by simp
  next
    case other
    have m: "unguarded d e r s (mux d e re r s)" for s
      using other by (auto simp: mux_def Let_def unguarded_def)
    have "mux_thread d e re r = one_action (mux d e re) r"
      using other by (auto simp: mux_thread_def Let_def)
    moreover have "\<not> (in_Method r = ''POST'' \<and> (\<exists>n. ingest_path ?p n))"
      using other(3) by (auto simp: ingest_path_def)
    ultimately show ?thesis using assms(5) m by simp
  qed
qed

end
