(* ===== verification/RouteProps.thy ===== *)
theory RouteProps
  imports RouteThreads
begin

text \<open>
  What requests that run at the same time do to the shared state, action by action: which parts a request
  may touch at all, and with whose credentials.
\<close>

section \<open>Which parts a handler touches\<close>

lemma on_broker_leaves:
  "leaves sv_schemas (on_broker t)" "leaves sv_sent (on_broker t)" "leaves sv_limiter (on_broker t)"
  by (auto simp: on_broker_def intro: leaves_zoom)

lemma on_schemas_leaves:
  "leaves sv_broker (on_schemas t)" "leaves sv_limiter (on_schemas t)"
  by (auto simp: on_schemas_def intro: leaves_zoom)

lemma ddl_leaves: "leaves sv_broker (ddl_thread d e stmt)" "leaves sv_limiter (ddl_thread d e stmt)"
  by (auto simp: ddl_thread_def intro!: leaves_atom split: prod.split)

lemma query_leaves:
  "leaves sv_schemas (query_thread e r)" "leaves sv_sent (query_thread e r)" "leaves sv_limiter (query_thread e r)"
  by (auto simp: query_thread_def Let_def intro!: leaves_and_then on_broker_leaves split: sum.split)

lemma create_leaves: "leaves sv_broker (create_thread d e req)" "leaves sv_limiter (create_thread d e req)"
  by (auto simp: create_thread_def intro!: leaves_and_then on_schemas_leaves ddl_leaves split: sum.split)

lemma addColumns_leaves:
  "leaves sv_broker (addColumns_thread d e n req)" "leaves sv_limiter (addColumns_thread d e n req)"
  by (auto simp: addColumns_thread_def intro!: leaves_and_then on_schemas_leaves ddl_leaves split: sum.split)

lemma ensure_table_leaves: "leaves sv_broker (ensure_table d e n def)" "leaves sv_limiter (ensure_table d e n def)"
  by (auto simp: ensure_table_def intro!: leaves_and_then leaves_atom ddl_leaves split: option.split)

lemma insert_leaves: "leaves sv_broker (insert_thread d e n rs)" "leaves sv_limiter (insert_thread d e n rs)"
  by (auto simp: insert_thread_def intro!: leaves_atom split: prod.split)

lemma ingest_leaves: "leaves sv_broker (ingest_thread d e n re r)" "leaves sv_limiter (ingest_thread d e n re r)"
  by (auto simp: ingest_thread_def ingest_records_thread_def
      intro!: leaves_and_then on_schemas_leaves ensure_table_leaves insert_leaves
      split: prod.split ingest_lines.split sum.split option.split)

lemma one_action_leaves: "(\<And>s. f (snd (h r s)) = f s) \<Longrightarrow> leaves f (one_action h r)"
  unfolding one_action_def by (rule leaves_atom)

text \<open>The dataset routes: two writing handlers, and those of one action, which only read.\<close>

lemma Routes_cases:
  obtains (create) "in_Method r = ''POST''" "Routes_thread d e r = create_thread d e (decode_create (e_json e) (in_Body r))"
    | (columns) n where "in_Method r = ''POST''"
        "Routes_thread d e r = addColumns_thread d e n (decode_columns (e_json e) (in_Body r))"
    | (reads) "Routes_thread d e r = one_action (Routes d e) r" "\<And>s. snd (Routes d e r s) = s"
proof -
  consider "drop 3 (in_Path r) = []" | n where "drop 3 (in_Path r) = [n]"
    | n w where "drop 3 (in_Path r) = [n, w]" | n w x xs where "drop 3 (in_Path r) = n # w # x # xs"
    by (metis list.exhaust)
  then show thesis
  proof cases
    case 1
    then show thesis
      by (cases "in_Method r = ''POST''") (auto simp: Routes_thread_def Routes_def is_get_def mux_miss_def intro: create reads)
  next
    case 2
    then show thesis by (intro reads) (simp_all add: Routes_thread_def Routes_def mux_miss_def)
  next
    case 3
    then show thesis
      by (cases "n \<noteq> [] \<and> w = ''columns'' \<and> in_Method r = ''POST''")
        (auto simp: Routes_thread_def Routes_def mux_miss_def intro: columns reads)
  next
    case 4
    then show thesis by (intro reads) (simp_all add: Routes_thread_def Routes_def mux_miss_def)
  qed
qed

lemma Routes_leaves: "leaves sv_broker (Routes_thread d e r)" "leaves sv_limiter (Routes_thread d e r)"
  and Routes_get_leaves: "in_Method r \<noteq> ''POST'' \<Longrightarrow> leaves f (Routes_thread d e r)"
  by (cases rule: Routes_cases [of r d e]; simp add: create_leaves addColumns_leaves one_action_leaves)+

lemma mux_leaves_limiter: "leaves sv_limiter (mux_thread d e re r)"
proof (rule mux_thread_rule)
  assume u: "\<And>s. unguarded d e r s (mux d e re r s)"
  show "leaves sv_limiter (one_action (mux d e re) r)"
    by (rule one_action_leaves) (simp add: unguarded_cases(1) [OF u])
qed (simp_all add: query_leaves Routes_leaves ingest_leaves)

section \<open>Access control at every action\<close>

text \<open>A handler that gives no data back, whatever the others do.\<close>

lemma ingest_no_data: "returns (\<lambda>rep. \<not> data_reply rep) (ingest_thread d e n re r)"
  by (auto simp: ingest_thread_def ingest_records_thread_def data_reply_def api_error_def
      intro!: returns_and_then [OF returns_any] split: prod.split ingest_lines.split sum.split option.split)

definition touches :: "api_thread \<Rightarrow> bool" where
  "touches t \<longleftrightarrow> \<not> (leaves sv_schemas t \<and> leaves sv_broker t \<and> leaves sv_sent t \<and> returns (\<lambda>rep. \<not> data_reply rep) t)"

definition entitled :: "deps \<Rightarrow> env \<Rightarrow> request_in \<Rightarrow> api_thread \<Rightarrow> bool" where
  "entitled d e r t \<longleftrightarrow> (\<exists>i. credentials (auth_env_of d e) r i
    \<and> (in_Path r = [''api'', ''v1'', ''query''] \<and> leaves sv_schemas t \<and> leaves sv_sent t
     \<or> dataset_path (in_Path r) \<and> leaves sv_broker t
        \<and> (leaves sv_schemas t \<and> leaves sv_sent t \<or> AtLeast (id_Role i) RoleEngineer)
     \<or> (\<exists>n. ingest_path (in_Path r) n \<and> AllowsDataset i n \<and> leaves sv_broker t)))"

lemma mux_entitled: "touches (mux_thread d e re r) \<longrightarrow> entitled d e r (mux_thread d e re r)"
proof (rule mux_thread_rule [where P = "\<lambda>t. touches t \<longrightarrow> entitled d e r t"])
  fix rep assume "refusal rep"
  then show "touches (Done rep) \<longrightarrow> entitled d e r (Done rep)"
    by (auto simp: touches_def refusal_def data_reply_def)
next
  fix i assume "credentials (auth_env_of d e) r i" "in_Path r = [''api'', ''v1'', ''query'']"
  then show "touches (query_thread e (r\<lparr>in_Identity := Some i\<rparr>)) \<longrightarrow> entitled d e r (query_thread e (r\<lparr>in_Identity := Some i\<rparr>))"
    unfolding entitled_def using query_leaves by blast
next
  fix i let ?r = "r\<lparr>in_Identity := Some i\<rparr>"
  assume "credentials (auth_env_of d e) r i" "dataset_path (in_Path r)"
    "AtLeast (id_Role i) (if in_Method r \<noteq> ''GET'' then RoleEngineer else RoleViewer)"
  moreover have "leaves sv_schemas (Routes_thread d e ?r) \<and> leaves sv_sent (Routes_thread d e ?r)" if "in_Method r = ''GET''"
    using that Routes_get_leaves [of ?r sv_schemas] Routes_get_leaves [of ?r sv_sent] by simp
  ultimately show "touches (Routes_thread d e ?r) \<longrightarrow> entitled d e r (Routes_thread d e ?r)"
    unfolding entitled_def using Routes_leaves [of d e ?r] by (cases "in_Method r = ''GET''") auto
next
  fix i n assume "credentials (auth_env_of d e) r i" "ingest_path (in_Path r) n" "AllowsDataset i n"
  then show "touches (ingest_thread d e n re (r\<lparr>in_Identity := Some i\<rparr>)) \<longrightarrow> entitled d e r (ingest_thread d e n re (r\<lparr>in_Identity := Some i\<rparr>))"
    unfolding entitled_def using ingest_leaves by blast
next
  assume u: "\<And>s. unguarded d e r s (mux d e re r s)"
  show "touches (one_action (mux d e re) r) \<longrightarrow> entitled d e r (one_action (mux d e re) r)"
    using unguarded_cases [OF u]
    by (simp add: touches_def one_action_leaves) (simp add: one_action_def returns_atom)
qed

lemma NewRouter_cases:
  obtains (mux) "NewRouter_thread d e re r = mux_thread d e re r"
    | (limited) "NewRouter_thread d e re r = and_then (atom (\<lambda>s. case allow (sv_limiter s) (e_now e) (ByRemoteIP (in_RemoteAddr r)) of
            (ok, l) \<Rightarrow> (ok, s\<lparr>sv_limiter := l\<rparr>))) (\<lambda>ok. if ok then mux_thread d e re r
        else Done (api_error StatusTooManyRequests ''rate limit exceeded''))"
  unfolding NewRouter_thread_def by (cases "RateLimitPerMinute d > 0") simp_all

lemma NewRouter_leaves:
  assumes "leaves f (mux_thread d e re r)" and "\<And>l s. f (s\<lparr>sv_limiter := l\<rparr>) = f s"
  shows "leaves f (NewRouter_thread d e re r)"
  using assms
  by (cases rule: NewRouter_cases [of d e re r]) (auto intro!: leaves_and_then leaves_atom split: prod.split)

lemma NewRouter_returns:
  assumes "returns Q (mux_thread d e re r)" and "Q (api_error StatusTooManyRequests ''rate limit exceeded'')"
  shows "returns Q (NewRouter_thread d e re r)"
  using assms
  by (cases rule: NewRouter_cases [of d e re r]) (auto intro!: returns_and_then [OF returns_any])

text \<open>C1: every action of a request is authorised. Whatever a request is and whatever goes on beside
  it: either none of its actions touches the dataset registry, the query broker or what is sent to
  ClickHouse, and it gets neither dataset definitions nor query rows back; or it carries credentials
  that verify to an identity, and it is a query, which touches the broker only; or a dataset request,
  whose role is at least engineer if it may write; or an ingestion into a dataset the identity's
  scopes cover.\<close>

theorem requests_act_as_authorised:
  "let t = NewRouter_thread d e re r in
   leaves sv_schemas t \<and> leaves sv_broker t \<and> leaves sv_sent t \<and> returns (\<lambda>rep. \<not> data_reply rep) t
   \<or> (\<exists>i. credentials (auth_env_of d e) r i
        \<and> (in_Path r = [''api'', ''v1'', ''query''] \<and> leaves sv_schemas t \<and> leaves sv_sent t
         \<or> dataset_path (in_Path r) \<and> leaves sv_broker t
            \<and> (leaves sv_schemas t \<and> leaves sv_sent t \<or> AtLeast (id_Role i) RoleEngineer)
         \<or> (\<exists>n. ingest_path (in_Path r) n \<and> AllowsDataset i n \<and> leaves sv_broker t)))"
proof -
  let ?m = "mux_thread d e re r" and ?t = "NewRouter_thread d e re r"
  have l: "leaves sv_schemas ?m \<Longrightarrow> leaves sv_schemas ?t" "leaves sv_broker ?m \<Longrightarrow> leaves sv_broker ?t"
    "leaves sv_sent ?m \<Longrightarrow> leaves sv_sent ?t"
    by (simp_all add: NewRouter_leaves)
  have "returns (\<lambda>rep. \<not> data_reply rep) ?m \<Longrightarrow> returns (\<lambda>rep. \<not> data_reply rep) ?t"
    by (rule NewRouter_returns) (simp_all add: data_reply_def api_error_def)
  then show ?thesis
    using mux_entitled [of d e re r] l unfolding Let_def touches_def entitled_def by blast
qed

section \<open>How long a request takes\<close>

lemma store_within:
  "within 2 (Create_thread flt now x)" "within 2 (AddColumns_thread flt now n cs)"
  "within 3 (EnsureDataset_thread oor gf flt now n sample)"
proof -
  have f: "within 1 (finish_thread flt p)" for p by (cases p) (simp_all add: finish_thread_def)
  show c: "within 2 (Create_thread flt now x)" "within 2 (AddColumns_thread flt now n cs)" for x
    unfolding Create_thread_def AddColumns_thread_def by (rule within_action; simp add: f [unfolded One_nat_def])+
  have "within 2 (and_then (Create_thread flt now x) (\<lambda>r. Done (h r)))" for x and h :: "dataset result \<Rightarrow> (dataset \<times> bool) result"
    by (rule within_then [OF c(1)]) simp_all
  then show "within 3 (EnsureDataset_thread oor gf flt now n sample)"
    unfolding EnsureDataset_thread_def by (intro within_action) (simp_all split: sum.split)
qed

lemma Execute_within: "within 5 (Execute_thread w k u sql)"
  by (auto simp: Execute_thread_def denied_def served_from_cache_def asked_def record_entry_def Let_def
      intro!: within_action split: option.split sum.split)

lemma written_within:
  assumes "within 2 t" and "\<And>res. within 1 (k res)"
  shows "within 3 (and_then (on_schemas t) k)"
  unfolding on_schemas_def by (rule within_then [OF within_zoom [OF assms(1)]]) (use assms(2) in simp_all)

lemma handlers_within:
  "within 5 (query_thread e r)" "within 3 (create_thread d e req)" "within 3 (addColumns_thread d e n req')"
  "within 7 (ingest_thread d e n re r)"
proof -
  show "within 5 (query_thread e r)"
    by (auto simp: query_thread_def Let_def on_broker_def intro!: within_then [OF within_zoom [OF Execute_within]]
        split: sum.split)
  show "within 3 (create_thread d e req)" "within 3 (addColumns_thread d e n req')"
    by (auto simp: create_thread_def addColumns_thread_def ddl_thread_def intro!: written_within store_within within_action
        split: sum.split)
  have rows: "within 1 (and_then (insert_thread d e n rs) (\<lambda>x. Done (h x)))" for rs and h :: "goerr option \<Rightarrow> api_body reply"
    unfolding insert_thread_def by (rule within_action) simp_all
  have table: "within 3 (ensure_table d e n def)" for def
    by (auto simp: ensure_table_def ddl_thread_def intro!: within_action split: option.split)
  have "within 4 (and_then (ensure_table d e n def) k)" if "\<And>x. within 1 (k x)" for def and k :: "goerr option \<Rightarrow> api_thread"
    by (rule within_then [OF table]) (use that in simp_all)
  then have "within 7 (ingest_records_thread d e n rs)" for rs
    unfolding ingest_records_thread_def on_schemas_def
    by (intro within_then [OF within_zoom [OF store_within(3)]])
      (auto simp: rows [unfolded One_nat_def] split: sum.split option.split)
  then show "within 7 (ingest_thread d e n re r)"
    by (auto simp: ingest_thread_def split: prod.split ingest_lines.split)
qed

lemma router_within: "within 8 (NewRouter_thread d e re r)"
proof -
  have mux: "within 7 (mux_thread d e re r)"
  proof (rule mux_thread_rule)
    fix i
    show "within 7 (query_thread e (r\<lparr>in_Identity := Some i\<rparr>))"
      by (rule within_more [OF handlers_within(1)]) simp
    show "within 7 (Routes_thread d e (r\<lparr>in_Identity := Some i\<rparr>))"
      using within_more [OF handlers_within(2)] within_more [OF handlers_within(3)]
      by (cases rule: Routes_cases [of "r\<lparr>in_Identity := Some i\<rparr>" d e]) (simp_all add: one_action_def)
    show "within 7 (ingest_thread d e n re (r\<lparr>in_Identity := Some i\<rparr>))" for n
      by (rule handlers_within(4))
  qed (simp_all add: one_action_def)
  then have "within 7 (if ok then mux_thread d e re r
      else Done (api_error StatusTooManyRequests ''rate limit exceeded''))" for ok by simp
  then show ?thesis
    using within_more [OF mux, of 8]
    by (cases rule: NewRouter_cases [of d e re r]) (simp_all add: within_action)
qed

end
