(* ===== verification/ServerThreads.thy ===== *)
theory ServerThreads
  imports RouteProps
begin

text \<open>
  The contract between the requests that run at the same time: what the state of the server keeps and
  along what it grows, whatever the order of their actions. Every action of every handler keeps it.
\<close>

section \<open>Tables before rows\<close>

lemma quoteIdent_inject: "quoteIdent_api m = quoteIdent_api n \<longleftrightarrow> m = n"
proof
  assume q: "quoteIdent_api m = quoteIdent_api n"
  have "read_ident False (quoteIdent x @ []) = Some (x, [])" for x
    by (rule read_quoteIdent) (simp_all add: readable_def)
  then have "read_ident False (quoteIdent_api x) = Some (x, [])" for x
    by (simp add: quoteIdent_api_def quoteIdent_def)
  then show "m = n" using q by (metis fst_conv option.inject)
qed simp

lemma insert_request_inject:
  "insert_request url m t = insert_request url n u \<Longrightarrow> m = n"
  by (simp add: insert_request_def quoteIdent_inject)

lemma ddl_not_insert: "rq_query q = [] \<Longrightarrow> q \<noteq> insert_request url n t"
  by (auto simp: insert_request_def)

text \<open>\<open>created P url n sent\<close>: \<open>P\<close> holds of \<open>n\<close> and the requests include the CREATE statement of
  a definition of \<open>n\<close>. \<open>created_before\<close>: so it is for every INSERT and the requests before it.\<close>

definition created :: "(string \<Rightarrow> bool) \<Rightarrow> string \<Rightarrow> string \<Rightarrow> http_request list \<Rightarrow> bool" where
  "created P url n sent \<longleftrightarrow> P n \<and> (\<exists>d. Name d = n \<and> ddl_request url (GenerateDDL d) \<in> set sent)"

definition created_before :: "(string \<Rightarrow> bool) \<Rightarrow> string \<Rightarrow> http_request list \<Rightarrow> bool" where
  "created_before P url sent \<longleftrightarrow>
     (\<forall>i<length sent. \<forall>n t. sent ! i = insert_request url n t \<longrightarrow> created P url n (take i sent))"

lemma created_beforeD:
  "created_before P url sent \<Longrightarrow> i < length sent \<Longrightarrow> sent ! i = insert_request url n t \<Longrightarrow> created P url n (take i sent)"
  unfolding created_before_def by blast

lemma created_append: "created P url n sent \<Longrightarrow> created P url n (sent @ qs)"
  by (auto simp: created_def)

lemma created_before_ddl:
  assumes "created_before P url sent" "\<forall>q\<in>set qs. rq_query q = []"
  shows "created_before P url (sent @ qs)"
  unfolding created_before_def
proof (intro allI impI)
  fix i n t
  assume i: "i < length (sent @ qs)" "(sent @ qs) ! i = insert_request url n t"
  have lt: "i < length sent"
  proof (rule ccontr)
    assume "\<not> i < length sent"
    then have "(sent @ qs) ! i \<in> set qs" using i(1) by (simp add: nth_append)
    then show False using assms(2) i(2) ddl_not_insert by metis
  qed
  then show "created P url n (take i (sent @ qs))"
    using created_beforeD [OF assms(1) lt] i(2) lt by (simp add: nth_append)
qed

lemma created_before_insert:
  assumes "created_before P url sent" "created P url n sent"
  shows "created_before P url (sent @ [insert_request url n t])"
  unfolding created_before_def
proof (intro allI impI)
  fix i m u
  assume i: "i < length (sent @ [insert_request url n t])"
    "(sent @ [insert_request url n t]) ! i = insert_request url m u"
  show "created P url m (take i (sent @ [insert_request url n t]))"
  proof (cases "i < length sent")
    case True
    then show ?thesis using created_beforeD [OF assms(1) True] i(2) by (simp add: nth_append)
  next
    case False
    then have "i = length sent" using i(1) by simp
    then show ?thesis using assms(2) i(2) insert_request_inject [of url n t m u] by simp
  qed
qed

lemma sent_ddl_query: "q \<in> set (sent_ddl d stmts) \<Longrightarrow> rq_query q = []"
  by (auto simp: sent_ddl_def ddl_request_def split: option.splits)

lemma Insert_sent:
  "Insert enc w url n records = (res, sent) \<Longrightarrow> sent = [] \<or> (\<exists>t. sent = [insert_request url n t])"
  by (auto simp: Insert_def Let_def split: sum.splits option.splits http_outcome.splits if_splits)

section \<open>The contract\<close>

definition adds_for :: "string set \<Rightarrow> broker \<Rightarrow> broker \<Rightarrow> bool" where
  "adds_for U b b' \<longleftrightarrow> (\<exists>new. al_entries (b_audit b') = al_entries (b_audit b) @ new \<and> UserID ` set new \<subseteq> U)"

lemma adds_for_refl: "adds_for U b b"
  by (simp add: adds_for_def)

lemma adds_for_trans: "adds_for U b b1 \<Longrightarrow> adds_for U b1 b2 \<Longrightarrow> adds_for U b b2"
  unfolding adds_for_def by (metis append_assoc image_Un set_append Un_least)

lemma adds_for_same: "b_audit b' = b_audit b \<Longrightarrow> adds_for U b b'"
  by (simp add: adds_for_def)

interpretation journal: evolution "\<lambda>_. True" "adds_for U" for U
  by unfold_locales (rule adds_for_refl, rule adds_for_trans)

text \<open>\<open>good\<close>: the registry is sound, the tables the server counts on were created, and so was that of every
  INSERT before it. \<open>adds\<close>: histories, the journal (with entries for users in \<open>U\<close>) and the requests sent
  only get longer.\<close>

definition good :: "(string \<Rightarrow> bool) \<Rightarrow> string \<Rightarrow> server \<Rightarrow> bool" where
  "good P url s \<longleftrightarrow> store_ok (sv_schemas s)
     \<and> (\<forall>n\<in>sv_ensured s. created P url n (sv_sent s)) \<and> created_before P url (sv_sent s)"

definition adds :: "string set \<Rightarrow> server \<Rightarrow> server \<Rightarrow> bool" where
  "adds U s s' \<longleftrightarrow> grows (sv_schemas s) (sv_schemas s') \<and> adds_for U (sv_broker s) (sv_broker s')
     \<and> prefix (sv_sent s) (sv_sent s')"

interpretation srv: evolution "good P url" "adds U" for P url U
proof
  show "adds U s s" for s by (simp add: adds_def registry.R_refl adds_for_refl)
  show "adds U s s''" if "adds U s s'" "adds U s' s''" for s s' s''
    using that registry.R_trans adds_for_trans prefix_order.order_trans unfolding adds_def by blast
qed

lemma adds_created: "created P url n (sv_sent s) \<Longrightarrow> adds U s s' \<Longrightarrow> created P url n (sv_sent s')"
  unfolding adds_def using created_append by (auto elim!: prefixE)

lemma adds_sent: "q \<in> set (sv_sent s) \<Longrightarrow> adds U s s' \<Longrightarrow> q \<in> set (sv_sent s')"
  unfolding adds_def using set_mono_prefix by blast

text \<open>A request by itself, for a handler of one action that leaves the state alone.\<close>

lemma one_action_ok:
  assumes "\<And>s. snd (h r s) = s" and "\<And>s s'. Q s' (fst (h r s))"
  shows "guarantees (good P url) (adds U) (one_action h r) Q s"
  unfolding one_action_def
proof (rule srv.atom_intro)
  fix s' a s'' assume "good P url s'" "h r s' = (a, s'')"
  then show "good P url s'' \<and> adds U s' s'' \<and> (\<forall>z. good P url z \<longrightarrow> adds U s'' z \<longrightarrow> Q z a)"
    using assms(1) [of s'] assms(2) [of _ s'] srv.R_refl by simp
qed

section \<open>The handlers\<close>

lemma record_adds_for:
  assumes "UserID e \<in> U" and "\<And>b. guarantees (\<lambda>_. True) (adds_for U) (k ()) Q b"
  shows "guarantees (\<lambda>_. True) (adds_for U) (and_then (record_entry e) k) Q b"
  unfolding record_entry_def
  by (rule journal.atom_then) (use assms in \<open>auto simp: journal_def adds_for_def\<close>)

lemma silent_adds_for:
  assumes "\<And>b. b_audit (snd (f b)) = b_audit b" and "\<And>b a. guarantees (\<lambda>_. True) (adds_for U) (k a) Q b"
  shows "guarantees (\<lambda>_. True) (adds_for U) (and_then (atom f) k) Q b"
proof (rule journal.atom_then)
  fix s' a s'' assume "f s' = (a, s'')"
  then show "True \<and> adds_for U s' s'' \<and> guarantees (\<lambda>_. True) (adds_for U) (k a) Q s''"
    using assms(1) [of s'] assms(2) by (simp add: adds_for_same)
qed

lemma Execute_adds_for:
  assumes "u \<in> U"
  shows "guarantees (\<lambda>_. True) (adds_for U) (Execute_thread w k u sql) (\<lambda>_ _. True) b"
  unfolding Execute_thread_def
  by (rule silent_adds_for)
    (auto simp: denied_def served_from_cache_def asked_def Let_def assms
      intro!: silent_adds_for record_adds_for split: prod.split option.split sum.split)

lemma on_broker_ok:
  assumes "guarantees (\<lambda>_. True) (adds_for U) t (\<lambda>_. Q) (sv_broker s)"
  shows "guarantees (good P url) (adds U) (on_broker t) (\<lambda>_. Q) s"
  unfolding on_broker_def
  by (rule guarantees_zoom [where get = sv_broker and s = s, OF _ _ _ _ assms])
    (simp_all add: good_def adds_def registry.R_refl)

lemma on_schemas_ok:
  assumes "guarantees store_ok grows t Q (sv_schemas s)"
  shows "guarantees (good P url) (adds U) (on_schemas t) (\<lambda>s. Q (sv_schemas s)) s"
  unfolding on_schemas_def
  by (rule guarantees_zoom [where get = sv_schemas and s = s, OF _ _ _ _ assms])
    (simp_all add: good_def adds_def adds_for_refl)

lemma query_ok:
  assumes "\<And>i. in_Identity r = Some i \<Longrightarrow> Subject i \<in> U" "in_Identity r \<noteq> None" "good P url s"
    and "\<And>s m. Q s (api_error StatusBadRequest m)" "\<And>s res. Q s (query_reply res)"
  shows "guarantees (good P url) (adds U) (query_thread e r) Q s"
proof (cases "decode_query (e_json e) (in_Body r)")
  case (Inr sql)
  obtain i where i: "in_Identity r = Some i" using assms(2) by blast
  have "guarantees (good P url) (adds U) (on_broker (Execute_thread (e_net e) (e_clock e) (Subject i) sql))
      (\<lambda>s a. guarantees (good P url) (adds U) (Done (query_reply a)) Q s) s"
    by (rule srv.weaken [OF on_broker_ok [OF Execute_adds_for]]) (use assms i in auto)
  from srv.and_then_intro [OF this assms(3)] show ?thesis
    using Inr i by (simp add: query_thread_def IdentityFromContext_def Let_def)
qed (simp add: query_thread_def assms)

lemma good_ddl:
  assumes "good P url s" "\<forall>q\<in>set qs. rq_query q = []"
  shows "good P url (s\<lparr>sv_sent := sv_sent s @ qs\<rparr>) \<and> adds U s (s\<lparr>sv_sent := sv_sent s @ qs\<rparr>)"
  using assms created_before_ddl created_append by (simp add: good_def adds_def registry.R_refl adds_for_refl)

lemma ddl_ok:
  assumes "\<And>s' err. good P url s' \<Longrightarrow> adds U s s' \<Longrightarrow> err = snd (run_ddl (executor d e) stmt)
      \<Longrightarrow> set (sent_ddl d (fst (run_ddl (executor d e) stmt))) \<subseteq> set (sv_sent s')
      \<Longrightarrow> guarantees (good P url) (adds U) (k err) Q s'"
  shows "guarantees (good P url) (adds U) (and_then (ddl_thread d e stmt) k) Q s"
  unfolding ddl_thread_def
proof (rule srv.atom_then)
  fix s' a s''
  assume s': "good P url s'" "adds U s s'" and a: "(case run_ddl (executor d e) stmt of
      (stmts, err) \<Rightarrow> (err, s'\<lparr>sv_sent := sv_sent s' @ sent_ddl d stmts\<rparr>)) = (a, s'')"
  obtain stmts err where r: "run_ddl (executor d e) stmt = (stmts, err)" by (cases "run_ddl (executor d e) stmt")
  have s'': "a = err" "s'' = s'\<lparr>sv_sent := sv_sent s' @ sent_ddl d stmts\<rparr>" using a r by simp_all
  have "good P url s'' \<and> adds U s' s''"
    unfolding s''(2) by (rule good_ddl [OF s'(1)]) (use sent_ddl_query in blast)
  moreover from this have "guarantees (good P url) (adds U) (k a) Q s''"
    using assms [of s'' a] srv.R_trans [OF s'(2)] r s'' by simp
  ultimately show "good P url s'' \<and> adds U s' s'' \<and> guarantees (good P url) (adds U) (k a) Q s''" by simp
qed

text \<open>Every definition whose CREATE statement ClickHouse takes during a request is one of \<open>P\<close>.\<close>

definition confirming :: "(string \<Rightarrow> bool) \<Rightarrow> string \<Rightarrow> env \<Rightarrow> bool" where
  "confirming P url e \<longleftrightarrow> (\<forall>def. Exec (e_net e) url (GenerateDDL def) = None \<longrightarrow> P (Name def))"

lemma atom_same_ok:
  assumes "\<And>s. snd (f s) = s" and "\<And>s' a. good P url s' \<Longrightarrow> adds U s s' \<Longrightarrow> fst (f s') = a
      \<Longrightarrow> guarantees (good P url) (adds U) (k a) Q s'"
  shows "guarantees (good P url) (adds U) (and_then (atom f) k) Q s"
proof (rule srv.atom_then)
  fix s' a s'' assume "good P url s'" "adds U s s'" "f s' = (a, s'')"
  then show "good P url s'' \<and> adds U s' s'' \<and> guarantees (good P url) (adds U) (k a) Q s''"
    using assms(1) [of s'] assms(2) [of s' a] srv.R_refl by simp
qed

lemma remember_ok:
  assumes "created P url n (sv_sent s)"
  shows "guarantees (good P url) (adds U) (atom (\<lambda>s. (None, s\<lparr>sv_ensured := insert n (sv_ensured s)\<rparr>)))
    (\<lambda>s err. err = None \<longrightarrow> created P url n (sv_sent s)) s"
proof (rule srv.atom_intro)
  fix s' and a :: "'x option" and s''
  assume s': "good P url s'" "adds U s s'" and a: "(None, s'\<lparr>sv_ensured := insert n (sv_ensured s')\<rparr>) = (a, s'')"
  have c: "created P url n (sv_sent s')" by (rule adds_created [OF assms s'(2)])
  then have "good P url s'' \<and> adds U s' s''"
    using s'(1) a by (auto simp: good_def adds_def registry.R_refl adds_for_refl)
  moreover have "created P url n (sv_sent z)" if "adds U s'' z" for z
    using adds_created [OF _ that, of P url n] c a by auto
  ultimately show "good P url s'' \<and> adds U s' s''
      \<and> (\<forall>z. good P url z \<longrightarrow> adds U s'' z \<longrightarrow> a = None \<longrightarrow> created P url n (sv_sent z))" by blast
qed

lemma ensure_table_ok:
  assumes "DDL d = Some url" "confirming P url e" "Name def = n"
  shows "guarantees (good P url) (adds U) (ensure_table d e n def)
    (\<lambda>s err. err = None \<longrightarrow> created P url n (sv_sent s)) s"
proof -
  let ?Q = "\<lambda>s err. err = None \<longrightarrow> created P url n (sv_sent s)"
  have create: "guarantees (good P url) (adds U) (and_then (ddl_thread d e (GenerateDDL def)) (\<lambda>ddl_err.
      case ddl_err of Some err \<Rightarrow> Done (Some err)
      | None \<Rightarrow> atom (\<lambda>s. (None, s\<lparr>sv_ensured := insert n (sv_ensured s)\<rparr>)))) ?Q s" for s
  proof (rule ddl_ok)
    fix s' :: server and err
    assume "err = snd (run_ddl (executor d e) (GenerateDDL def))"
      and sent: "set (sent_ddl d (fst (run_ddl (executor d e) (GenerateDDL def)))) \<subseteq> set (sv_sent s')"
    then have e: "err = Exec (e_net e) url (GenerateDDL def)" by (simp add: run_ddl_def executor_def assms(1))
    have "ddl_request url (GenerateDDL def) \<in> set (sv_sent s')"
      using sent by (simp add: run_ddl_def executor_def assms(1) sent_ddl_def)
    then have "created P url n (sv_sent s')" if "err = None"
      using that e assms(2,3) by (auto simp: created_def confirming_def)
    then show "guarantees (good P url) (adds U) (case err of Some err \<Rightarrow> Done (Some err)
      | None \<Rightarrow> atom (\<lambda>s. (None, s\<lparr>sv_ensured := insert n (sv_ensured s)\<rparr>))) ?Q s'"
      using remember_ok by (cases err) simp_all
  qed
  have t: "ensure_table d e n def = and_then (atom (\<lambda>s. (n \<in> sv_ensured s, s))) (\<lambda>known.
        if known then Done None
        else and_then (ddl_thread d e (GenerateDDL def)) (\<lambda>ddl_err.
          case ddl_err of Some err \<Rightarrow> Done (Some err)
          | None \<Rightarrow> atom (\<lambda>s. (None, s\<lparr>sv_ensured := insert n (sv_ensured s)\<rparr>))))"
    by (simp add: ensure_table_def assms(1))
  show ?thesis
    unfolding t
  proof (rule atom_same_ok)
    fix s' a
    assume g: "good P url s'" and a: "fst (n \<in> sv_ensured s', s') = a"
    have "created P url n (sv_sent z)" if "a" "adds U s' z" for z
      using that g a adds_created [OF _ that(2), of P url n] by (auto simp: good_def)
    then show "guarantees (good P url) (adds U) (if a then Done None
        else and_then (ddl_thread d e (GenerateDDL def)) (\<lambda>ddl_err.
          case ddl_err of Some err \<Rightarrow> Done (Some err)
          | None \<Rightarrow> atom (\<lambda>s. (None, s\<lparr>sv_ensured := insert n (sv_ensured s)\<rparr>)))) ?Q s'"
      using create by simp
  qed simp
qed

text \<open>The rows of an ingestion reached ClickHouse, which answered 200.\<close>

definition rows_taken :: "env \<Rightarrow> string \<Rightarrow> string \<Rightarrow> record_map list \<Rightarrow> server \<Rightarrow> bool" where
  "rows_taken e url n records s \<longleftrightarrow> (\<exists>text answer err. encode_records (encode_record (e_json e)) records [] = Inr text
     \<and> insert_request url n text \<in> set (sv_sent s)
     \<and> client_do (e_net e) (insert_request url n text) = Response StatusOK answer err)"

lemma rows_taken_later: "rows_taken e url n records s \<Longrightarrow> adds U s s' \<Longrightarrow> rows_taken e url n records s'"
  unfolding rows_taken_def using adds_sent by blast

lemma insert_ok:
  assumes "InserterURL d = url" "created P url n (sv_sent s)" "records \<noteq> []"
  shows "guarantees (good P url) (adds U) (insert_thread d e n records)
    (\<lambda>s err. err = None \<longrightarrow> rows_taken e url n records s) s"
  unfolding insert_thread_def
proof (rule srv.atom_intro)
  fix s' a s''
  assume s': "good P url s'" "adds U s s'" and a: "(case Insert (encode_record (e_json e)) (e_net e) (InserterURL d) n records of
        (err, sent) \<Rightarrow> (err, s'\<lparr>sv_sent := sv_sent s' @ sent\<rparr>)) = (a, s'')"
  obtain sent where ins: "Insert (encode_record (e_json e)) (e_net e) url n records = (a, sent)"
    and s'': "s'' = s'\<lparr>sv_sent := sv_sent s' @ sent\<rparr>"
    using a assms(1) by (auto split: prod.splits)
  have "created_before P url (sv_sent s'')"
    using Insert_sent [OF ins] s'(1) created_before_insert [OF _ adds_created [OF assms(2) s'(2)]]
    by (auto simp: s'' good_def)
  then have "good P url s'' \<and> adds U s' s''"
    using s'(1) created_append by (simp add: s'' good_def adds_def registry.R_refl adds_for_refl)
  moreover have "rows_taken e url n records s''" if "a = None"
    using ins that assms(3)
    by (auto simp: s'' rows_taken_def Insert_def Let_def split: sum.splits option.splits http_outcome.splits if_splits)
  ultimately show "good P url s'' \<and> adds U s' s''
      \<and> (\<forall>z. good P url z \<longrightarrow> adds U s'' z \<longrightarrow> a = None \<longrightarrow> rows_taken e url n records z)"
    using rows_taken_later by blast
qed

section \<open>The router\<close>

text \<open>What a 202 stands for: the records of the body, in one INSERT that ClickHouse took, into a dataset that
  is registered.\<close>

definition ingested :: "env \<Rightarrow> string \<Rightarrow> string \<Rightarrow> record_map list \<Rightarrow> server \<Rightarrow> api_body reply \<Rightarrow> bool" where
  "ingested e url n records s rep \<longleftrightarrow> (\<forall>b. rep = Reply StatusAccepted b \<longrightarrow>
     b = AcceptedJson (length records) \<and> rows_taken e url n records s \<and> history (sv_schemas s) n \<noteq> [])"

definition accepted :: "env \<Rightarrow> string \<Rightarrow> goerr option \<Rightarrow> request_in \<Rightarrow> server \<Rightarrow> api_body reply \<Rightarrow> bool" where
  "accepted e url re r s rep \<longleftrightarrow> (\<forall>b. rep = Reply StatusAccepted b \<longrightarrow> (\<exists>n records. ingest_path (in_Path r) n
     \<and> read_records (decode_record (e_json e)) (e_now e) (fst (scan_lines MaxScanTokenSize (in_Body r) re)) []
         = Records records \<and> records \<noteq> [] \<and> ingested e url n records s rep))"

lemma accepted_other [simp]: "st \<noteq> StatusAccepted \<Longrightarrow> accepted e url re r s (Reply st b)" "accepted e url re r s Panicked"
  by (simp_all add: accepted_def)

lemma ingested_error [simp]: "st \<noteq> StatusAccepted \<Longrightarrow> ingested e url n records s (Reply st b)"
  by (simp add: ingested_def)

lemma status_not_accepted [simp]:
  "StatusInternalServerError \<noteq> StatusAccepted" "StatusBadRequest \<noteq> StatusAccepted" "StatusOK \<noteq> StatusAccepted"
  "StatusCreated \<noteq> StatusAccepted" "StatusUnauthorized \<noteq> StatusAccepted" "StatusForbidden \<noteq> StatusAccepted"
  "StatusTooManyRequests \<noteq> StatusAccepted" "StatusNotFound \<noteq> StatusAccepted" "StatusConflict \<noteq> StatusAccepted"
  "StatusMethodNotAllowed \<noteq> StatusAccepted"
  by (simp_all add: status_defs)

lemma adds_history: "history (sv_schemas s) n \<noteq> [] \<Longrightarrow> adds U s s' \<Longrightarrow> history (sv_schemas s') n \<noteq> []"
  unfolding adds_def grows_def by (metis prefix_bot.bot_least prefix_order.order_antisym)

lemma insert_reply_ok:
  assumes "InserterURL d = url" "created P url n (sv_sent s)" "records \<noteq> []" "history (sv_schemas s) n \<noteq> []" "good P url s"
  shows "guarantees (good P url) (adds U) (and_then (insert_thread d e n records) (\<lambda>ins_err.
      Done (case ins_err of
          Some err \<Rightarrow> api_error StatusInternalServerError (''insert failed: '' @ Error err)
        | None \<Rightarrow> Reply StatusAccepted (AcceptedJson (length records))))) (ingested e url n records) s"
proof -
  have hist: "guarantees (good P url) (adds U) (insert_thread d e n records)
      (\<lambda>s err. (err = None \<longrightarrow> rows_taken e url n records s) \<and> history (sv_schemas s) n \<noteq> []) s"
    by (rule srv.keep [OF insert_ok [OF assms(1-3)], of "\<lambda>s. history (sv_schemas s) n \<noteq> []"])
      (use assms(4) adds_history in blast)+
  show ?thesis
  proof (rule srv.and_then_intro [OF srv.weaken [OF hist] assms(5)])
    fix s' :: server and err :: "goerr option"
    assume q: "(err = None \<longrightarrow> rows_taken e url n records s') \<and> history (sv_schemas s') n \<noteq> []"
    then show "guarantees (good P url) (adds U) (Done (case err of
          Some err \<Rightarrow> api_error StatusInternalServerError (''insert failed: '' @ Error err)
        | None \<Rightarrow> Reply StatusAccepted (AcceptedJson (length records)))) (ingested e url n records) s'"
      using rows_taken_later adds_history
      by (cases err) (auto simp: api_error_def, auto simp: ingested_def)
  qed
qed

lemma ingest_records_ok:
  assumes d: "DDL d = Some url" "InserterURL d = url" and e: "confirming P url e" and "records \<noteq> []" "good P url s"
  shows "guarantees (good P url) (adds U) (ingest_records_thread d e n records) (ingested e url n records) s"
proof -
  let ?G = "guarantees (good P url) (adds U)"
  let ?ensure = "EnsureDataset_thread (e_oor e) (e_get_faults e) (e_sql_faults e) (e_now e) n (hd records)"
  let ?last = "\<lambda>ins_err. Done (case ins_err of
          Some err \<Rightarrow> api_error StatusInternalServerError (''insert failed: '' @ Error err)
        | None \<Rightarrow> Reply StatusAccepted (AcceptedJson (length records)))"
  let ?rows = "\<lambda>ddl_err. case ddl_err of
        Some err \<Rightarrow> Done (api_error StatusInternalServerError (''create clickhouse table: '' @ Error err))
      | None \<Rightarrow> and_then (insert_thread d e n records) ?last"
  have table: "?G (and_then (ensure_table d e n def) ?rows) (ingested e url n records) s"
    if "Name def = n" "history (sv_schemas s) n \<noteq> []" "good P url s" for def s
  proof (rule srv.and_then_intro)
    have "?G (ensure_table d e n def) (\<lambda>s err. (err = None \<longrightarrow> created P url n (sv_sent s)) \<and> history (sv_schemas s) n \<noteq> []) s"
      by (rule srv.keep [OF ensure_table_ok [OF d(1) e that(1)], of "\<lambda>s. history (sv_schemas s) n \<noteq> []"])
        (use that(2) adds_history in blast)+
    then show "?G (ensure_table d e n def) (\<lambda>s err. ?G (?rows err) (ingested e url n records) s) s"
    proof (rule srv.weaken)
      fix s' and err :: "goerr option"
      assume "good P url s'" "(err = None \<longrightarrow> created P url n (sv_sent s')) \<and> history (sv_schemas s') n \<noteq> []"
      then show "?G (?rows err) (ingested e url n records) s'"
        using insert_reply_ok [OF d(2) _ assms(4), of P n s' U e] by (cases err) (simp_all add: api_error_def)
    qed
  qed (rule that(3))
  have "?G (on_schemas ?ensure) (\<lambda>s. ensured_in n (sv_schemas s)) s"
    by (rule on_schemas_ok [OF EnsureDataset_thread_ok])
  then have "?G (on_schemas ?ensure) (\<lambda>s res. ?G (case res of
        Inl err \<Rightarrow> Done (api_error StatusInternalServerError (''ensure dataset: '' @ Error err))
      | Inr (def, _) \<Rightarrow> and_then (ensure_table d e n def) ?rows) (ingested e url n records) s) s"
  proof (rule srv.weaken)
    fix s' and res :: "(dataset \<times> bool) result"
    assume g: "good P url s'" and res: "ensured_in n (sv_schemas s') res"
    show "?G (case res of
        Inl err \<Rightarrow> Done (api_error StatusInternalServerError (''ensure dataset: '' @ Error err))
      | Inr (def, _) \<Rightarrow> and_then (ensure_table d e n def) ?rows) (ingested e url n records) s'"
    proof (cases res)
      case (Inr x)
      obtain def b where x: "x = (def, b)" by (cases x)
      have "Name def = n" "history (sv_schemas s') n \<noteq> []"
        using res by (auto simp: Inr x ensured_in_def)
      then show ?thesis unfolding Inr x sum.case prod.case by (rule table [OF _ _ g])
    qed (simp add: api_error_def)
  qed
  then show ?thesis
    unfolding ingest_records_thread_def by (rule srv.and_then_intro) (rule assms(5))
qed

lemma ingest_ok:
  assumes "DDL d = Some url" "InserterURL d = url" "confirming P url e" "good P url s" "ingest_path (in_Path r) n"
  shows "guarantees (good P url) (adds U) (ingest_thread d e n re r) (accepted e url re r) s"
proof (cases "read_records (decode_record (e_json e)) (e_now e) (fst (scan_lines MaxScanTokenSize (in_Body r) re)) []")
  case (Records records)
  show ?thesis
  proof (cases "records = []")
    case False
    have "guarantees (good P url) (adds U) (ingest_records_thread d e n records) (accepted e url re r) s"
    proof (rule srv.weaken [OF ingest_records_ok [OF assms(1-3) False assms(4)]])
      fix s' rep assume "ingested e url n records s' rep"
      then show "accepted e url re r s' rep" using Records False assms(5) unfolding accepted_def by blast
    qed
    then show ?thesis using Records False by (simp add: ingest_thread_def case_prod_beta)
  qed (use Records in \<open>simp add: ingest_thread_def case_prod_beta accepted_def api_error_def\<close>)
qed (simp_all add: ingest_thread_def case_prod_beta accepted_def api_error_def)

lemma on_schemas_then:
  assumes "\<And>db. guarantees store_ok grows t Q' db" and "good P url s"
    and "\<And>res s. guarantees (good P url) (adds U) (k res) Q s"
  shows "guarantees (good P url) (adds U) (and_then (on_schemas t) k) Q s"
proof -
  have "guarantees (good P url) (adds U) (on_schemas t) (\<lambda>s res. guarantees (good P url) (adds U) (k res) Q s) s"
    by (rule srv.weaken [OF on_schemas_ok [OF assms(1)]]) (rule assms(3))
  then show ?thesis by (rule srv.and_then_intro) (rule assms(2))
qed

lemma schema_reply_accepted: "accepted e url re r s (schema_reply resp) \<longleftrightarrow> status resp \<noteq> StatusAccepted"
  by (auto simp: accepted_def schema_reply_def ingested_def)

lemma write_status [simp]:
  "status (writeError st m) = st" "status (writeJSON st v) = st" "status (writeStoreError err) \<noteq> StatusAccepted"
  by (simp_all add: writeError_def writeJSON_def writeStoreError_def)

lemma handler_status [simp]:
  "status (list_handler flt db) \<noteq> StatusAccepted" "status (get_handler flt db n) \<noteq> StatusAccepted"
  "status (versions_handler flt db n) \<noteq> StatusAccepted"
  by (simp_all add: list_handler_def get_handler_def versions_handler_def split: sum.split)

lemma writing_status:
  "status (fst (create_handler ddl flt now db req)) \<noteq> StatusAccepted"
  "status (fst (addColumns_handler ddl flt now db n req')) \<noteq> StatusAccepted"
  by (simp_all add: create_handler_def addColumns_handler_def split: sum.split prod.split option.split)

lemma Routes_not_accepted: "accepted e url re r s' (fst (Routes d e r' s))"
proof -
  have out: "accepted e url re r s' (fst (after_ddl d s out))" if "status (fst out) \<noteq> StatusAccepted" for out
    using that by (cases out) (simp add: after_ddl_def schema_reply_accepted)
  have miss: "accepted e url re r s' (fst (mux_miss st r' s))" if "st \<noteq> StatusAccepted" for st
    using that by (simp add: mux_miss_def accepted_def)
  consider "drop 3 (in_Path r') = []" | n where "drop 3 (in_Path r') = [n]"
    | n w where "drop 3 (in_Path r') = [n, w]" | n w x xs where "drop 3 (in_Path r') = n # w # x # xs"
    by (metis list.exhaust)
  then show ?thesis
    by cases (simp_all add: Routes_def schema_reply_accepted out miss writing_status)
qed

lemma Routes_ok:
  assumes "good P url s"
  shows "guarantees (good P url) (adds U) (Routes_thread d e r') (accepted e url re r) s"
proof (cases rule: Routes_cases [of r' d e])
  case create
  show ?thesis
    unfolding create(2) create_thread_def
    by (auto simp: schema_reply_accepted assms intro!: on_schemas_then [OF Create_thread_ok] ddl_ok
        split: sum.split option.split)
next
  case (columns n)
  show ?thesis
    unfolding columns(2) addColumns_thread_def
    by (auto simp: schema_reply_accepted assms intro!: on_schemas_then [OF AddColumns_thread_ok] ddl_ok
        split: sum.split option.split)
next
  case reads
  show ?thesis unfolding reads(1)
    by (rule one_action_ok) (rule reads(2), rule Routes_not_accepted)
qed

lemma mux_ok:
  assumes "DDL d = Some url" "InserterURL d = url" "confirming P url e" "good P url s"
    and U: "\<And>i. credentials (auth_env_of d e) r i \<Longrightarrow> Subject i \<in> U"
  shows "guarantees (good P url) (adds U) (mux_thread d e re r) (accepted e url re r) s"
proof (rule mux_thread_rule)
  fix rep assume "refusal rep"
  then show "guarantees (good P url) (adds U) (Done rep) (accepted e url re r) s"
    by (auto simp: refusal_def)
next
  fix i assume "credentials (auth_env_of d e) r i"
  then show "guarantees (good P url) (adds U) (query_thread e (r\<lparr>in_Identity := Some i\<rparr>)) (accepted e url re r) s"
    using U assms(4) by (intro query_ok) (auto simp: api_error_def query_reply_def split: sum.split)
next
  fix i show "guarantees (good P url) (adds U) (Routes_thread d e (r\<lparr>in_Identity := Some i\<rparr>)) (accepted e url re r) s"
    by (rule Routes_ok [OF assms(4)])
next
  fix i n assume "ingest_path (in_Path r) n"
  then have "guarantees (good P url) (adds U) (ingest_thread d e n re (r\<lparr>in_Identity := Some i\<rparr>))
      (accepted e url re (r\<lparr>in_Identity := Some i\<rparr>)) s"
    by (intro ingest_ok [OF assms(1-4)]) simp
  moreover have "accepted e url re (r\<lparr>in_Identity := Some i\<rparr>) = accepted e url re r"
    by (simp add: fun_eq_iff accepted_def)
  ultimately show "guarantees (good P url) (adds U) (ingest_thread d e n re (r\<lparr>in_Identity := Some i\<rparr>))
      (accepted e url re r) s" by simp
next
  assume u: "\<And>s. unguarded d e r s (mux d e re r s)"
  show "guarantees (good P url) (adds U) (one_action (mux d e re) r) (accepted e url re r) s"
    by (rule one_action_ok) (use unguarded_cases [OF u] in \<open>auto simp: accepted_def\<close>)
qed

lemma NewRouter_ok:
  assumes "DDL d = Some url" "InserterURL d = url" "confirming P url e" "good P url s"
    and U: "\<And>i. credentials (auth_env_of d e) r i \<Longrightarrow> Subject i \<in> U"
  shows "guarantees (good P url) (adds U) (NewRouter_thread d e re r) (accepted e url re r) s"
proof (cases rule: NewRouter_cases [of d e re r])
  case mux
  then show ?thesis using mux_ok [OF assms] by simp
next
  case limited
  have l: "good P url (s\<lparr>sv_limiter := l\<rparr>) \<and> adds U s (s\<lparr>sv_limiter := l\<rparr>)" if "good P url s" for s l
    using that by (simp add: good_def adds_def registry.R_refl adds_for_refl)
  show ?thesis unfolding limited
    by (rule srv.atom_then) (use l mux_ok [OF assms(1-3) _ U] in \<open>auto simp: api_error_def split: prod.splits\<close>)
qed

end
