(* ===== verification/LiveServer.thy ===== *)
theory LiveServer
  imports Bootstrap ServerThreads
begin

text \<open>
  The running server: requests, the pumps and pollers of the WebSocket connections, and the health
  poller, composed over the state they share. A request and a poll are threads of their own, whose
  actions interleave with those of all others; every other event is one step of one goroutine.
\<close>

section \<open>One request\<close>

record visit =
  vi_env :: env
  vi_read_err :: "goerr option"
  vi_upgraded :: bool
  vi_token :: string
  vi_request :: request_in

definition serve_visit :: "visit \<Rightarrow> 'v serving \<Rightarrow> served \<times> 'v serving" where
  "serve_visit v sg = snd (handle (vi_env v) (vi_read_err v) (vi_upgraded v) (vi_token v) (vi_request v) sg)"

text \<open>\<open>serve\<close> and \<open>handle\<close>, action by action: joining the hub is one, everything else is the router's.\<close>

definition on_server :: "(server, 'a) thread \<Rightarrow> ('v serving, 'a) thread" where
  "on_server = zoom sg_server (\<lambda>s sg. sg\<lparr>sg_server := s\<rparr>)"

definition serve_thread :: "deps \<Rightarrow> visit \<Rightarrow> ('v serving, served) thread" where
  "serve_thread d v =
     (if in_Path (vi_request v) = ws_path
      then atom (serve (vi_env v) (vi_read_err v) (vi_upgraded v) (vi_token v) (vi_request v))
      else and_then (on_server (NewRouter_thread d (vi_env v) (vi_read_err v) (vi_request v))) (\<lambda>rep. Done (Http rep)))"

definition visit_thread :: "'v serving \<Rightarrow> visit \<Rightarrow> ('v serving, served) thread" where
  "visit_thread sg v =
     (if DevCORS (sg_config sg) \<and> in_Method (vi_request v) = ''OPTIONS''
      then Done (Http (Reply StatusNoContent NoBody))
      else serve_thread (sg_deps sg) v)"

lemma on_server_alone:
  "run_alone (on_server t) sg = (case run_alone t (sg_server sg) of (a, s) \<Rightarrow> (a, sg\<lparr>sg_server := s\<rparr>))"
  unfolding on_server_def by (rule run_zoom) simp_all

lemma visit_sequential: "run_alone (visit_thread sg v) sg = serve_visit v sg"
  by (simp add: visit_thread_def serve_thread_def serve_visit_def handle_def NewServer_def corsMiddleware_def
      run_and_then on_server_alone requests_sequential serve_def split: prod.split)

section \<open>The connections\<close>

text \<open>The packages and codecs the hub works with.\<close>

record 'v ws_libs =
  wl_json :: "'v json_lib"
  wl_marshal :: "string \<Rightarrow> payload \<Rightarrow> string result"
  wl_decode :: "string \<Rightarrow> controlMessage result"
  wl_since :: "string \<Rightarrow> string \<Rightarrow> string option"

text \<open>A connection that has ended stays in \<open>lv_gone\<close>: a poll of it that is under way still runs its
  query. \<open>lv_seen\<close> is the variable \<open>lastSeen\<close> of each poller, by client and poller number.\<close>

record 'v live =
  lv_serving :: "'v serving"
  lv_gone :: "(nat \<times> client) list"
  lv_seen :: "nat \<times> nat \<Rightarrow> string"

definition started :: "'v serving \<Rightarrow> 'v live" where
  "started sg = \<lparr>lv_serving = sg, lv_gone = [], lv_seen = (\<lambda>_. [])\<rparr>"

definition update_client :: "nat \<Rightarrow> (client \<Rightarrow> client) \<Rightarrow> 'v hub \<Rightarrow> 'v hub" where
  "update_client i f h = h\<lparr>hub_clients := map (\<lambda>(j, c). (j, if j = i then f c else c)) (hub_clients h)\<rparr>"

definition set_hub :: "'v hub \<Rightarrow> 'v live \<Rightarrow> 'v live" where
  "set_hub h lv = lv\<lparr>lv_serving := (lv_serving lv)\<lparr>sg_hub := h\<rparr>\<rparr>"

text \<open>What is left to do of a poll when the query has been answered: keep the last value seen, and push
  the rows into the queue of the connection.\<close>

definition deliver :: "'v ws_libs \<Rightarrow> string \<Rightarrow> nat \<Rightarrow> nat \<Rightarrow> controlMessage \<Rightarrow> string
    \<Rightarrow> query_result result \<Rightarrow> 'v live \<Rightarrow> 'v live" where
  "deliver L at i p msg lastSeen res lv =
     (let h = sg_hub (lv_serving lv) in
      case poll (wl_since L) msg (\<lambda>_. map_sum id Rows res) lastSeen of
        (None, seen) \<Rightarrow> lv\<lparr>lv_seen := (lv_seen lv)((i, p) := seen)\<rparr>
      | (Some rows, seen) \<Rightarrow>
          (set_hub (update_client i (\<lambda>c. snd (send (wl_json L) (wl_marshal L) h c ''dashboard.data''
             (dashboardDataPayload (WidgetID msg) rows at))) h) lv)\<lparr>lv_seen := (lv_seen lv)((i, p) := seen)\<rparr>)"

type_synonym 'v task = "('v live, served option) thread"

definition on_live_broker :: "(broker, 'a) thread \<Rightarrow> ('v live, 'a) thread" where
  "on_live_broker t = zoom lv_serving (\<lambda>sg lv. lv\<lparr>lv_serving := sg\<rparr>) (on_server (on_broker t))"

text \<open>The closure \<open>poll\<close> of poller \<open>p\<close> of client \<open>i\<close>: the query through the broker, under the user of
  the connection, and then the push.\<close>

definition poll_thread :: "'v ws_libs \<Rightarrow> net \<Rightarrow> clock \<Rightarrow> string \<Rightarrow> nat \<Rightarrow> nat \<Rightarrow> client \<Rightarrow> 'v live \<Rightarrow> 'v task" where
  "poll_thread L w k at i p c lv =
     (let msg = po_msg (ss_pollers (cl_subs c) ! p); lastSeen = lv_seen lv (i, p) in
      and_then (on_live_broker (Execute_thread w k (cl_userID c) (poll_query msg lastSeen))) (\<lambda>res.
      atom (\<lambda>lv. (None, deliver L at i p msg lastSeen res lv))))"

definition request_thread :: "visit \<Rightarrow> 'v live \<Rightarrow> 'v task" where
  "request_thread v lv =
     and_then (zoom lv_serving (\<lambda>sg lv. lv\<lparr>lv_serving := sg\<rparr>) (visit_thread (lv_serving lv) v)) (\<lambda>r. Done (Some r))"

text \<open>The end of \<open>readPump\<close>: its deferred clean-up.\<close>

definition hang_up :: "nat \<Rightarrow> 'v live \<Rightarrow> 'v live" where
  "hang_up i lv =
     (let sg = lv_serving lv; h = sg_hub sg in
      case map_of (hub_clients h) i of
        None \<Rightarrow> lv
      | Some c \<Rightarrow> lv\<lparr>lv_serving := sg\<lparr>sg_hub := remove i h\<rparr>, lv_gone := (i, read_ends c) # lv_gone lv\<rparr>)"

section \<open>Steps of the server\<close>

text \<open>\<open>Visit\<close>: a request comes in and does its first action. \<open>PollTick\<close>: a poller of a client begins to
  poll, with the first action of its query; as a tick may be taken when the cancellation is there too,
  or have been taken before, this is possible of a cancelled poller as well; but not while it polls.
  \<open>Run\<close>: a request or a poll that is under way does its next action. \<open>ReadMsg\<close>: \<open>readPump\<close> gets a
  message (too long a one, or a connection closed from this side, ends it). \<open>ReadErr\<close>: reading fails.
  \<open>WriteMsg\<close>, \<open>PingTick\<close>: the two rounds of \<open>writePump\<close>, and whether the write succeeds.
  \<open>HealthTick\<close>: the health poller.\<close>

datatype live_event =
    Visit visit
  | PollTick nat nat net clock string
  | Run nat
  | ReadMsg nat time string
  | ReadErr nat
  | WriteMsg nat bool
  | PingTick nat bool
  | HealthTick net string

datatype owner = Request visit | Poller nat nat

type_synonym 'v machine = "'v live \<times> (owner \<times> 'v task) list"

text \<open>The steps that are not of a thread.\<close>

fun quiet_step :: "'v ws_libs \<Rightarrow> 'v live \<Rightarrow> live_event \<Rightarrow> 'v live" where
  "quiet_step L lv (ReadMsg i now data) =
     (case map_of (hub_clients (sg_hub (lv_serving lv))) i of
        None \<Rightarrow> lv
      | Some c \<Rightarrow>
          if cl_closed c \<or> length data > maxMessageSize then hang_up i lv
          else set_hub (update_client i (read_message (wl_decode L) now data) (sg_hub (lv_serving lv))) lv)"
| "quiet_step L lv (ReadErr i) = hang_up i lv"
| "quiet_step L lv (WriteMsg i ok) =
     set_hub (update_client i (\<lambda>c. snd (write_message ok c)) (sg_hub (lv_serving lv))) lv"
| "quiet_step L lv (PingTick i ok) = set_hub (update_client i (write_ping ok) (sg_hub (lv_serving lv))) lv"
| "quiet_step L lv (HealthTick w at) =
     set_hub (health_poll (wl_json L) (wl_marshal L) w (InserterURL (sg_deps (lv_serving lv))) at
       (sg_hub (lv_serving lv))) lv"
| "quiet_step L lv ev = lv"

definition spawn :: "owner \<Rightarrow> 'v task \<Rightarrow> 'v machine \<Rightarrow> 'v machine" where
  "spawn own t m = (case m of (lv, ts) \<Rightarrow> (case advance t lv of (lv', t') \<Rightarrow> (lv', ts @ [(own, t')])))"

definition polling :: "nat \<Rightarrow> nat \<Rightarrow> (owner \<times> 'v task) list \<Rightarrow> bool" where
  "polling i p ts \<longleftrightarrow> (\<exists>x\<in>set ts. fst x = Poller i p \<and> \<not> is_done (snd x))"

fun live_step :: "'v ws_libs \<Rightarrow> 'v machine \<Rightarrow> live_event \<Rightarrow> 'v machine" where
  "live_step L (lv, ts) (Visit v) = spawn (Request v) (request_thread v lv) (lv, ts)"
| "live_step L (lv, ts) (PollTick i p w k at) =
     (case map_of (hub_clients (sg_hub (lv_serving lv)) @ lv_gone lv) i of
        None \<Rightarrow> (lv, ts)
      | Some c \<Rightarrow>
          if p < length (ss_pollers (cl_subs c)) \<and> \<not> polling i p ts
          then spawn (Poller i p) (poll_thread L w k at i p c lv) (lv, ts)
          else (lv, ts))"
| "live_step L (lv, ts) (Run i) =
     (if i < length ts
      then (case advance (snd (ts ! i)) lv of (lv', t) \<Rightarrow> (lv', ts[i := (fst (ts ! i), t)]))
      else (lv, ts))"
| "live_step L (lv, ts) ev = (quiet_step L lv ev, ts)"

definition live_run :: "'v ws_libs \<Rightarrow> 'v machine \<Rightarrow> live_event list \<Rightarrow> 'v machine" where
  "live_run L = foldl (live_step L)"

definition running :: "'v serving \<Rightarrow> 'v machine" where
  "running sg = (started sg, [])"

lemma live_run_Nil [simp]: "live_run L m [] = m"
  and live_run_Cons [simp]: "live_run L m (ev # evs) = live_run L (live_step L m ev) evs"
  by (simp_all add: live_run_def)

abbreviation server_of :: "'v live \<Rightarrow> server" where
  "server_of lv \<equiv> sg_server (lv_serving lv)"

abbreviation clients_of :: "'v live \<Rightarrow> (nat \<times> client) list" where
  "clients_of lv \<equiv> hub_clients (sg_hub (lv_serving lv))"

abbreviation journal_of :: "'v live \<Rightarrow> audit_entry list" where
  "journal_of lv \<equiv> al_entries (b_audit (sv_broker (server_of lv)))"

section \<open>What every step keeps\<close>

definition tasks_ok :: "('v live \<Rightarrow> bool) \<Rightarrow> ('v live \<Rightarrow> 'v live \<Rightarrow> bool) \<Rightarrow> (owner \<Rightarrow> 'v live \<Rightarrow> served option \<Rightarrow> bool)
    \<Rightarrow> 'v machine \<Rightarrow> bool" where
  "tasks_ok I R Q m \<longleftrightarrow> (\<forall>x\<in>set (snd m). guarantees I R (snd x) (Q (fst x)) (fst m))"

text \<open>The contract of a run: every step that is not of a thread keeps \<open>I\<close> and moves along \<open>R\<close>, and every
  thread that is begun guarantees the same of its actions, and \<open>Q\<close> of its result.\<close>

locale live_contract = evolution I R
  for I :: "'v live \<Rightarrow> bool" and R :: "'v live \<Rightarrow> 'v live \<Rightarrow> bool" +
  fixes L :: "'v ws_libs" and E :: "live_event set" and Q :: "owner \<Rightarrow> 'v live \<Rightarrow> served option \<Rightarrow> bool"
  assumes quiet_ok: "ev \<in> E \<Longrightarrow> I lv \<Longrightarrow> I (quiet_step L lv ev) \<and> R lv (quiet_step L lv ev)"
    and visit_ok: "Visit v \<in> E \<Longrightarrow> I lv \<Longrightarrow> guarantees I R (request_thread v lv) (Q (Request v)) lv"
    and poll_ok: "PollTick i p w k at \<in> E \<Longrightarrow> I lv \<Longrightarrow> map_of (clients_of lv @ lv_gone lv) i = Some c
      \<Longrightarrow> p < length (ss_pollers (cl_subs c)) \<Longrightarrow> guarantees I R (poll_thread L w k at i p c lv) (Q (Poller i p)) lv"
begin

lemma moved: "tasks_ok I R Q (lv, ts) \<Longrightarrow> R lv lv' \<Longrightarrow> tasks_ok I R Q (lv', ts)"
  using later by (fastforce simp: tasks_ok_def)

lemma spawn_ok:
  assumes "I lv" "tasks_ok I R Q (lv, ts)" "guarantees I R t (Q own) lv"
  shows "I (fst (spawn own t (lv, ts))) \<and> R lv (fst (spawn own t (lv, ts))) \<and> tasks_ok I R Q (spawn own t (lv, ts))"
proof -
  obtain lv' t' where a: "advance t lv = (lv', t')" by (cases "advance t lv")
  have ok: "I lv' \<and> R lv lv' \<and> guarantees I R t' (Q own) lv'" by (rule advance_ok [OF assms(1,3) a])
  then have "tasks_ok I R Q (lv', ts)" using moved [OF assms(2)] by blast
  then show ?thesis using ok a by (auto simp: spawn_def tasks_ok_def)
qed

lemma run_task_ok:
  assumes "I lv" "tasks_ok I R Q (lv, ts)" "i < length ts" "advance (snd (ts ! i)) lv = (lv', t)"
  shows "I lv' \<and> R lv lv' \<and> tasks_ok I R Q (lv', ts[i := (fst (ts ! i), t)])"
proof -
  have "guarantees I R (snd (ts ! i)) (Q (fst (ts ! i))) lv"
    using assms(2,3) by (auto simp: tasks_ok_def)
  from advance_ok [OF assms(1) this assms(4)]
  have ok: "I lv' \<and> R lv lv' \<and> guarantees I R t (Q (fst (ts ! i))) lv'" .
  then have "tasks_ok I R Q (lv', ts)" using moved [OF assms(2)] by blast
  then show ?thesis using ok set_update_subset_insert [of ts i "(fst (ts ! i), t)"]
    by (auto simp: tasks_ok_def)
qed

lemma step_ok:
  assumes "ev \<in> E" "I (fst m)" "tasks_ok I R Q m"
  shows "I (fst (live_step L m ev)) \<and> R (fst m) (fst (live_step L m ev)) \<and> tasks_ok I R Q (live_step L m ev)"
proof -
  obtain lv ts where m: "m = (lv, ts)" by (cases m)
  have here: "I lv" "tasks_ok I R Q (lv, ts)" using assms m by simp_all
  have stay: ?thesis if "live_step L m ev = (lv, ts)" using that here R_refl by (simp add: m)
  have quiet: ?thesis if "live_step L m ev = (quiet_step L lv ev, ts)"
    using that quiet_ok [OF assms(1) here(1)] moved [OF here(2)] by (simp add: m)
  show ?thesis
  proof (cases ev)
    case (Visit v)
    then show ?thesis using spawn_ok [OF here visit_ok] assms(1) here(1) by (simp add: m)
  next
    case (PollTick i p w k at)
    show ?thesis
    proof (cases "map_of (clients_of lv @ lv_gone lv) i")
      case (Some c)
      then show ?thesis
        using spawn_ok [OF here poll_ok] assms(1) here(1) stay PollTick
        by (cases "p < length (ss_pollers (cl_subs c)) \<and> \<not> polling i p ts") (simp_all add: m)
    qed (use stay PollTick in \<open>simp add: m map_add_def\<close>)
  next
    case (Run i)
    then show ?thesis
      using run_task_ok [OF here, of i] stay by (cases "i < length ts") (auto simp: m split: prod.split)
  qed (use quiet in \<open>simp_all add: m\<close>)
qed

lemma run_ok:
  assumes "set evs \<subseteq> E" "I (fst m)" "tasks_ok I R Q m"
  shows "I (fst (live_run L m evs)) \<and> R (fst m) (fst (live_run L m evs)) \<and> tasks_ok I R Q (live_run L m evs)"
  using assms
proof (induction evs arbitrary: m)
  case (Cons ev evs)
  have st: "I (fst (live_step L m ev)) \<and> R (fst m) (fst (live_step L m ev)) \<and> tasks_ok I R Q (live_step L m ev)"
    using step_ok [of ev m] Cons.prems by simp
  moreover have "set evs \<subseteq> E" using Cons.prems(1) by simp
  ultimately show ?case
    using Cons.IH [of "live_step L m ev"] R_trans [of "fst m" "fst (live_step L m ev)"] by simp
qed (simp add: R_refl)

lemma from_start:
  assumes "set evs \<subseteq> E" "I (started sg)" "live_run L (running sg) evs = (lv, ts)"
  shows "I lv \<and> R (started sg) lv \<and> (\<forall>own res. (own, Done res) \<in> set ts \<longrightarrow> Q own lv res)"
proof -
  have "I lv \<and> R (started sg) lv \<and> tasks_ok I R Q (lv, ts)"
    using run_ok [OF assms(1), of "running sg"] assms(2,3) by (simp add: running_def tasks_ok_def)
  then show ?thesis using R_refl by (fastforce simp: tasks_ok_def)
qed

end

section \<open>Parts of the state\<close>

lemma set_hub_simps [simp]:
  "server_of (set_hub h lv) = server_of lv" "sg_hub (lv_serving (set_hub h lv)) = h"
  "lv_gone (set_hub h lv) = lv_gone lv" "sg_deps (lv_serving (set_hub h lv)) = sg_deps (lv_serving lv)"
  "sg_next (lv_serving (set_hub h lv)) = sg_next (lv_serving lv)"
  "sg_config (lv_serving (set_hub h lv)) = sg_config (lv_serving lv)"
  by (simp_all add: set_hub_def)

lemma hang_up_simps [simp]:
  "server_of (hang_up i lv) = server_of lv" "sg_deps (lv_serving (hang_up i lv)) = sg_deps (lv_serving lv)"
  "sg_next (lv_serving (hang_up i lv)) = sg_next (lv_serving lv)"
  "sg_config (lv_serving (hang_up i lv)) = sg_config (lv_serving lv)"
  by (simp_all add: hang_up_def Let_def split: option.split)

lemma quiet_simps [simp]:
  "server_of (quiet_step L lv ev) = server_of lv" "sg_deps (lv_serving (quiet_step L lv ev)) = sg_deps (lv_serving lv)"
  "sg_next (lv_serving (quiet_step L lv ev)) = sg_next (lv_serving lv)"
  "sg_config (lv_serving (quiet_step L lv ev)) = sg_config (lv_serving lv)"
  by (cases ev; simp split: option.split)+

lemma deliver_simps [simp]:
  "server_of (deliver L at i p msg seen res lv) = server_of lv"
  "sg_deps (lv_serving (deliver L at i p msg seen res lv)) = sg_deps (lv_serving lv)"
  "sg_next (lv_serving (deliver L at i p msg seen res lv)) = sg_next (lv_serving lv)"
  "sg_config (lv_serving (deliver L at i p msg seen res lv)) = sg_config (lv_serving lv)"
  "lv_gone (deliver L at i p msg seen res lv) = lv_gone lv"
  by (simp_all add: deliver_def Let_def split: prod.split option.split)

text \<open>A push leaves a client as it is, or puts a message into its queue.\<close>

lemma send_cases: "snd (send J marshal h c event payload) = c \<or> (\<exists>data. snd (send J marshal h c event payload) = queue data c)"
  by (auto simp: send_def split: sum.split)

lemma deliver_clients:
  obtains f where "\<And>c. f c = c \<or> (\<exists>data. f c = queue data c)"
    and "sg_hub (lv_serving (deliver L at i p msg seen res lv)) = update_client i f (sg_hub (lv_serving lv))"
proof (cases "poll (wl_since L) msg (\<lambda>_. map_sum id Rows res) seen")
  case (Pair pushed seen')
  show thesis
  proof (cases pushed)
    case None
    have "update_client i (\<lambda>c. c) h = h" for h :: "'a hub"
      by (simp add: update_client_def)
    then show thesis using that [of "\<lambda>c. c"] Pair None by (simp add: deliver_def Let_def)
  next
    case (Some rows)
    show thesis
      by (rule that [of "\<lambda>c. snd (send (wl_json L) (wl_marshal L) (sg_hub (lv_serving lv)) c ''dashboard.data''
             (dashboardDataPayload (WidgetID msg) rows at))"])
        (rule send_cases, simp add: deliver_def Let_def Pair Some)
  qed
qed

section \<open>A request of its own\<close>

lemma run_to_end:
  "\<exists>n. live_run L (lv, ts @ [(own, t)]) (replicate n (Run (length ts)))
     = (snd (run_alone t lv), ts @ [(own, Done (fst (run_alone t lv)))])"
proof (induction t arbitrary: lv rule: thread_induct)
  case (Done a)
  show ?case by (rule exI [of _ 0]) simp
next
  case (Act g)
  from Act [of "fst (g lv)" lv] obtain n where
    n: "live_run L (fst (g lv), ts @ [(own, snd (g lv))]) (replicate n (Run (length ts)))
      = (snd (run_alone (snd (g lv)) (fst (g lv))), ts @ [(own, Done (fst (run_alone (snd (g lv)) (fst (g lv)))))])" ..
  have "live_step L (lv, ts @ [(own, Act g)]) (Run (length ts)) = (fst (g lv), ts @ [(own, snd (g lv))])"
    by (simp add: nth_append split: prod.split)
  then show ?case using n by (intro exI [of _ "Suc n"]) (simp add: run_Act)
qed

lemma run_on_serving:
  "run_alone (zoom lv_serving (\<lambda>sg lv. lv\<lparr>lv_serving := sg\<rparr>) t) lv
   = (case run_alone t (lv_serving lv) of (r, sg) \<Rightarrow> (r, lv\<lparr>lv_serving := sg\<rparr>))"
  by (rule run_zoom) simp_all

lemma request_alone:
  "run_alone (request_thread v lv) lv
   = (case serve_visit v (lv_serving lv) of (r, sg) \<Rightarrow> (Some r, lv\<lparr>lv_serving := sg\<rparr>))"
  by (simp add: request_thread_def run_and_then run_on_serving visit_sequential split: prod.split)

lemma visit_to_end:
  "\<exists>n. live_run L (lv, ts) (Visit v # replicate n (Run (length ts)))
     = (lv\<lparr>lv_serving := snd (serve_visit v (lv_serving lv))\<rparr>,
        ts @ [(Request v, Done (Some (fst (serve_visit v (lv_serving lv)))))])"
proof -
  obtain lv' t where a: "advance (request_thread v lv) lv = (lv', t)" by (cases "advance (request_thread v lv) lv")
  have r: "run_alone t lv' = run_alone (request_thread v lv) lv"
    using a by (cases "request_thread v lv") (auto simp: run_Act)
  obtain n where "live_run L (lv', ts @ [(Request v, t)]) (replicate n (Run (length ts)))
      = (snd (run_alone t lv'), ts @ [(Request v, Done (fst (run_alone t lv')))])"
    using run_to_end by blast
  then show ?thesis
    using a by (intro exI [of _ n]) (simp add: spawn_def r request_alone split: prod.split)
qed


section \<open>Requests end\<close>

lemma serve_within: "within 8 (serve_thread d v)"
  unfolding serve_thread_def on_server_def
  by (cases "in_Path (vi_request v) = ws_path") (simp_all add: within_then [OF within_zoom [OF router_within]])

lemma request_within: "within 8 (request_thread v lv)"
  unfolding request_thread_def visit_thread_def
  by (rule within_then [OF within_zoom [of 8]]) (simp_all add: serve_within)

text \<open>The thread of task \<open>i\<close> has at most \<open>n\<close> actions left.\<close>

definition left_to_do :: "nat \<Rightarrow> nat \<Rightarrow> owner \<Rightarrow> 'v machine \<Rightarrow> bool" where
  "left_to_do n i own m \<longleftrightarrow> i < length (snd m) \<and> fst (snd m ! i) = own \<and> within n (snd (snd m ! i))"

lemma spawn_left: "left_to_do n i own m \<Longrightarrow> left_to_do n i own (spawn own' t m)"
  by (auto simp: left_to_do_def spawn_def nth_append split: prod.split)

lemma step_left:
  assumes "left_to_do n i own m"
  shows "left_to_do (if ev = Run i then n - 1 else n) i own (live_step L m ev)"
proof -
  obtain lv ts where m: "m = (lv, ts)" by (cases m)
  show ?thesis
  proof (cases ev)
    case (Run j)
    then show ?thesis
      using assms within_advance [of n "snd (ts ! i)" lv]
      by (cases "j = i") (auto simp: m left_to_do_def split: prod.split)
  qed (use assms spawn_left [OF assms] in \<open>auto simp: m left_to_do_def split: option.split\<close>)
qed

lemma run_left:
  "left_to_do n i own m \<Longrightarrow> left_to_do (n - count_list evs (Run i)) i own (live_run L m evs)"
proof (induction evs arbitrary: m n)
  case (Cons ev evs)
  show ?case
    using Cons.IH [OF step_left [OF Cons.prems, of ev L]] by (auto split: if_splits)
qed simp


section \<open>Samples\<close>

text \<open>A server whose JWT library accepts the sample session.\<close>

lemma sample_started:
  obtains sg where "serveAPI sample_process_env (sample_resources\<lparr>rs_jwt := sample_jwt_lib\<rparr>) = Continues sg"
    and "Jwt_lib (sg_deps sg) = sample_jwt_lib" and "JWTManager (sg_deps sg) = \<lparr>secret = ''key'', ttl = Hour\<rparr>"
    and "RateLimitPerMinute (sg_deps sg) = 600" and "sv_limiter (sg_server sg) = newSlidingWindow 600"
    and "sv_schemas (sg_server sg) = empty_db" and "sv_sent (sg_server sg) = []"
    and "DDL (sg_deps sg) = Some (clickhouse_url sample_process_env)" and "sv_ensured (sg_server sg) = {}"
    and "InserterURL (sg_deps sg) = clickhouse_url sample_process_env"
    and "hub_clients (sg_hub sg) = []" and "sg_next sg = 0" and "al_writable (b_audit (sv_broker (sg_server sg)))"
    and "\<not> DevCORS (sg_config sg)"
  by (simp add: serveAPI_def loadSettingsOrExit_def Load_def sample_process_env_def sample_resources_def
      good_disk_def NewBroker_def OpenAuditLog_def bootstrapAdminUser_def VerifyPassword_def
      auth_no_faults_def tbl_select_def CreateUser_def Valid_iff_All All_def sample_crypto_def
      insert_user_def tbl_insert_def jwtSecretFromEnv_def Let_def NewJWTManager_def empty_db_def New_def)

definition sample_libs :: "unit ws_libs" where
  "sample_libs = \<lparr>wl_json = \<lparr>Marshal_payload = (\<lambda>_. Inl (Plain [])), Marshal_envelope = (\<lambda>_ _. Inl (Plain [])),
     Unmarshal = (\<lambda>_. Inl (Plain []))\<rparr>, wl_marshal = (\<lambda>_ _. Inr ''{}''), wl_decode = (\<lambda>_. Inl (Plain [])),
     wl_since = (\<lambda>_ _. None)\<rparr>"

definition sample_socket :: visit where
  "sample_socket = \<lparr>vi_env = sample_env 5, vi_read_err = None, vi_upgraded = True, vi_token = ''tok'',
     vi_request = sample_in ''GET'' ws_path []\<rparr>"

definition sample_query :: visit where
  "sample_query = \<lparr>vi_env = sample_env 5, vi_read_err = None, vi_upgraded = False, vi_token = [],
     vi_request = sample_in ''POST'' [''api'', ''v1'', ''query''] ''SELECT 1''\<rparr>"

lemma sample_alone:
  obtains n where "live_run L (running sg) (Visit v # replicate n (Run 0))
      = ((started sg)\<lparr>lv_serving := snd (serve_visit v sg)\<rparr>, [(Request v, Done (Some (fst (serve_visit v sg))))])"
  using visit_to_end [of L "started sg" "[]" v] by (auto simp: running_def started_def)

lemma sample_verified: "Verify sample_jwt_lib 5 \<lparr>secret = ''key'', ttl = Hour\<rparr> ''tok'' = Inr sample_claims"
  by (simp add: Verify_def sample_jwt_lib_def)


end
