(* ===== verification/LiveParts.thy ===== *)
theory LiveParts
  imports LiveServer
begin

text \<open>
  The contract of a run, put together from its parts: what every operation keeps of a connection, how
  connections are numbered, and what the requests guarantee of the shared state. It is discharged once
  for everything the later theories state of runs.
\<close>

section \<open>What holds of every client\<close>

text \<open>\<open>Q\<close> holds of every connected client and \<open>G\<close> of every one that has gone.\<close>

definition everywhere :: "(client \<Rightarrow> bool) \<Rightarrow> (client \<Rightarrow> bool) \<Rightarrow> 'v live \<Rightarrow> bool" where
  "everywhere Q G lv \<longleftrightarrow> (\<forall>x\<in>set (clients_of lv). Q (snd x)) \<and> (\<forall>x\<in>set (lv_gone lv). G (snd x))"

lemma update_client_absent:
  "map_of (hub_clients h) i = None \<Longrightarrow> hub_clients (update_client i f h) = hub_clients h"
  by (force simp: update_client_def map_of_eq_None_iff intro!: map_idI)

text \<open>A property every operation on a client keeps, and one its end establishes.\<close>

locale client_invariant =
  fixes Q :: "client \<Rightarrow> bool" and G :: "client \<Rightarrow> bool"
  assumes queue_keeps: "Q c \<Longrightarrow> Q (queue data c)"
    and read_keeps: "Q c \<Longrightarrow> Q (read_message decode now data c)"
    and write_keeps: "Q c \<Longrightarrow> Q (snd (write_message ok c))"
    and ping_keeps: "Q c \<Longrightarrow> Q (write_ping ok c)"
    and end_gives: "Q c \<Longrightarrow> G (read_ends c)"
begin

lemma update_keeps:
  "everywhere Q G lv \<Longrightarrow> (\<And>c. Q c \<Longrightarrow> Q (f c)) \<Longrightarrow>
   everywhere Q G (set_hub (update_client i f (sg_hub (lv_serving lv))) lv)"
  by (auto simp: everywhere_def update_client_def)

lemma hang_up_keeps:
  assumes "everywhere Q G lv"
  shows "everywhere Q G (hang_up i lv)"
proof (cases "map_of (clients_of lv) i")
  case (Some c)
  then have "Q c" using assms map_of_SomeD unfolding everywhere_def by fastforce
  then show ?thesis using assms Some by (auto simp: everywhere_def hang_up_def Let_def remove_def end_gives)
qed (use assms in \<open>simp add: hang_up_def\<close>)

lemma deliver_keeps:
  assumes "everywhere Q G lv"
  shows "everywhere Q G (deliver L at i p msg seen res lv)"
proof -
  obtain f where f: "\<And>c. f c = c \<or> (\<exists>data. f c = queue data c)"
    and h: "sg_hub (lv_serving (deliver L at i p msg seen res lv)) = update_client i f (sg_hub (lv_serving lv))"
    using deliver_clients by metis
  have "Q (f c)" if "Q c" for c using f [of c] queue_keeps that by auto
  then show ?thesis using update_keeps [OF assms, of f i] h by (simp add: everywhere_def)
qed

lemma quiet_keeps:
  assumes I: "everywhere Q G lv"
  shows "everywhere Q G (quiet_step L lv ev)"
proof (cases ev)
  case (ReadMsg i now data)
  then show ?thesis
    using I hang_up_keeps [OF I, of i] update_keeps [OF I, of "read_message (wl_decode L) now data" i] read_keeps
    by (auto split: option.split)
next
  case (ReadErr i)
  then show ?thesis using I hang_up_keeps by simp
next
  case (WriteMsg i ok)
  then show ?thesis using update_keeps [OF I write_keeps] by simp
next
  case (PingTick i ok)
  then show ?thesis using update_keeps [OF I ping_keeps] by simp
next
  case (HealthTick w at)
  then show ?thesis using I
    by (auto simp: everywhere_def health_poll_def BroadcastSystemHealth_def Broadcast_def queue_keeps
        split: prod.split sum.split)
qed (use I in simp_all)

text \<open>Joining the hub.\<close>

lemma join_keeps:
  assumes "everywhere Q G lv"
    and "\<And>cl. Verify (Jwt_lib d) (e_now e) (JWTManager d) tok = Inr cl \<Longrightarrow> Q (newClient (e_now e) (cl_Username cl))"
    and "ServeWS (Jwt_lib d) (JWTManager d) (e_now e) i up tok (sg_hub (lv_serving lv)) = (st, h)"
  shows "everywhere Q G (lv\<lparr>lv_serving := (lv_serving lv)\<lparr>sg_hub := h, sg_next := n\<rparr>\<rparr>)"
  using assms by (auto simp: everywhere_def ServeWS_def add_def split: sum.splits if_splits)

end

lemma userID_kept [simp]:
  "cl_userID (queue data c) = cl_userID c" "cl_userID (read_message decode now data c) = cl_userID c"
  "cl_userID (snd (write_message ok c)) = cl_userID c" "cl_userID (write_ping ok c) = cl_userID c"
  "cl_userID (read_ends c) = cl_userID c"
  by (simp_all add: queue_def read_message_def handleControlMessage_def write_message_def write_ping_def
      read_ends_def split: prod.split bool.split sum.split list.split)

text \<open>The sound state of a connection: no widget with two live pollers, no short interval, a bounded
  queue.\<close>

definition client_ok :: "client \<Rightarrow> bool" where
  "client_ok c \<longleftrightarrow> subs_ok (cl_subs c) \<and> intervals_ok (cl_subs c) \<and> length (cl_out c) \<le> sendQueueSize"

lemma read_message_out [simp]: "cl_out (read_message decode now data c) = cl_out c"
  by (simp add: read_message_def handleControlMessage_def split: prod.split bool.split sum.split)

lemma client_kept [simp]:
  "cl_subs (queue data c) = cl_subs c" "cl_subs (snd (write_message ok c)) = cl_subs c"
  "cl_subs (write_ping ok c) = cl_subs c" "cl_out (write_ping ok c) = cl_out c"
  by (simp_all add: queue_def write_message_def write_ping_def split: list.split)

lemma client_ok_new: "client_ok (newClient now u)"
  using subs_ok_new by (simp add: client_ok_def newClient_def intervals_ok_def newSubscriptionSet_def)

lemma client_ok_queue: "client_ok c \<Longrightarrow> client_ok (queue data c)"
  by (simp add: client_ok_def queue_room)

lemma client_ok_read: "client_ok c \<Longrightarrow> client_ok (read_message decode now data c)"
  using read_message_ok [of c decode now data] by (simp add: client_ok_def)

lemma client_ok_write: "client_ok c \<Longrightarrow> client_ok (snd (write_message ok c))"
  by (auto simp: client_ok_def write_message_def split: list.split)

text \<open>A connection that has ended has no live poller.\<close>

definition client_done :: "client \<Rightarrow> bool" where
  "client_done c \<longleftrightarrow> cl_closed c \<and> {i. live (cl_subs c) i} = {}"

section \<open>How connections are numbered\<close>

text \<open>The numbers given out so far are below the counter, and no connection has the number of another.\<close>

definition numbered :: "'v live \<Rightarrow> bool" where
  "numbered lv \<longleftrightarrow> distinct (map fst (clients_of lv @ lv_gone lv))
     \<and> (\<forall>i\<in>set (map fst (clients_of lv @ lv_gone lv)). i < sg_next (lv_serving lv))"

lemma numbered_same:
  assumes "numbered lv" and "map fst (clients_of lv') = map fst (clients_of lv)" "lv_gone lv' = lv_gone lv"
    and "sg_next (lv_serving lv') = sg_next (lv_serving lv)"
  shows "numbered lv'"
  using assms(1) unfolding numbered_def map_append assms(2-4) .

lemma map_fst_filter: "map fst (filter (\<lambda>x. fst x \<noteq> i) xs) = filter (\<lambda>j. j \<noteq> i) (map fst xs)"
  by (induction xs) auto

lemma update_client_numbers [simp]: "map fst (hub_clients (update_client i f h)) = map fst (hub_clients h)"
  by (auto simp: update_client_def)

lemma Broadcast_numbers [simp]: "map fst (hub_clients (snd (Broadcast J marshal h event p))) = map fst (hub_clients h)"
  by (auto simp: Broadcast_def split: sum.split)

lemma numbers_move:
  "distinct (ns @ gs) \<Longrightarrow> i \<in> set ns \<Longrightarrow>
   distinct (filter (\<lambda>j. j \<noteq> i) ns @ i # gs) \<and> set (filter (\<lambda>j. j \<noteq> i) ns @ i # gs) = set (ns @ gs)"
  by auto

lemma numbers_new:
  fixes m :: nat
  assumes "distinct (ns @ gs)" "\<forall>i\<in>set (ns @ gs). i < m"
  shows "distinct ((m # filter (\<lambda>j. j \<noteq> m) ns) @ gs) \<and> (\<forall>i\<in>set ((m # filter (\<lambda>j. j \<noteq> m) ns) @ gs). i < Suc m)"
    and "\<forall>i\<in>set (ns @ gs). i < Suc m"
  using assms by (auto intro: less_SucI)

lemma hang_up_numbered:
  assumes "numbered lv"
  shows "numbered (hang_up i lv)"
proof (cases "map_of (clients_of lv) i")
  case (Some c)
  let ?n = "map fst (clients_of lv)" and ?g = "map fst (lv_gone lv)"
  have "i \<in> set ?n" using map_of_SomeD [OF Some] by force
  moreover have "map fst (clients_of (hang_up i lv)) = filter (\<lambda>j. j \<noteq> i) ?n"
    "map fst (lv_gone (hang_up i lv)) = i # ?g"
    using Some by (simp_all add: hang_up_def Let_def remove_def map_fst_filter)
  ultimately show ?thesis
    using assms numbers_move [of ?n ?g i] unfolding numbered_def map_append hang_up_simps by metis
qed (use assms in \<open>simp add: hang_up_def\<close>)

lemma quiet_numbered:
  assumes "numbered lv"
  shows "numbered (quiet_step L lv ev)"
proof (cases ev)
  case (ReadMsg i now data)
  then show ?thesis using assms hang_up_numbered [OF assms]
    by (auto intro: numbered_same split: option.split)
qed (use assms hang_up_numbered in \<open>auto intro: numbered_same simp: health_poll_def BroadcastSystemHealth_def
    split: prod.split\<close>)

lemma deliver_numbered:
  assumes "numbered lv"
  shows "numbered (deliver L at i p msg seen res lv)"
proof -
  obtain f where "sg_hub (lv_serving (deliver L at i p msg seen res lv)) = update_client i f (sg_hub (lv_serving lv))"
    using deliver_clients by metis
  then show ?thesis by (intro numbered_same [OF assms]) simp_all
qed

lemma join_numbered:
  assumes "numbered lv" and "ServeWS J m now (sg_next (lv_serving lv)) up tok (sg_hub (lv_serving lv)) = (st, h)"
  shows "numbered (lv\<lparr>lv_serving := (lv_serving lv)\<lparr>sg_hub := h, sg_next := Suc (sg_next (lv_serving lv))\<rparr>\<rparr>)"
proof -
  let ?n = "map fst (clients_of lv)" and ?g = "map fst (lv_gone lv)" and ?m = "sg_next (lv_serving lv)"
  let ?lv = "lv\<lparr>lv_serving := (lv_serving lv)\<lparr>sg_hub := h, sg_next := Suc ?m\<rparr>\<rparr>"
  have s: "sg_next (lv_serving ?lv) = Suc ?m" "lv_gone ?lv = lv_gone lv" by simp_all
  have "map fst (clients_of ?lv) = ?n \<or> map fst (clients_of ?lv) = ?m # filter (\<lambda>j. j \<noteq> ?m) ?n"
    using assms(2) by (auto simp: ServeWS_def add_def map_fst_filter split: sum.splits if_splits)
  then show ?thesis using assms(1) numbers_new [of ?n ?g ?m] unfolding numbered_def map_append s by metis
qed

section \<open>The contract\<close>

definition live_inv :: "(server \<Rightarrow> bool) \<Rightarrow> (client \<Rightarrow> bool) \<Rightarrow> (client \<Rightarrow> bool) \<Rightarrow> deps \<Rightarrow> bool \<Rightarrow> 'v live \<Rightarrow> bool" where
  "live_inv J Q G d cors lv \<longleftrightarrow> sg_deps (lv_serving lv) = d \<and> DevCORS (sg_config (lv_serving lv)) = cors
     \<and> J (server_of lv) \<and> everywhere Q G lv \<and> numbered lv"

definition live_rel :: "(server \<Rightarrow> server \<Rightarrow> bool) \<Rightarrow> 'v live \<Rightarrow> 'v live \<Rightarrow> bool" where
  "live_rel S lv lv' \<longleftrightarrow> S (server_of lv) (server_of lv')"

text \<open>A reply of a request: of the router, satisfying \<open>A\<close>, the empty one to \<open>OPTIONS\<close>, or that of the hub.\<close>

fun replied :: "(visit \<Rightarrow> server \<Rightarrow> api_body reply \<Rightarrow> bool) \<Rightarrow> bool \<Rightarrow> visit \<Rightarrow> server \<Rightarrow> served \<Rightarrow> bool" where
  "replied A cors v s (Http rep) \<longleftrightarrow>
     A v s rep \<or> (cors \<and> in_Method (vi_request v) = ''OPTIONS'' \<and> rep = Reply StatusNoContent NoBody)"
| "replied A cors v s (Socket st) \<longleftrightarrow> in_Path (vi_request v) = ws_path \<and> (st = None \<or> st = Some StatusUnauthorized)"

definition outcome :: "(visit \<Rightarrow> server \<Rightarrow> api_body reply \<Rightarrow> bool) \<Rightarrow> bool \<Rightarrow> owner \<Rightarrow> 'v live \<Rightarrow> served option \<Rightarrow> bool" where
  "outcome A cors own lv res \<longleftrightarrow>
     (\<forall>v. own = Request v \<longrightarrow> (\<exists>r. res = Some r \<and> replied A cors v (server_of lv) r))"

locale live_parts = client_invariant Q G + state: evolution J S
  for Q :: "client \<Rightarrow> bool" and G :: "client \<Rightarrow> bool" and J :: "server \<Rightarrow> bool" and S :: "server \<Rightarrow> server \<Rightarrow> bool" +
  fixes E :: "live_event set" and d :: deps and cors :: bool and A :: "visit \<Rightarrow> server \<Rightarrow> api_body reply \<Rightarrow> bool"
  assumes router_ok: "Visit v \<in> E \<Longrightarrow> J s
      \<Longrightarrow> guarantees J S (NewRouter_thread d (vi_env v) (vi_read_err v) (vi_request v)) (A v) s"
    and client_ok: "Visit v \<in> E \<Longrightarrow> in_Path (vi_request v) = ws_path
      \<Longrightarrow> Verify (Jwt_lib d) (e_now (vi_env v)) (JWTManager d) (vi_token v) = Inr cl
      \<Longrightarrow> Q (newClient (e_now (vi_env v)) (cl_Username cl))"
    and query_ok: "Q c \<or> G c \<Longrightarrow> J s
      \<Longrightarrow> guarantees J S (on_broker (Execute_thread w k (cl_userID c) q)) (\<lambda>_ _. True) s"
begin

lemma on_live_ok:
  assumes "guarantees J S t Q' (server_of lv)"
  shows "guarantees (live_inv J Q G d cors) (live_rel S) (zoom server_of (\<lambda>s lv. lv\<lparr>lv_serving := (lv_serving lv)\<lparr>sg_server := s\<rparr>\<rparr>) t)
    (\<lambda>lv. Q' (server_of lv)) lv"
proof (rule guarantees_zoom [where get = server_of and s = lv, OF _ _ _ _ assms])
  fix lv s
  assume I: "live_inv J Q G d cors lv" and s: "J s" "S (server_of lv) s"
  let ?lv = "lv\<lparr>lv_serving := (lv_serving lv)\<lparr>sg_server := s\<rparr>\<rparr>"
  have "numbered ?lv" by (rule numbered_same) (use I in \<open>auto simp: live_inv_def\<close>)
  then show "live_inv J Q G d cors ?lv \<and> live_rel S lv ?lv"
    using I s by (simp add: live_inv_def live_rel_def everywhere_def)
qed (simp_all add: live_inv_def live_rel_def)

lemma same_server_ok:
  "live_inv J Q G d cors lv \<Longrightarrow> server_of lv' = server_of lv \<Longrightarrow> sg_deps (lv_serving lv') = sg_deps (lv_serving lv)
   \<Longrightarrow> sg_config (lv_serving lv') = sg_config (lv_serving lv)
   \<Longrightarrow> everywhere Q G lv' \<Longrightarrow> numbered lv' \<Longrightarrow> live_inv J Q G d cors lv' \<and> live_rel S lv lv'"
  by (simp add: live_inv_def live_rel_def state.R_refl)

end

sublocale live_parts \<subseteq> run: evolution "live_inv J Q G d cors" "live_rel S"
  by unfold_locales (auto simp: live_rel_def intro: state.R_refl state.R_trans)

context live_parts
begin

lemma join_ok:
  assumes "Visit v \<in> E" "in_Path (vi_request v) = ws_path"
  shows "guarantees (live_inv J Q G d cors) (live_rel S) (zoom lv_serving (\<lambda>sg lv. lv\<lparr>lv_serving := sg\<rparr>)
      (atom (serve (vi_env v) (vi_read_err v) (vi_upgraded v) (vi_token v) (vi_request v))))
    (\<lambda>lv. replied A cors v (server_of lv)) lv"
  unfolding zoom_atom
proof (rule run.atom_intro)
  fix lv :: "'a live" and r lv'
  assume I: "live_inv J Q G d cors lv"
    and a: "(case serve (vi_env v) (vi_read_err v) (vi_upgraded v) (vi_token v) (vi_request v) (lv_serving lv) of
      (a, p) \<Rightarrow> (a, lv\<lparr>lv_serving := p\<rparr>)) = (r, lv')"
  let ?sg = "lv_serving lv"
  obtain st h where ws: "ServeWS (Jwt_lib d) (JWTManager d) (e_now (vi_env v)) (sg_next ?sg) (vi_upgraded v)
      (vi_token v) (sg_hub ?sg) = (st, h)" by fastforce
  have d: "sg_deps ?sg = d" using I by (simp add: live_inv_def)
  have st: "st = None \<or> st = Some StatusUnauthorized" using ws by (auto simp: ServeWS_def split: sum.splits if_splits)
  have out: "r = Socket st" "lv' = lv\<lparr>lv_serving := ?sg\<lparr>sg_hub := h, sg_next := Suc (sg_next ?sg)\<rparr>\<rparr>"
    using a ws d assms(2) by (simp_all add: serve_def)
  have "everywhere Q G lv'"
    unfolding out(2) by (rule join_keeps [OF _ _ ws]) (use I client_ok [OF assms] in \<open>auto simp: live_inv_def\<close>)
  moreover have "numbered lv'"
    unfolding out(2) by (rule join_numbered [OF _ ws]) (use I in \<open>simp add: live_inv_def\<close>)
  ultimately have "live_inv J Q G d cors lv' \<and> live_rel S lv lv'"
    by (intro same_server_ok [OF I]) (simp_all add: out(2))
  then show "live_inv J Q G d cors lv' \<and> live_rel S lv lv'
      \<and> (\<forall>z. live_inv J Q G d cors z \<longrightarrow> live_rel S lv' z \<longrightarrow> replied A cors v (server_of z) r)"
    using out(1) st assms(2) by simp
qed

lemma visit_thread_ok:
  assumes v: "Visit v \<in> E" and I: "live_inv J Q G d cors lv"
  shows "guarantees (live_inv J Q G d cors) (live_rel S) (zoom lv_serving (\<lambda>sg lv. lv\<lparr>lv_serving := sg\<rparr>)
      (visit_thread (lv_serving lv) v)) (\<lambda>lv r. outcome A cors (Request v) lv (Some r)) lv"
proof -
  have d: "sg_deps (lv_serving lv) = d" and J: "J (server_of lv)" using I by (simp_all add: live_inv_def)
  have routed: "guarantees (live_inv J Q G d cors) (live_rel S) (zoom lv_serving (\<lambda>sg lv. lv\<lparr>lv_serving := sg\<rparr>)
      (and_then (on_server (NewRouter_thread d (vi_env v) (vi_read_err v) (vi_request v))) (\<lambda>rep. Done (Http rep))))
      (\<lambda>lv r. outcome A cors (Request v) lv (Some r)) lv"
    unfolding zoom_and_then on_server_def zoom_zoom zoom.simps(1)
    by (rule run.map_result [OF on_live_ok [OF router_ok [OF v J]]]) (simp add: outcome_def)
  show ?thesis
  proof (cases "DevCORS (sg_config (lv_serving lv)) \<and> in_Method (vi_request v) = ''OPTIONS''")
    case True
    then show ?thesis using I by (simp add: visit_thread_def outcome_def live_inv_def)
  next
    case False
    then have t: "visit_thread (lv_serving lv) v = serve_thread d v" by (auto simp: visit_thread_def d)
    show ?thesis
    proof (cases "in_Path (vi_request v) = ws_path")
      case True
      then have s: "serve_thread d v = atom (serve (vi_env v) (vi_read_err v) (vi_upgraded v) (vi_token v) (vi_request v))"
        by (simp add: serve_thread_def)
      show ?thesis unfolding t s
        by (rule run.weaken [OF join_ok [OF v True]]) (auto simp: outcome_def)
    next
      case no: False
      then have s: "serve_thread d v = and_then (on_server (NewRouter_thread d (vi_env v) (vi_read_err v) (vi_request v)))
          (\<lambda>rep. Done (Http rep))"
        by (simp add: serve_thread_def)
      show ?thesis unfolding t s by (rule routed)
    qed
  qed
qed

lemma request_thread_ok:
  assumes "Visit v \<in> E" "live_inv J Q G d cors lv"
  shows "guarantees (live_inv J Q G d cors) (live_rel S) (request_thread v lv) (outcome A cors (Request v)) lv"
  unfolding request_thread_def by (rule run.map_result [OF visit_thread_ok [OF assms]])

lemma poll_thread_ok:
  assumes I: "live_inv J Q G d cors lv" and c: "map_of (clients_of lv @ lv_gone lv) i = Some c"
  shows "guarantees (live_inv J Q G d cors) (live_rel S) (poll_thread L w k at i p c lv) (outcome A cors (Poller i p)) lv"
proof -
  have "Q c \<or> G c" using I map_of_SomeD [OF c] unfolding live_inv_def everywhere_def by force
  moreover have "J (server_of lv)" using I by (simp add: live_inv_def)
  ultimately have q: "guarantees J S (on_broker (Execute_thread w k (cl_userID c) q)) (\<lambda>_ _. True) (server_of lv)" for q
    by (rule query_ok)
  have push: "guarantees (live_inv J Q G d cors) (live_rel S)
      (atom (\<lambda>lv. (None, deliver L at i p msg seen res lv))) (outcome A cors (Poller i p)) lv" for msg seen res lv
  proof (rule run.atom_intro)
    fix lv :: "'a live" and a :: "served option" and lv'
    assume I: "live_inv J Q G d cors lv" and a: "(None, deliver L at i p msg seen res lv) = (a, lv')"
    then have "live_inv J Q G d cors lv' \<and> live_rel S lv lv'"
      using deliver_keeps [of lv] deliver_numbered [of lv]
      by (intro same_server_ok [OF I]) (auto simp: live_inv_def)
    then show "live_inv J Q G d cors lv' \<and> live_rel S lv lv'
        \<and> (\<forall>z. live_inv J Q G d cors z \<longrightarrow> live_rel S lv' z \<longrightarrow> outcome A cors (Poller i p) z a)"
      by (simp add: outcome_def)
  qed
  show ?thesis
    unfolding poll_thread_def Let_def on_live_broker_def on_server_def zoom_zoom
    by (rule run.and_then_intro [OF run.weaken [OF on_live_ok [OF q]] I]) (rule push)
qed

end

sublocale live_parts \<subseteq> contract: live_contract "live_inv J Q G d cors" "live_rel S" L E "outcome A cors" for L
proof unfold_locales
  fix ev and lv :: "'a live"
  assume I: "live_inv J Q G d cors lv"
  then show "live_inv J Q G d cors (quiet_step L lv ev) \<and> live_rel S lv (quiet_step L lv ev)"
    by (intro same_server_ok [OF I]) (auto simp: live_inv_def intro: quiet_keeps quiet_numbered)
qed (blast intro: request_thread_ok poll_thread_ok)+

end
