(* ===== verification/HubRuns.thy ===== *)
theory HubRuns
  imports LiveParts
begin

text \<open>
  The connections of the running server and the queries it makes: what every connection keeps through
  any run, and for whom queries are run.
\<close>

section \<open>For whom queries are run\<close>

text \<open>What a request proves: a user that its credentials, or the token of its WebSocket request, stand
  for.\<close>

definition proves :: "deps \<Rightarrow> visit \<Rightarrow> string \<Rightarrow> bool" where
  "proves d v u \<longleftrightarrow>
     (in_Path (vi_request v) = ws_path
        \<and> (\<exists>c. Verify (Jwt_lib d) (e_now (vi_env v)) (JWTManager d) (vi_token v) = Inr c \<and> cl_Username c = u))
   \<or> (\<exists>i. credentials (auth_env_of d (vi_env v)) (vi_request v) i \<and> Subject i = u)"

definition proven :: "live_event set \<Rightarrow> deps \<Rightarrow> string set" where
  "proven E d = {u. \<exists>v. Visit v \<in> E \<and> proves d v u}"

definition for_users :: "string set \<Rightarrow> server \<Rightarrow> server \<Rightarrow> bool" where
  "for_users U s s' \<longleftrightarrow> adds_for U (sv_broker s) (sv_broker s')"

interpretation users: evolution J "for_users U" for J U
  by unfold_locales (auto simp: for_users_def intro: adds_for_refl adds_for_trans)

lemma query_for:
  "u \<in> U \<Longrightarrow> guarantees (\<lambda>_. True) (for_users U) (on_broker (Execute_thread w k u q)) (\<lambda>_ _. True) s"
  unfolding on_broker_def
  by (rule guarantees_zoom [where get = sv_broker and s = s, OF _ _ _ _ Execute_adds_for]) (simp_all add: for_users_def)

text \<open>Of all the parts of a request only a query adds to the journal, for the user its credentials stand for.\<close>

lemma router_for_users:
  assumes "\<And>i. credentials (auth_env_of d e) r i \<Longrightarrow> Subject i \<in> U"
  shows "guarantees (\<lambda>_. True) (for_users U) (NewRouter_thread d e re r) (\<lambda>_ _. True) s"
proof -
  have untouched: "guarantees (\<lambda>_. True) (for_users U) t (\<lambda>_ _. True) s"
    if "leaves sv_broker t" for t :: api_thread and s
    by (rule leaves_guarantees [OF that]) (simp add: for_users_def adds_for_same)
  have query: "guarantees (\<lambda>_. True) (for_users U) (query_thread e (r\<lparr>in_Identity := Some i\<rparr>)) (\<lambda>_ _. True) s"
    if "credentials (auth_env_of d e) r i" for i s
    using assms [OF that]
    by (auto simp: query_thread_def IdentityFromContext_def Let_def intro!: users.map_result query_for split: sum.split)
  have mux: "guarantees (\<lambda>_. True) (for_users U) (mux_thread d e re r) (\<lambda>_ _. True) s" for s
  proof (rule mux_thread_rule)
    assume u: "\<And>s. unguarded d e r s (mux d e re r s)"
    show "guarantees (\<lambda>_. True) (for_users U) (one_action (mux d e re) r) (\<lambda>_ _. True) s"
      by (rule untouched, rule one_action_leaves) (simp add: unguarded_cases(1) [OF u])
  qed (simp_all add: query untouched Routes_leaves ingest_leaves)
  show ?thesis
    by (cases rule: NewRouter_cases [of d e re r])
      (auto simp: mux for_users_def adds_for_refl intro!: users.atom_then split: prod.splits)
qed

text \<open>The contract of the connections.\<close>

definition connected_ok :: "string set \<Rightarrow> client \<Rightarrow> bool" where
  "connected_ok U c \<longleftrightarrow> client_ok c \<and> cl_userID c \<in> U"

definition gone_ok :: "string set \<Rightarrow> client \<Rightarrow> bool" where
  "gone_ok U c \<longleftrightarrow> client_done c \<and> cl_userID c \<in> U"

lemma userID_new: "cl_userID (newClient now u) = u"
  by (simp add: newClient_def)

interpretation hub: live_parts "connected_ok (proven E d)" "gone_ok (proven E d)" "\<lambda>_. True" "for_users (proven E d)"
    E d cors "\<lambda>_ _ _. True"
  for E d cors
proof unfold_locales
  let ?Q = "connected_ok (proven E d)" and ?G = "gone_ok (proven E d)"
  show "?G (read_ends c)" if "?Q c" for c
    using that cancelAll_none_live
    by (simp add: connected_ok_def gone_ok_def client_ok_def client_done_def read_ends_def)
  fix v :: visit
  assume v: "Visit v \<in> E"
  show "guarantees (\<lambda>_. True) (for_users (proven E d)) (NewRouter_thread d (vi_env v) (vi_read_err v) (vi_request v))
      (\<lambda>_ _. True) s" for s
    by (rule router_for_users) (use v in \<open>auto simp: proven_def proves_def\<close>)
  show "?Q (newClient (e_now (vi_env v)) (cl_Username cl))"
    if "in_Path (vi_request v) = ws_path"
      "Verify (Jwt_lib d) (e_now (vi_env v)) (JWTManager d) (vi_token v) = Inr cl" for cl
    using that v by (auto simp: connected_ok_def client_ok_new proven_def proves_def userID_new)
next
  fix c w k q and s :: server
  assume "connected_ok (proven E d) c \<or> gone_ok (proven E d) c"
  then show "guarantees (\<lambda>_. True) (for_users (proven E d)) (on_broker (Execute_thread w k (cl_userID c) q)) (\<lambda>_ _. True) s"
    by (intro query_for) (auto simp: connected_ok_def gone_ok_def)
qed (simp_all add: connected_ok_def client_ok_queue client_ok_read client_ok_write, simp add: client_ok_def)

lemma no_clients_yet:
  assumes "serveAPI pe rs = Continues sg"
  shows "hub_clients (sg_hub sg) = []"
  using assms by (auto simp: serveAPI_def Let_def New_def split: or_exit.splits option.splits sum.splits prod.splits)

lemma hub_run:
  assumes "serveAPI pe rs = Continues sg" and "live_run L (running sg) evs = (lv, ts)"
  shows "everywhere (connected_ok (proven (set evs) (sg_deps sg))) (gone_ok (proven (set evs) (sg_deps sg))) lv"
    and "numbered lv" and "for_users (proven (set evs) (sg_deps sg)) (sg_server sg) (server_of lv)"
proof -
  have "live_inv (\<lambda>_. True) (connected_ok U) (gone_ok U) (sg_deps sg) (DevCORS (sg_config sg)) (started sg)" for U
    using no_clients_yet [OF assms(1)] by (simp add: live_inv_def started_def everywhere_def numbered_def)
  from hub.contract.from_start [OF subset_refl this assms(2)]
  show "everywhere (connected_ok (proven (set evs) (sg_deps sg))) (gone_ok (proven (set evs) (sg_deps sg))) lv"
    and "numbered lv" and "for_users (proven (set evs) (sg_deps sg)) (sg_server sg) (server_of lv)"
    by (simp_all add: live_inv_def live_rel_def started_def)
qed

section \<open>Properties of runs\<close>

text \<open>C2: no query is run for nobody. In any run of the server (any requests, any messages of any
  connections, polls of their widgets, during and after the connection, each with its actions
  interleaved with those of all others), every statement the journal gets is entered for a user whose
  session token, or whose API token, some request of the run presented; and the journal keeps what
  it had.\<close>

theorem every_query_has_a_proven_user:
  assumes "serveAPI pe rs = Continues sg" and "live_run L (running sg) evs = (lv, ts)"
  shows "\<exists>new. journal_of lv = journal_of (started sg) @ new
    \<and> (\<forall>e\<in>set new. \<exists>v. Visit v \<in> set evs \<and> proves (sg_deps sg) v (UserID e))"
proof -
  obtain new where new: "journal_of lv = journal_of (started sg) @ new" and u: "UserID ` set new \<subseteq> proven (set evs) (sg_deps sg)"
    using hub_run(3) [OF assms] by (auto simp: for_users_def adds_for_def started_def)
  have "\<exists>v. Visit v \<in> set evs \<and> proves (sg_deps sg) v (UserID e)" if "e \<in> set new" for e
    using imageI [OF that, of UserID] u unfolding proven_def by blast
  then show ?thesis using new by blast
qed

text \<open>C16: connections stay sound, whatever the clients send. After any run of the server no two
  connections have the same number, every connected client has at most 32 messages waiting and at
  most one live poller for each widget, each with an interval of 250 milliseconds or more; a
  connection that has ended is closed and none of its pollers is live.\<close>

theorem connections_stay_sound:
  assumes "serveAPI pe rs = Continues sg" and "live_run L (running sg) evs = (lv, ts)"
  shows "distinct (map fst (clients_of lv @ lv_gone lv))
    \<and> (\<forall>(i, c)\<in>set (clients_of lv). length (cl_out c) \<le> 32 \<and> inj_on (widget (cl_subs c)) {p. live (cl_subs c) p}
        \<and> (\<forall>p\<in>set (ss_pollers (cl_subs c)). 250 * Millisecond \<le> sint (po_interval p)))
    \<and> (\<forall>(i, c)\<in>set (lv_gone lv). cl_closed c \<and> {p. live (cl_subs c) p} = {})"
proof -
  have "inj_on (widget s) {i. live s i}" if "subs_ok s" for s
    using subs_ok_lookup [OF that] by (intro inj_onI) (metis mem_Collect_eq option.inject)
  then show ?thesis using hub_run(1,2) [OF assms] unfolding numbered_def everywhere_def
    by (fastforce simp: connected_ok_def gone_ok_def client_ok_def client_done_def sendQueueSize_def intervals_ok_def)
qed

section \<open>Witnesses\<close>

lemma every_query_has_a_proven_user_witness:
  "\<exists>sg n lv ts e. serveAPI sample_process_env (sample_resources\<lparr>rs_jwt := sample_jwt_lib\<rparr>) = Continues sg
     \<and> live_run sample_libs (running sg) (Visit sample_query # replicate n (Run 0)) = (lv, ts)
     \<and> journal_of lv = journal_of (started sg) @ [e] \<and> proves (sg_deps sg) sample_query (UserID e)"
proof -
  obtain sg where sg: "serveAPI sample_process_env (sample_resources\<lparr>rs_jwt := sample_jwt_lib\<rparr>) = Continues sg"
    and d: "Jwt_lib (sg_deps sg) = sample_jwt_lib" "JWTManager (sg_deps sg) = \<lparr>secret = ''key'', ttl = Hour\<rparr>"
    and s: "RateLimitPerMinute (sg_deps sg) = 600" "sv_limiter (sg_server sg) = newSlidingWindow 600"
      "al_writable (b_audit (sv_broker (sg_server sg)))" "\<not> DevCORS (sg_config sg)"
    by (rule sample_started)
  obtain n where run: "live_run sample_libs (running sg) (Visit sample_query # replicate n (Run 0))
      = ((started sg)\<lparr>lv_serving := snd (serve_visit sample_query sg)\<rparr>,
         [(Request sample_query, Done (Some (fst (serve_visit sample_query sg))))])" (is "_ = (?lv, ?ts)")
    by (rule sample_alone)
  obtain l where l: "allow (newSlidingWindow 600) t k = (True, l t k)" for t k
    by (simp add: allow_def newSlidingWindow_def Let_def)
  have "sv_broker (server_of ?lv) = snd (Execute (sample_net 200 []) (sample_clock 5) (sv_broker (sg_server sg)) ''ana'' ''SELECT 1'')"
    using d s(1,2,4)
    by (simp add: serve_visit_def handle_serve(2) serve_def sample_query_def sample_in_def ws_path_def NewRouter_def
        RateLimit_mw_def l mux_def Let_def Authenticate_def cut_prefix_def auth_env_of_def sample_env_def
        sample_verified withIdentity_def RequireRole_def IdentityFromContext_def queryHandler_def sample_json_def
        sample_claims_def AtLeast_def split: sum.split prod.split)
  then obtain e where "journal_of ?lv = journal_of (started sg) @ [e]"
    using Execute_audit [of "sample_net 200 []" "sample_clock 5" "sv_broker (sg_server sg)" "''ana''" "''SELECT 1''"] s(3)
    by (auto simp: started_def)
  moreover from every_query_has_a_proven_user [OF sg run] this have "proves (sg_deps sg) sample_query (UserID e)"
    by fastforce
  ultimately show ?thesis using sg run by blast
qed

lemma connections_stay_sound_witness:
  "\<exists>sg n lv ts c. serveAPI sample_process_env (sample_resources\<lparr>rs_jwt := sample_jwt_lib\<rparr>) = Continues sg
     \<and> live_run sample_libs (running sg) (Visit sample_socket # replicate n (Run 0)) = (lv, ts)
     \<and> clients_of lv = [(0, c)] \<and> cl_userID c = ''ana'' \<and> length (cl_out c) \<le> 32"
proof -
  obtain sg where sg: "serveAPI sample_process_env (sample_resources\<lparr>rs_jwt := sample_jwt_lib\<rparr>) = Continues sg"
    and d: "Jwt_lib (sg_deps sg) = sample_jwt_lib" "JWTManager (sg_deps sg) = \<lparr>secret = ''key'', ttl = Hour\<rparr>"
    and h: "hub_clients (sg_hub sg) = []" "sg_next sg = 0" "\<not> DevCORS (sg_config sg)"
    by (rule sample_started)
  obtain n where run: "live_run sample_libs (running sg) (Visit sample_socket # replicate n (Run 0))
      = ((started sg)\<lparr>lv_serving := snd (serve_visit sample_socket sg)\<rparr>,
         [(Request sample_socket, Done (Some (fst (serve_visit sample_socket sg))))])" (is "_ = (?lv, ?ts)")
    by (rule sample_alone)
  have "clients_of ?lv = [(0, newClient 5 ''ana'')]"
    using d h
    by (simp add: started_def serve_visit_def handle_serve(2) serve_def sample_socket_def sample_in_def ServeWS_def sample_env_def
        sample_verified sample_claims_def add_def)
  with connections_stay_sound [OF sg run] sg run show ?thesis
    by (fastforce simp: newClient_def)
qed

end
