(* ===== verification/RateRuns.thy ===== *)
theory RateRuns
  imports LiveServer
begin

text \<open>
  The limit on requests over a run of the server: the window of \<open>engine/api/ratelimit.go\<close> in front of
  the router, with everything else of the server going on around it.
\<close>

section \<open>Only the first action of a request touches the window\<close>

text \<open>The window, and what the server was configured with.\<close>

definition settings :: "'v live \<Rightarrow> sliding_window \<times> deps \<times> server_config" where
  "settings lv = (sv_limiter (server_of lv), sg_deps (lv_serving lv), sg_config (lv_serving lv))"

definition calm :: "'v machine \<Rightarrow> bool" where
  "calm m \<longleftrightarrow> (\<forall>x\<in>set (snd m). leaves settings (snd x))"

lemma on_serving_leaves:
  "leaves (\<lambda>sg. (sv_limiter (sg_server sg), sg_deps sg, sg_config sg)) t
   \<Longrightarrow> leaves settings (zoom lv_serving (\<lambda>sg lv. lv\<lparr>lv_serving := sg\<rparr>) t)"
  using leaves_zoom_part [of lv_serving "\<lambda>sg lv. lv\<lparr>lv_serving := sg\<rparr>"
      "\<lambda>sg. (sv_limiter (sg_server sg), sg_deps sg, sg_config sg)" t]
  by (simp add: settings_def [abs_def])

lemma on_server_leaves:
  assumes "leaves sv_limiter t"
  shows "leaves (\<lambda>sg. (sv_limiter (sg_server sg), sg_deps sg, sg_config sg)) (on_server t)"
  using assms unfolding on_server_def
  by (induction t rule: thread_induct) (simp_all add: leaves_Act zoom_Act del: zoom.simps(2))

lemma poll_leaves: "leaves settings (poll_thread L w k at i p c lv)"
  unfolding poll_thread_def Let_def on_live_broker_def
  by (intro leaves_and_then on_serving_leaves on_server_leaves on_broker_leaves leaves_atom) (simp add: settings_def)

lemma routed_leaves:
  "leaves settings (and_then (zoom lv_serving (\<lambda>sg lv. lv\<lparr>lv_serving := sg\<rparr>)
     (and_then (on_server (if ok then mux_thread d e re r else Done rep)) (\<lambda>rep. Done (Http rep)))) (\<lambda>x. Done (Some x)))"
  by (cases ok) (auto intro!: leaves_and_then on_serving_leaves on_server_leaves mux_leaves_limiter)

lemma quiet_settings: "settings (quiet_step L lv ev) = settings lv"
  by (simp add: settings_def)

section \<open>Requests of a run\<close>

text \<open>The requests that arrive at the router, each with its time and the key of its sender.\<close>

definition arrives :: "bool \<Rightarrow> visit \<Rightarrow> bool" where
  "arrives cors v \<longleftrightarrow> in_Path (vi_request v) \<noteq> ws_path \<and> \<not> (cors \<and> in_Method (vi_request v) = ''OPTIONS'')"

definition sender :: "visit \<Rightarrow> string" where
  "sender v = ByRemoteIP (in_RemoteAddr (vi_request v))"

fun arrivals :: "bool \<Rightarrow> live_event list \<Rightarrow> (time \<times> string) list" where
  "arrivals cors [] = []"
| "arrivals cors (Visit v # evs) =
     (if arrives cors v then (e_now (vi_env v), sender v) # arrivals cors evs else arrivals cors evs)"
| "arrivals cors (ev # evs) = arrivals cors evs"

text \<open>The times of those of sender \<open>k\<close> that were not turned away by the limit.\<close>

definition turned_away :: served where
  "turned_away = Http (Reply 429 (ErrorJson ''rate limit exceeded''))"

text \<open>The first action of a request: it asks the limiter, if it arrives at the router.\<close>

lemma first_action:
  assumes "0 < RateLimitPerMinute (sg_deps (lv_serving lv))"
    and a: "allow (sv_limiter (server_of lv)) (e_now (vi_env v)) (sender v) = (ok, l)"
    and st: "advance (request_thread v lv) lv = (lv', t)"
  shows "leaves settings t \<and> snd (settings lv') = snd (settings lv)
    \<and> (if arrives (DevCORS (sg_config (lv_serving lv))) v
       then fst (settings lv') = l \<and> (\<not> ok \<longrightarrow> t = Done (Some turned_away))
       else fst (settings lv') = fst (settings lv))"
proof -
  let ?sg = "lv_serving lv"
  consider (options) "DevCORS (sg_config ?sg)" "in_Method (vi_request v) = ''OPTIONS''"
    | (socket) "\<not> (DevCORS (sg_config ?sg) \<and> in_Method (vi_request v) = ''OPTIONS'')" "in_Path (vi_request v) = ws_path"
    | (routed) "\<not> (DevCORS (sg_config ?sg) \<and> in_Method (vi_request v) = ''OPTIONS'')" "in_Path (vi_request v) \<noteq> ws_path"
    by blast
  then show ?thesis
  proof cases
    case options
    then show ?thesis using st by (auto simp: request_thread_def visit_thread_def arrives_def)
  next
    case socket
    then have "request_thread v lv = and_then (zoom lv_serving (\<lambda>sg lv. lv\<lparr>lv_serving := sg\<rparr>)
        (atom (serve (vi_env v) (vi_read_err v) (vi_upgraded v) (vi_token v) (vi_request v)))) (\<lambda>r. Done (Some r))"
      by (auto simp: request_thread_def visit_thread_def serve_thread_def)
    then show ?thesis using st socket
      by (auto simp: zoom_atom and_then_atom arrives_def serve_def settings_def split: prod.splits)
  next
    case routed
    let ?k = "\<lambda>ok. if ok then mux_thread (sg_deps ?sg) (vi_env v) (vi_read_err v) (vi_request v)
        else Done (api_error StatusTooManyRequests ''rate limit exceeded'')"
    have "request_thread v lv = and_then (zoom lv_serving (\<lambda>sg lv. lv\<lparr>lv_serving := sg\<rparr>)
        (and_then (on_server (and_then (atom (\<lambda>s. case allow (sv_limiter s) (e_now (vi_env v)) (sender v) of
            (ok, l) \<Rightarrow> (ok, s\<lparr>sv_limiter := l\<rparr>))) ?k)) (\<lambda>rep. Done (Http rep)))) (\<lambda>r. Done (Some r))"
      using routed assms(1)
      by (auto simp: request_thread_def visit_thread_def serve_thread_def NewRouter_thread_def sender_def)
    then have out: "lv' = lv\<lparr>lv_serving := ?sg\<lparr>sg_server := (sg_server ?sg)\<lparr>sv_limiter := l\<rparr>\<rparr>\<rparr>"
      "t = and_then (zoom lv_serving (\<lambda>sg lv. lv\<lparr>lv_serving := sg\<rparr>)
         (and_then (on_server (?k ok)) (\<lambda>rep. Done (Http rep)))) (\<lambda>x. Done (Some x))"
      using st a by (auto simp: on_server_def and_then_atom zoom_Act and_then_Act)
    moreover have "arrives (DevCORS (sg_config ?sg)) v" using routed by (auto simp: arrives_def)
    moreover have "leaves settings t" unfolding out(2) by (rule routed_leaves)
    moreover have "t = Done (Some turned_away)" if "\<not> ok"
      using that by (simp add: out(2) turned_away_def api_error_def StatusTooManyRequests_def on_server_def)
    ultimately show ?thesis by (simp add: settings_def)
  qed
qed

fun let_through :: "'v ws_libs \<Rightarrow> 'v machine \<Rightarrow> string \<Rightarrow> live_event list \<Rightarrow> time list" where
  "let_through L m k [] = []"
| "let_through L m k (Visit v # evs) =
     (let m' = live_step L m (Visit v) in
      if arrives (DevCORS (sg_config (lv_serving (fst m)))) v \<and> sender v = k \<and> snd (last (snd m')) \<noteq> Done (Some turned_away)
      then e_now (vi_env v) # let_through L m' k evs
      else let_through L m' k evs)"
| "let_through L m k (ev # evs) = let_through L (live_step L m ev) k evs"

lemma calm_step:
  assumes "calm m" "\<nexists>v. ev = Visit v"
  shows "settings (fst (live_step L m ev)) = settings (fst m) \<and> calm (live_step L m ev)"
proof -
  obtain lv ts where m: "m = (lv, ts)" by (cases m)
  show ?thesis
  proof (cases ev)
    case (PollTick i p w k at)
    have "settings (fst (spawn own (poll_thread L w k at i p c lv) m)) = settings lv
        \<and> calm (spawn own (poll_thread L w k at i p c lv) m)" for own c
      using assms(1) leaves_advance [OF poll_leaves [of L w k at i p c lv], of lv]
      by (auto simp: calm_def spawn_def m split: prod.split)
    then show ?thesis using assms(1) by (simp add: PollTick m split: option.split)
  next
    case (Run i)
    show ?thesis
    proof (cases "i < length ts")
      case True
      then have "leaves settings (snd (ts ! i))" using assms(1) by (auto simp: calm_def m)
      from leaves_advance [OF this, of lv] show ?thesis
        using assms(1) True set_update_subset_insert [of ts i]
        by (fastforce simp: calm_def m Run split: prod.split)
    qed (use assms(1) in \<open>simp add: m Run\<close>)
  qed (use assms quiet_settings in \<open>auto simp: m calm_def simp del: quiet_step.simps\<close>)
qed

lemma calm_visit:
  assumes "calm m" "0 < RateLimitPerMinute (sg_deps (lv_serving (fst m)))"
    and a: "allow (sv_limiter (server_of (fst m))) (e_now (vi_env v)) (sender v) = (ok, l)"
  shows "calm (live_step L m (Visit v)) \<and> snd (settings (fst (live_step L m (Visit v)))) = snd (settings (fst m))
    \<and> (if arrives (DevCORS (sg_config (lv_serving (fst m)))) v
       then fst (settings (fst (live_step L m (Visit v)))) = l
         \<and> (\<not> ok \<longrightarrow> snd (last (snd (live_step L m (Visit v)))) = Done (Some turned_away))
       else fst (settings (fst (live_step L m (Visit v)))) = fst (settings (fst m)))"
proof -
  obtain lv ts where m: "m = (lv, ts)" by (cases m)
  obtain lv' t where st: "advance (request_thread v lv) lv = (lv', t)" by (cases "advance (request_thread v lv) lv")
  have step: "live_step L m (Visit v) = (lv', ts @ [(Request v, t)])" by (simp add: m spawn_def st)
  show ?thesis
    using first_action [OF _ _ st, of ok l] assms unfolding step by (auto simp: m calm_def)
qed

lemma let_through_admitted:
  assumes "0 < RateLimitPerMinute (sg_deps (lv_serving (fst m)))" "calm m"
  shows "subseq (let_through L m k evs)
    (admitted allow (sv_limiter (server_of (fst m))) k (arrivals (DevCORS (sg_config (lv_serving (fst m)))) evs))"
  using assms
proof (induction evs arbitrary: m)
  case (Cons ev evs)
  let ?m = "live_step L m ev" and ?cors = "DevCORS (sg_config (lv_serving (fst m)))"
  show ?case
  proof (cases "\<exists>v. ev = Visit v")
    case True
    then obtain v where v: "ev = Visit v" ..
    obtain ok l where a: "allow (sv_limiter (server_of (fst m))) (e_now (vi_env v)) (sender v) = (ok, l)"
      by (cases "allow (sv_limiter (server_of (fst m))) (e_now (vi_env v)) (sender v)")
    note step = calm_visit [OF Cons.prems(2,1) a, of L]
    have kept: "sg_deps (lv_serving (fst ?m)) = sg_deps (lv_serving (fst m))" "sg_config (lv_serving (fst ?m)) = sg_config (lv_serving (fst m))"
      using step unfolding v by (simp_all add: settings_def)
    have IH: "subseq (let_through L ?m k evs) (admitted allow (sv_limiter (server_of (fst ?m))) k (arrivals ?cors evs))"
      using Cons.IH [of ?m] Cons.prems step kept v by simp
    have window: "sv_limiter (server_of (fst ?m)) = (if arrives ?cors v then l else sv_limiter (server_of (fst m)))"
      using step unfolding v by (simp add: settings_def split: if_splits)
    show ?thesis
    proof (cases "arrives ?cors v")
      case True
      then have "\<not> ok \<longrightarrow> snd (last (snd ?m)) = Done (Some turned_away)" using step v by simp
      then show ?thesis using IH True window a unfolding v by (auto simp: Let_def)
    next
      case False
      then show ?thesis using IH window unfolding v by (simp add: Let_def)
    qed
  next
    case False
    then have eq: "let_through L m k (ev # evs) = let_through L ?m k evs" "arrivals ?cors (ev # evs) = arrivals ?cors evs"
      by (cases ev; simp)+
    have "settings (fst ?m) = settings (fst m)" "calm ?m" using calm_step [OF Cons.prems(2) False] by simp_all
    then show ?thesis using Cons.IH [of ?m] Cons.prems(1) unfolding eq by (simp add: settings_def)
  qed
qed simp

lemma in_minute_subseq: "subseq xs ys \<Longrightarrow> in_minute t xs \<le> in_minute t ys"
  unfolding in_minute_def using list_emb_length [of "(=)"] subseq_filter by blast

text \<open>C24: at most 600 requests a minute. In any run of the server, if the clock does not go back
  between the requests that arrive at the router, then of those of one address no more than 600 in
  any minute get past the limiter, the others ending at once with its 429, whatever else the server
  does meanwhile.\<close>

theorem requests_per_minute_bounded:
  assumes "serveAPI pe rs = Continues sg"
    and "sorted (map fst (arrivals (DevCORS (sg_config sg)) evs))"
  shows "in_minute t (let_through L (running sg) k evs) \<le> 600"
proof -
  have sg: "RateLimitPerMinute (sg_deps sg) = 600" "sv_limiter (sg_server sg) = newSlidingWindow 600"
    using assms(1) by (auto simp: serveAPI_def Let_def split: or_exit.splits option.splits sum.splits prod.splits)
  let ?a = "admitted allow (newSlidingWindow 600) k (arrivals (DevCORS (sg_config sg)) evs)"
  have "in_minute t (let_through L (running sg) k evs) \<le> in_minute t ?a"
    using let_through_admitted [of "running sg" L k evs] sg
    by (intro in_minute_subseq) (simp add: running_def started_def calm_def)
  moreover have "int (in_minute t ?a) \<le> 600"
    using sw.rate_bound [OF assms(2), of "newSlidingWindow 600" k t] by (simp add: newSlidingWindow_def)
  ultimately show ?thesis by simp
qed

lemma requests_per_minute_bounded_witness:
  "\<exists>sg. serveAPI sample_process_env (sample_resources\<lparr>rs_jwt := sample_jwt_lib\<rparr>) = Continues sg
     \<and> in_minute 9 (let_through sample_libs (running sg) ''10.0.0.1''
         [Visit sample_query, Visit sample_socket, Run 0, Visit sample_query, Run 2]) \<le> 600"
proof -
  obtain sg where sg: "serveAPI sample_process_env (sample_resources\<lparr>rs_jwt := sample_jwt_lib\<rparr>) = Continues sg"
    by (rule sample_started)
  have "sorted (map fst (arrivals (DevCORS (sg_config sg)) [Visit sample_query, Visit sample_socket, Run 0, Visit sample_query, Run 2]))"
    by (simp add: sample_query_def sample_socket_def sample_env_def)
  from requests_per_minute_bounded [OF sg this] sg show ?thesis by blast
qed

end
