(* ===== verification/ServerRuns.thy ===== *)
theory ServerRuns
  imports LiveParts
begin

text \<open>
  Runs of the server that \<open>serve-api\<close> builds: what every interleaving of requests, polls and messages
  preserves of the dataset registry, the journal and the tables of ClickHouse, and what the replies can be.
\<close>

section \<open>The contract\<close>

text \<open>What \<open>Exec\<close> has confirmed during a request, and during the requests of a run.\<close>

definition confirms :: "env \<Rightarrow> string \<Rightarrow> string \<Rightarrow> bool" where
  "confirms e url n \<longleftrightarrow> (\<exists>d. Name d = n \<and> Exec (e_net e) url (GenerateDDL d) = None)"

definition confirmed :: "live_event set \<Rightarrow> string \<Rightarrow> string \<Rightarrow> bool" where
  "confirmed E url n \<longleftrightarrow> (\<exists>v. Visit v \<in> E \<and> confirms (vi_env v) url n)"

lemma confirming_visit: "Visit v \<in> E \<Longrightarrow> confirming (confirmed E url) url (vi_env v)"
  by (auto simp: confirming_def confirmed_def confirms_def)

text \<open>The server as \<open>serve-api\<close> wires it: statements and rows go to the same ClickHouse.\<close>

definition sound :: "live_event set \<Rightarrow> deps \<Rightarrow> server \<Rightarrow> bool" where
  "sound E d s \<longleftrightarrow> DDL d = Some (InserterURL d) \<and> good (confirmed E (InserterURL d)) (InserterURL d) s"

lemma sound_eq: "DDL d = Some (InserterURL d) \<Longrightarrow> sound E d = good (confirmed E (InserterURL d)) (InserterURL d)"
  by (simp add: fun_eq_iff sound_def)

definition took :: "deps \<Rightarrow> visit \<Rightarrow> server \<Rightarrow> api_body reply \<Rightarrow> bool" where
  "took d v s rep \<longleftrightarrow> accepted (vi_env v) (InserterURL d) (vi_read_err v) (vi_request v) s rep"

interpretation registry_run: live_parts "\<lambda>_. True" "\<lambda>_. True" "sound E d" "adds UNIV" E d cors "took d" for E d cors
proof unfold_locales
  show "guarantees (sound E d) (adds UNIV) (NewRouter_thread d (vi_env v) (vi_read_err v) (vi_request v)) (took d v) s"
    if "Visit v \<in> E" "sound E d s" for v s
  proof -
    have wired: "DDL d = Some (InserterURL d)" and g: "good (confirmed E (InserterURL d)) (InserterURL d) s"
      using that(2) by (simp_all add: sound_def)
    have "took d v = accepted (vi_env v) (InserterURL d) (vi_read_err v) (vi_request v)"
      by (simp add: fun_eq_iff took_def)
    then show ?thesis
      using NewRouter_ok [OF wired refl confirming_visit [OF that(1)] g, of "vi_request v" UNIV "vi_read_err v"]
      by (simp add: sound_eq [OF wired])
  qed
  show "guarantees (sound E d) (adds UNIV) (on_broker (Execute_thread w k (cl_userID c) q)) (\<lambda>_ _. True) s"
    if "sound E d s" for c w k q s
  proof -
    have wired: "DDL d = Some (InserterURL d)" using that by (simp add: sound_def)
    show ?thesis unfolding sound_eq [OF wired] by (rule on_broker_ok [OF Execute_adds_for]) simp
  qed
qed simp_all

lemma serveAPI_start:
  assumes "serveAPI pe rs = Continues sg"
  shows "DDL (sg_deps sg) = Some (clickhouse_url pe)" "InserterURL (sg_deps sg) = clickhouse_url pe"
    and "store_ok (sv_schemas (sg_server sg)) \<Longrightarrow> live_inv (sound E (sg_deps sg)) (\<lambda>_. True) (\<lambda>_. True) (sg_deps sg) (DevCORS (sg_config sg)) (started sg)"
proof -
  have e: "sv_ensured (sg_server sg) = {} \<and> sv_sent (sg_server sg) = [] \<and> hub_clients (sg_hub sg) = []
      \<and> DDL (sg_deps sg) = Some (clickhouse_url pe) \<and> InserterURL (sg_deps sg) = clickhouse_url pe"
    using assms by (auto simp: serveAPI_def Let_def New_def split: or_exit.splits option.splits sum.splits prod.splits)
  then show "DDL (sg_deps sg) = Some (clickhouse_url pe)" "InserterURL (sg_deps sg) = clickhouse_url pe"
    by simp_all
  show "live_inv (sound E (sg_deps sg)) (\<lambda>_. True) (\<lambda>_. True) (sg_deps sg) (DevCORS (sg_config sg)) (started sg)" if "store_ok (sv_schemas (sg_server sg))"
    using that e
    by (simp add: live_inv_def started_def sound_def good_def created_before_def everywhere_def numbered_def)
qed

lemma registry_run_facts:
  assumes "serveAPI pe rs = Continues sg" "reachable (sv_schemas (sg_server sg), pending)"
    and "live_run L (running sg) evs = (lv, ts)"
  shows "store_ok (sv_schemas (sg_server sg))" "good (confirmed (set evs) (clickhouse_url pe)) (clickhouse_url pe) (server_of lv)"
    and "adds UNIV (sg_server sg) (server_of lv)"
    and "(Request v, Done (Some (Http (Reply StatusAccepted b)))) \<in> set ts
      \<Longrightarrow> accepted (vi_env v) (clickhouse_url pe) (vi_read_err v) (vi_request v) (server_of lv) (Reply StatusAccepted b)"
proof -
  show ok: "store_ok (sv_schemas (sg_server sg))" using reachable_ok [OF assms(2)] by (simp add: registry_ok_def)
  note run = registry_run.contract.from_start [OF subset_refl serveAPI_start(3) [OF assms(1) ok] assms(3)]
  note wired = serveAPI_start(1,2) [OF assms(1)]
  show "good (confirmed (set evs) (clickhouse_url pe)) (clickhouse_url pe) (server_of lv)"
    and "adds UNIV (sg_server sg) (server_of lv)"
    using run by (simp_all add: live_inv_def live_rel_def started_def sound_def wired)
  assume "(Request v, Done (Some (Http (Reply StatusAccepted b)))) \<in> set ts"
  then have "outcome (took (sg_deps sg)) (DevCORS (sg_config sg)) (Request v) lv (Some (Http (Reply StatusAccepted b)))" using run by blast
  then show "accepted (vi_env v) (clickhouse_url pe) (vi_read_err v) (vi_request v) (server_of lv) (Reply StatusAccepted b)"
    by (auto simp: outcome_def took_def wired StatusAccepted_def StatusNoContent_def)
qed

section \<open>Properties of runs\<close>

lemma Versions_no_faults: "store_ok db \<Longrightarrow> Versions (no_faults v) db n = Inr (history db n)"
  by (rule Versions_history) (simp_all add: no_faults_def)




section \<open>The shape of the replies\<close>

text \<open>The statuses that go with each kind of body.\<close>

fun typed :: "api_body reply \<Rightarrow> bool" where
  "typed (Reply st (ErrorJson _)) \<longleftrightarrow> st \<in> {400, 401, 403, 429, 500}"
| "typed (Reply st (SchemaJson (ErrorBody _))) \<longleftrightarrow> st \<in> {400, 404, 409, 500}"
| "typed (Reply st (SchemaJson (DatasetBody _))) \<longleftrightarrow> st \<in> {200, 201}"
| "typed (Reply st (SchemaJson (DatasetsBody _))) \<longleftrightarrow> st = 200"
| "typed (Reply st (AcceptedJson n)) \<longleftrightarrow> st = 202 \<and> n > 0"
| "typed (Reply st NoBody) \<longleftrightarrow> st \<in> {404, 405}"
| "typed (Reply st _) \<longleftrightarrow> st = 200"
| "typed Panicked \<longleftrightarrow> False"

lemma create_handler_typed:
  "create_handler ddl flt now db req = (resp, db', stmts) \<Longrightarrow> typed (schema_reply resp)"
  by (auto simp: create_handler_def writeError_def writeStoreError_def writeJSON_def schema_reply_def status_defs
      split: sum.splits prod.splits option.splits)

lemma addColumns_handler_typed:
  "addColumns_handler ddl flt now db n req = (resp, db', stmts) \<Longrightarrow> typed (schema_reply resp)"
  by (auto simp: addColumns_handler_def writeError_def writeStoreError_def writeJSON_def schema_reply_def status_defs
      split: sum.splits prod.splits option.splits)

lemma read_handlers_typed:
  "typed (schema_reply (list_handler flt db))" "typed (schema_reply (get_handler flt db n))"
  "typed (schema_reply (versions_handler flt db n))"
  by (simp_all add: list_handler_def get_handler_def versions_handler_def writeError_def writeStoreError_def
      writeJSON_def schema_reply_def status_defs split: sum.split)

lemma after_ddl_typed:
  "(\<And>resp db stmts. out = (resp, db, stmts) \<Longrightarrow> typed (schema_reply resp)) \<Longrightarrow> typed (fst (after_ddl d s out))"
  by (cases out) (simp add: after_ddl_def)

lemma Routes_typed: "typed (fst (Routes d e r s))"
proof -
  consider "drop 3 (in_Path r) = []" | n where "drop 3 (in_Path r) = [n]"
    | n w where "drop 3 (in_Path r) = [n, w]" | n w x xs where "drop 3 (in_Path r) = n # w # x # xs"
    by (metis list.exhaust)
  then show ?thesis
    by cases (simp_all add: Routes_def mux_miss_def read_handlers_typed after_ddl_typed create_handler_typed
        addColumns_handler_typed status_defs)
qed

text \<open>A handler of the router returns a typed reply, or panics on an ingestion.\<close>

definition well_replied :: "request_in \<Rightarrow> api_body reply \<Rightarrow> bool" where
  "well_replied r rep \<longleftrightarrow> typed rep \<or> (rep = Panicked \<and> in_Method r = ''POST'' \<and> (\<exists>n. ingest_path (in_Path r) n))"

lemma query_returns: "returns typed (query_thread e r)"
  by (auto simp: query_thread_def Let_def query_reply_def api_error_def status_defs
      intro!: returns_and_then [OF returns_any] split: sum.split)

lemma create_returns: "returns typed (create_thread d e req)" "returns typed (addColumns_thread d e n req')"
  by (auto simp: create_thread_def addColumns_thread_def schema_reply_def writeStoreError_def writeError_def writeJSON_def
      status_defs intro!: returns_and_then [OF returns_any] split: sum.split option.split)

lemma Routes_returns: "returns typed (Routes_thread d e r)"
proof (cases rule: Routes_cases [of r d e])
  case reads
  show ?thesis unfolding reads(1) one_action_def by (rule returns_atom) (rule Routes_typed)
qed (simp_all add: create_returns)

lemma ingest_returns: "returns (\<lambda>rep. typed rep \<or> rep = Panicked) (ingest_thread d e n re r)"
  by (auto simp: ingest_thread_def ingest_records_thread_def api_error_def status_defs
      intro!: returns_and_then [OF returns_any] split: prod.split ingest_lines.split sum.split option.split)

lemma mux_returns: "returns (well_replied r) (mux_thread d e re r)"
proof (rule mux_thread_rule)
  have typed: "returns (well_replied r) t" if "returns typed t" for t :: api_thread
    by (rule returns_weaken [OF that]) (simp add: well_replied_def)
  fix i
  show "returns (well_replied r) (query_thread e (r\<lparr>in_Identity := Some i\<rparr>))"
    "returns (well_replied r) (Routes_thread d e (r\<lparr>in_Identity := Some i\<rparr>))"
    using typed query_returns Routes_returns by blast+
  show "returns (well_replied r) (ingest_thread d e n re (r\<lparr>in_Identity := Some i\<rparr>))"
    if "ingest_path (in_Path r) n" "in_Method r = ''POST''" for n
    by (rule returns_weaken [OF ingest_returns]) (use that in \<open>auto simp: well_replied_def\<close>)
next
  fix rep assume "refusal rep"
  then show "returns (well_replied r) (Done rep)" by (auto simp: refusal_def well_replied_def status_defs)
next
  assume u: "\<And>s. unguarded d e r s (mux d e re r s)"
  have "typed (fst (mux d e re r s))" for s
    using u [of s] unfolding unguarded_def
    by (elim insertE; simp add: healthHandler_def static_or_def mux_miss_def loginHandler_def api_error_def status_defs
        split: sum.split)
  then show "returns (well_replied r) (one_action (mux d e re) r)"
    unfolding one_action_def by (intro returns_atom) (simp add: well_replied_def)
qed

lemma router_returns: "returns (well_replied r) (NewRouter_thread d e re r)"
  by (rule NewRouter_returns [OF mux_returns]) (simp add: well_replied_def api_error_def status_defs)

interpretation replies: live_parts "\<lambda>_. True" "\<lambda>_. True" "\<lambda>_. True" "\<lambda>_ _. True" E d cors
    "\<lambda>v _. well_replied (vi_request v)"
  for E d cors
proof unfold_locales
  fix v and s :: server
  show "guarantees (\<lambda>_. True) (\<lambda>_ _. True) (NewRouter_thread d (vi_env v) (vi_read_err v) (vi_request v))
      (\<lambda>_. well_replied (vi_request v)) s"
    by (rule returns_guarantees [OF router_returns])
  show "guarantees (\<lambda>_. True) (\<lambda>_ _. True) (on_broker (Execute_thread w k u q)) (\<lambda>_ _. True) s" for w k u q
    by (rule returns_guarantees [OF returns_any])
qed simp_all

fun answers :: "request_in \<Rightarrow> bool \<Rightarrow> served \<Rightarrow> bool" where
  "answers r cors (Socket st) \<longleftrightarrow> in_Path r = ws_path \<and> (st = None \<or> st = Some 401)"
| "answers r cors (Http rep) \<longleftrightarrow> typed rep
     \<or> (rep = Panicked \<and> in_Method r = ''POST'' \<and> (\<exists>n. ingest_path (in_Path r) n))
     \<or> (rep = Reply 204 NoBody \<and> cors \<and> in_Method r = ''OPTIONS'')"


section \<open>Witnesses\<close>

text \<open>An ingestion request with the sample session.\<close>

definition sample_visit :: visit where
  "sample_visit = \<lparr>vi_env = sample_env 5, vi_read_err = None, vi_upgraded = False, vi_token = [],
     vi_request = sample_in ''POST'' [''api'', ''v1'', ''ingest'', ''logs''] ''hello''\<rparr>"

lemma sample_ingest:
  assumes "Jwt_lib d = sample_jwt_lib" "JWTManager d = \<lparr>secret = ''key'', ttl = Hour\<rparr>"
    and "DDL d = Some url" "InserterURL d = url" and "sv_schemas s = empty_db" "sv_ensured s = {}"
  shows "\<exists>s' def. mux d (sample_env 5) None (vi_request sample_visit) s = (Reply StatusAccepted (AcceptedJson 1), s')
    \<and> sv_sent s' = sv_sent s @ [ddl_request url (GenerateDDL def)] @ insert_request url ''logs'' (''{}'' @ [nl]) # []"
proof -
  let ?rec = "AList.update ''received_at_unix_ms'' (received_at 5) [(''msg'', GStr ''hello'')]"
  have rd: "read_records (decode_record sample_json) 5 [''hello''] [] = Records [?rec]"
    by (simp add: sample_json_def trim_space_def is_space_def)
  have "distinct (map fst ?rec)" "''logs'' \<noteq> []" "?rec \<noteq> []" "[] \<notin> set (map fst ?rec)" by simp_all
  then obtain def db' where en: "EnsureDataset amd64_oor (no_faults (Plain [])) (no_faults (Plain [])) 5 empty_db
      ''logs'' ?rec = (Inr (def, True), db')"
    using EnsureDataset_creates [OF store_ok_empty history_empty] by blast
  have v: "Verify sample_jwt_lib 5 \<lparr>secret = ''key'', ttl = Hour\<rparr> ''tok'' = Inr sample_claims"
    by (simp add: Verify_def sample_jwt_lib_def)
  have "\<exists>s'. ingestHandler d (sample_env 5) ''logs'' None (vi_request sample_visit\<lparr>in_Identity := i\<rparr>) s
      = (Reply StatusAccepted (AcceptedJson 1), s')
    \<and> sv_sent s' = sv_sent s @ [ddl_request url (GenerateDDL def)] @ insert_request url ''logs'' (''{}'' @ [nl]) # []" for i
    using rd en assms(3-6)
    by (simp add: ingestHandler_def scan_lines_def raw_lines_def sample_in_def MaxScanTokenSize_def
        drop_cr_def sample_env_def ingest_records_def Let_def sample_visit_def sent_ddl_def
        run_ddl_def executor_def Exec_def sample_net_def StatusOK_def Insert_def sample_json_def
        del: AList.update.simps)
  then show ?thesis
    by (simp add: mux_def Let_def sample_visit_def sample_in_def Authenticate_def cut_prefix_def auth_env_of_def
        sample_env_def v assms(1,2) withIdentity_def RequireDatasetScope_def IdentityFromContext_def
        AllowsDataset_def datasetFromPath_def) blast
qed

lemma sample_run:
  obtains sg n lv def where "serveAPI sample_process_env (sample_resources\<lparr>rs_jwt := sample_jwt_lib\<rparr>) = Continues sg"
    and "reachable (sv_schemas (sg_server sg), [])"
    and "live_run sample_libs (running sg) (Visit sample_visit # replicate n (Run 0))
      = (lv, [(Request sample_visit, Done (Some (Http (Reply 202 (AcceptedJson 1)))))])"
    and "sv_sent (server_of lv) = [ddl_request (clickhouse_url sample_process_env) (GenerateDDL def)]
      @ insert_request (clickhouse_url sample_process_env) ''logs'' (''{}'' @ [nl]) # []"
proof -
  obtain sg where sg: "serveAPI sample_process_env (sample_resources\<lparr>rs_jwt := sample_jwt_lib\<rparr>) = Continues sg"
    and d: "Jwt_lib (sg_deps sg) = sample_jwt_lib" "JWTManager (sg_deps sg) = \<lparr>secret = ''key'', ttl = Hour\<rparr>"
      "DDL (sg_deps sg) = Some (clickhouse_url sample_process_env)"
      "InserterURL (sg_deps sg) = clickhouse_url sample_process_env"
    and s: "RateLimitPerMinute (sg_deps sg) = 600" "sv_limiter (sg_server sg) = newSlidingWindow 600"
      "sv_schemas (sg_server sg) = empty_db" "sv_sent (sg_server sg) = []" "sv_ensured (sg_server sg) = {}"
      "\<not> DevCORS (sg_config sg)"
    by (rule sample_started)
  obtain l where l: "allow (newSlidingWindow 600) t k = (True, l t k)" for t k
    by (simp add: allow_def newSlidingWindow_def Let_def)
  let ?s = "(sg_server sg)\<lparr>sv_limiter := l (e_now (sample_env 5)) (ByRemoteIP (in_RemoteAddr (vi_request sample_visit)))\<rparr>"
  obtain s' def where m: "mux (sg_deps sg) (sample_env 5) None (vi_request sample_visit) ?s
      = (Reply StatusAccepted (AcceptedJson 1), s')"
    and sent: "sv_sent s' = sv_sent ?s @ [ddl_request (clickhouse_url sample_process_env) (GenerateDDL def)]
      @ insert_request (clickhouse_url sample_process_env) ''logs'' (''{}'' @ [nl]) # []"
    using sample_ingest [OF d, of ?s] s by auto
  have "in_Path (vi_request sample_visit) \<noteq> ws_path" "vi_env sample_visit = sample_env 5" "vi_read_err sample_visit = None"
    by (simp_all add: sample_visit_def sample_in_def ws_path_def)
  then have v: "serve_visit sample_visit sg = (Http (Reply 202 (AcceptedJson 1)), sg\<lparr>sg_server := s'\<rparr>)"
    using m s by (simp add: serve_visit_def handle_serve(2) serve_def NewRouter_def RateLimit_mw_def l StatusAccepted_def)
  obtain n where "live_run sample_libs (running sg) (Visit sample_visit # replicate n (Run 0))
      = ((started sg)\<lparr>lv_serving := snd (serve_visit sample_visit sg)\<rparr>,
         [(Request sample_visit, Done (Some (fst (serve_visit sample_visit sg))))])"
    by (rule sample_alone)
  then show thesis using that [OF sg, of n _ def] sent s reachable.initial by (simp add: v)
qed





end
