(* ===== verification/ServeLife.thy ===== *)
theory ServeLife
  imports ServerRuns "HOL-Library.Sublist"
begin

text \<open>
  The life of a \<open>serve-api\<close> process, from the moment it listens to its end: the last part of \<open>serveAPI\<close> in
  \<open>bootstrap.go\<close>, with the main goroutine in \<open>Start\<close>, the one that waits for a signal and calls
  \<open>Shutdown\<close>, the health poller, and the running server of \<open>LiveServer\<close> beside them.
\<close>

section \<open>The goroutines of the process\<close>

text \<open>\<open>ap_main\<close>: whether \<open>main\<close> has come to its end; \<open>ap_out\<close>: the lines on standard output. What
  \<open>Shutdown\<close> returns is not looked at.\<close>

datatype waiter = Awaiting | Draining | Drained

record 'v api_process =
  ap_config :: server_config
  ap_machine :: "'v machine"
  ap_cancelled :: bool
  ap_poller :: bool
  ap_waiter :: waiter
  ap_main :: run_end
  ap_out :: "string list"

definition launched :: "'v serving \<Rightarrow> 'v api_process" where
  "launched sg = \<lparr>ap_config = sg_config sg, ap_machine = running sg, ap_cancelled = False, ap_poller = True,
     ap_waiter = Awaiting, ap_main = StillRunning, ap_out = []\<rparr>"

text \<open>\<open>Serving\<close>: a step of the server. \<open>Signal\<close>: SIGINT or SIGTERM cancels the context. \<open>PollerStops\<close>: the
  health poller sees that; as both cases of its \<open>select\<close> may be ready, it can poll once more before.
  \<open>ShutdownBegins\<close>: the goroutine that waits for the context closes the listener. \<open>ShutdownEnds\<close>: no
  request is under way, or its five seconds are over. \<open>StartEnds\<close>: the server's \<open>ListenAndServe\<close>
  returns; the package documents that it does so with \<open>ErrServerClosed\<close> as soon as \<open>Shutdown\<close> has been
  called. Requests on connections that are already open may come until the end.\<close>

datatype process_event =
    Serving live_event
  | Signal
  | PollerStops
  | ShutdownBegins
  | ShutdownEnds bool
  | StartEnds listen_result

definition idle :: "'v machine \<Rightarrow> bool" where
  "idle m \<longleftrightarrow> (\<forall>(own, t)\<in>set (snd m). case own of Request v \<Rightarrow> is_done t | Poller i p \<Rightarrow> True)"

definition shutting_down :: string where "shutting_down = ''herminas-api: shutting down...''"
definition stopped_cleanly :: string where "stopped_cleanly = ''herminas-api: stopped cleanly''"

text \<open>What follows \<open>Start\<close>: when \<open>main\<close> returns, and when it exits, the process ends with all its
  goroutines, whatever they are doing.\<close>

definition start_returns :: "listen_result \<Rightarrow> 'v api_process \<Rightarrow> 'v api_process" where
  "start_returns res p =
     (case Start_server (ap_config p) (\<lambda>_. Some res) of
        Some err \<Rightarrow> p\<lparr>ap_main := Ended (ExitWith (''api server failed: '' @ Error err))\<rparr>
      | None \<Rightarrow> p\<lparr>ap_main := Ended (Continues ()), ap_out := ap_out p @ [stopped_cleanly]\<rparr>)"

fun health_tick :: "live_event \<Rightarrow> bool" where
  "health_tick (HealthTick w at) \<longleftrightarrow> True"
| "health_tick ev \<longleftrightarrow> False"

definition process_step :: "'v ws_libs \<Rightarrow> 'v api_process \<Rightarrow> process_event \<Rightarrow> 'v api_process" where
  "process_step L p ev =
     (if ap_main p \<noteq> StillRunning then p
      else
        case ev of
          Serving e \<Rightarrow>
            if health_tick e \<and> \<not> ap_poller p then p else p\<lparr>ap_machine := live_step L (ap_machine p) e\<rparr>
        | Signal \<Rightarrow> p\<lparr>ap_cancelled := True\<rparr>
        | PollerStops \<Rightarrow> if ap_cancelled p then p\<lparr>ap_poller := False\<rparr> else p
        | ShutdownBegins \<Rightarrow>
            if ap_cancelled p \<and> ap_waiter p = Awaiting
            then p\<lparr>ap_waiter := Draining, ap_out := ap_out p @ [shutting_down]\<rparr> else p
        | ShutdownEnds late \<Rightarrow>
            if ap_waiter p = Draining \<and> (late \<or> idle (ap_machine p)) then p\<lparr>ap_waiter := Drained\<rparr> else p
        | StartEnds res \<Rightarrow>
            if res = ErrServerClosed \<and> ap_waiter p = Awaiting then p else start_returns res p)"

definition process_run :: "'v ws_libs \<Rightarrow> 'v api_process \<Rightarrow> process_event list \<Rightarrow> 'v api_process" where
  "process_run L = foldl (process_step L)"

lemma process_run_simps [simp]:
  "process_run L p [] = p"
  "process_run L p (ev # evs) = process_run L (process_step L p ev) evs"
  "process_run L p (evs @ [ev]) = process_step L (process_run L p evs) ev"
  by (simp_all add: process_run_def)

lemma start_returns_simps [simp]:
  "start_returns ErrServerClosed p = p\<lparr>ap_main := Ended (Continues ()), ap_out := ap_out p @ [stopped_cleanly]\<rparr>"
  "start_returns (ListenErr e) p = p\<lparr>ap_main := Ended (ExitWith (''api server failed: ''
     @ Error (Wrap CodeInternal ''http server failed'' e)))\<rparr>"
  by (simp_all add: start_returns_def Start_server_def)

lemma ended_stays: "ap_main p \<noteq> StillRunning \<Longrightarrow> process_run L p evs = p"
  by (induction evs) (simp_all add: process_step_def)

section \<open>The end of the process\<close>

text \<open>The steps of the server among the events.\<close>

definition server_events :: "process_event list \<Rightarrow> live_event list" where
  "server_events evs = concat (map (\<lambda>ev. case ev of Serving e \<Rightarrow> [e] | _ \<Rightarrow> []) evs)"

lemma server_events_snoc [simp]:
  "server_events (evs @ [ev]) = server_events evs @ (case ev of Serving e \<Rightarrow> [e] | _ \<Rightarrow> [])"
  by (simp add: server_events_def)

lemma step_machine:
  "ap_machine (process_step L p ev) = ap_machine p
   \<or> (\<exists>e. ev = Serving e \<and> ap_machine (process_step L p ev) = live_step L (ap_machine p) e)"
  by (cases ev) (auto simp: process_step_def start_returns_def split: option.split)

lemma process_runs_are_server_runs:
  "\<exists>es. subseq es (server_events evs) \<and> ap_machine (process_run L p evs) = live_run L (ap_machine p) es"
proof (induction evs rule: rev_induct)
  case (snoc ev evs)
  then obtain es where es: "subseq es (server_events evs)"
    "ap_machine (process_run L p evs) = live_run L (ap_machine p) es" by blast
  from step_machine [of L "process_run L p evs" ev] show ?case
  proof
    assume "ap_machine (process_step L (process_run L p evs) ev) = ap_machine (process_run L p evs)"
    then show ?thesis using es by (intro exI [of _ es]) (simp add: subseq_rev_drop_many)
  next
    assume "\<exists>e. ev = Serving e \<and> ap_machine (process_step L (process_run L p evs) ev)
        = live_step L (ap_machine (process_run L p evs)) e"
    then obtain e where "ev = Serving e" "ap_machine (process_step L (process_run L p evs) ev)
        = live_step L (live_run L (ap_machine p) es) e" using es by auto
    then show ?thesis using es by (intro exI [of _ "es @ [e]"]) (simp add: live_run_def list_emb_append_mono)
  qed
qed (intro exI [of _ "[]"], simp)

text \<open>How far the goroutines have come, and the events that brought them there.\<close>

definition told :: "process_event list \<Rightarrow> 'v api_process \<Rightarrow> bool" where
  "told evs p \<longleftrightarrow>
     (if ap_main p = StillRunning
      then (ap_cancelled p \<longleftrightarrow> Signal \<in> set evs)
        \<and> (ap_waiter p \<noteq> Awaiting \<longleftrightarrow> subseq [Signal, ShutdownBegins] evs)
        \<and> \<not> subseq [Signal, ShutdownBegins, StartEnds ErrServerClosed] evs
        \<and> (\<forall>e. StartEnds (ListenErr e) \<notin> set evs)
      else (ap_main p = Ended (Continues ()) \<and> subseq [Signal, ShutdownBegins, StartEnds ErrServerClosed] evs
          \<and> ap_out p = [shutting_down, stopped_cleanly])
        \<or> (\<exists>e. StartEnds (ListenErr e) \<in> set evs \<and> ap_main p = Ended (ExitWith (''api server failed: ''
             @ Error (Wrap CodeInternal ''http server failed'' e)))))
   \<and> (ap_main p = StillRunning \<longrightarrow> ap_out p = (if ap_waiter p = Awaiting then [] else [shutting_down]))"

lemma subseq_snoc: "subseq (xs @ [x]) (ys @ [y]) \<longleftrightarrow> subseq (xs @ [x]) ys \<or> x = y \<and> subseq xs ys"
proof
  assume "subseq (xs @ [x]) (ys @ [y])"
  then obtain us vs where s: "xs @ [x] = us @ vs" "subseq us ys" "subseq vs [y]" by (auto simp: subseq_append_iff)
  then show "subseq (xs @ [x]) ys \<or> x = y \<and> subseq xs ys"
  proof (cases vs rule: rev_cases)
    case (snoc ws w)
    then have "ws = [] \<and> w = y" using s(3) by (cases ws) (auto split: if_splits dest: list_emb_length)
    then show ?thesis using s snoc by simp
  qed simp
qed (auto intro: subseq_rev_drop_many list_emb_append_mono)

lemmas told_subseq = subseq_snoc [of "[a, b]" c for a b c, simplified] subseq_snoc [of "[a]" b for a b, simplified]

lemma told_step:
  assumes "told evs p"
  shows "told (evs @ [ev]) (process_step L p ev)"
proof (cases "ap_main p = StillRunning")
  case True
  note t = assms [unfolded told_def if_P [OF True]]
  show ?thesis
  proof (cases ev)
    case (StartEnds res)
    show ?thesis
      using t True by (cases res) (auto simp: StartEnds told_def process_step_def told_subseq)
  qed (use t True in \<open>auto simp: told_def process_step_def told_subseq subseq_singleton_left\<close>)
qed (use assms in \<open>auto simp: told_def process_step_def subseq_rev_drop_many\<close>)

lemma told_run: "told evs (process_run L (launched sg) evs)"
proof (induction evs rule: rev_induct)
  case (snoc ev evs)
  then show ?case using told_step by simp
qed (simp add: told_def launched_def)

text \<open>C22: How a \<open>serve-api\<close> process ends. Whatever requests it serves: it ends without an error only
  after a signal, upon which \<open>Shutdown\<close> has been called, upon which \<open>Start\<close> has returned, and then
  always, having said that it was shutting down and that it stopped cleanly; and with an error only
  if listening failed, naming that failure. Until then it serves, and what it serves is a run of the
  server, so everything that holds of all runs holds at the end of the process too.\<close>

theorem serve_ends_when_told:
  assumes "serveAPI pe rs = Continues sg" and "process_run L (launched sg) evs = p"
  shows "(ap_main p = StillRunning \<longleftrightarrow> \<not> subseq [Signal, ShutdownBegins, StartEnds ErrServerClosed] evs
        \<and> (\<forall>e. StartEnds (ListenErr e) \<notin> set evs))
    \<and> (ap_main p = Ended (Continues ()) \<longrightarrow> subseq [Signal, ShutdownBegins, StartEnds ErrServerClosed] evs
        \<and> ap_out p = [shutting_down, stopped_cleanly])
    \<and> (\<forall>m. ap_main p = Ended (ExitWith m) \<longrightarrow> (\<exists>e. StartEnds (ListenErr e) \<in> set evs
        \<and> m = ''api server failed: '' @ Error (Wrap CodeInternal ''http server failed'' e)))
    \<and> (\<exists>es. subseq es (server_events evs) \<and> ap_machine p = live_run L (running sg) es)"
proof -
  have "ap_machine (launched sg) = running sg" by (simp add: launched_def)
  then have "\<exists>es. subseq es (server_events evs) \<and> ap_machine p = live_run L (running sg) es"
    using process_runs_are_server_runs [of evs L "launched sg"] assms(2) by simp
  then show ?thesis using told_run [of evs L sg] assms(2) unfolding told_def by (auto split: if_splits)
qed

section \<open>What a shutdown does to requests\<close>


section \<open>Witnesses\<close>

lemma serve_ends_when_told_witness:
  "\<exists>sg p es. serveAPI sample_process_env (sample_resources\<lparr>rs_jwt := sample_jwt_lib\<rparr>) = Continues sg
     \<and> process_run sample_libs (launched sg)
         [Serving (Visit sample_query), Signal, ShutdownBegins, StartEnds ErrServerClosed] = p
     \<and> ap_main p = Ended (Continues ()) \<and> ap_out p = [shutting_down, stopped_cleanly]
     \<and> ap_machine p = live_run sample_libs (running sg) es"
proof -
  let ?evs = "[Serving (Visit sample_query), Signal, ShutdownBegins, StartEnds ErrServerClosed]"
  obtain sg where sg: "serveAPI sample_process_env (sample_resources\<lparr>rs_jwt := sample_jwt_lib\<rparr>) = Continues sg"
    by (rule sample_started)
  obtain p where p: "process_run sample_libs (launched sg) ?evs = p" by blast
  then have "ap_main p = Ended (Continues ())" by (auto simp: process_step_def launched_def)
  with serve_ends_when_told [OF sg p] sg p show ?thesis by blast
qed

text \<open>A query that has passed the limiter, and has not been run.\<close>

lemma sample_query_acts:
  assumes "Jwt_lib d = sample_jwt_lib" "JWTManager d = \<lparr>secret = ''key'', ttl = Hour\<rparr>"
  obtains g where "mux_thread d (sample_env 5) None (vi_request sample_query) = Act g"
proof -
  have "\<exists>g. query_thread (sample_env 5) r = Act g" for r
    by (simp add: query_thread_def sample_env_def sample_json_def Let_def Execute_thread_def on_broker_def
        and_then_atom zoom_Act and_then_Act)
  then show thesis
    using that sample_verified assms
    by (simp add: mux_thread_def Let_def sample_query_def sample_in_def behind_guard_def Authenticate_def cut_prefix_def
        auth_env_of_def sample_env_def withIdentity_def RequireRole_def IdentityFromContext_def sample_claims_def) blast
qed

lemma sample_under_way:
  assumes "RateLimitPerMinute (sg_deps sg) = 600" "sv_limiter (sg_server sg) = newSlidingWindow 600"
    "\<not> DevCORS (sg_config sg)" "Jwt_lib (sg_deps sg) = sample_jwt_lib" "JWTManager (sg_deps sg) = \<lparr>secret = ''key'', ttl = Hour\<rparr>"
  obtains lv t where "live_step L (running sg) (Visit sample_query) = (lv, [(Request sample_query, t)])" "\<not> is_done t"
proof -
  obtain g where g: "mux_thread (sg_deps sg) (sample_env 5) None (vi_request sample_query) = Act g"
    by (rule sample_query_acts [OF assms(4,5)])
  have "fst (allow (newSlidingWindow 600) t k)" for t k
    by (simp add: allow_def newSlidingWindow_def Let_def)
  moreover have "vi_env sample_query = sample_env 5" "vi_read_err sample_query = None"
    "in_Path (vi_request sample_query) \<noteq> ws_path" by (simp_all add: sample_query_def sample_in_def ws_path_def)
  ultimately have "\<not> is_done (snd (advance (request_thread sample_query (started sg)) (started sg)))"
    using assms(1-3) g
    by (simp add: request_thread_def visit_thread_def serve_thread_def NewRouter_thread_def started_def on_server_def
        and_then_atom zoom_Act and_then_Act case_prod_beta)
  moreover obtain lv t where "advance (request_thread sample_query (started sg)) (started sg) = (lv, t)" by fastforce
  ultimately show thesis using that [of lv t] by (simp add: running_def spawn_def)
qed


end
