(* ===== verification/SupervisedRuns.thy ===== *)
theory SupervisedRuns
  imports Bootstrap
begin

text \<open>
  The running supervisor of \<open>herminas-cp run\<close>: the main goroutine in \<open>Start\<close>, in its wait for a signal and in
  \<open>Stop\<close>, the watchers of all services, and the operating system, in any order. What one of them does
  under a lock, or without looking at what the others write, is one step. \<open>Start\<close>, \<open>Stop\<close> and \<open>watch_step\<close>
  of \<open>Supervisor\<close> are what this machine is when nothing comes between, and for one service at a time.
\<close>

section \<open>The machine\<close>

text \<open>A registration with its watcher. \<open>sl_starts\<close> counts the starts of the process and so names its
  present \<open>done\<close> channel; no watcher: \<open>watchDone\<close> is nil.\<close>

record slot =
  sl_reg :: registration
  sl_starts :: nat
  sl_watch :: "watcher option"
  sl_delay :: duration

text \<open>Where the main goroutine is: about to start a process; waiting for its health until a deadline; all
  services healthy; in \<open>Stop\<close> (because of an error of \<open>Start\<close>, or of the signal) with that many
  registrations to go; there with the flag of one set and its process not yet looked at; with \<open>cmd\<close> and
  \<open>done\<close> of that start read; waiting for its watcher; at the end.\<close>

datatype main_pc =
    Launching nat
  | Gating nat time
  | UntilSignal
  | Stopping "goerr option" nat
  | Looking "goerr option" nat
  | Ending "goerr option" nat nat
  | Joining "goerr option" nat
  | Over "goerr option"

record supervised =
  su_slots :: "slot list"
  su_main :: main_pc
  su_signalled :: bool
  su_events :: "event list"

definition unsupervised :: "registration \<Rightarrow> slot" where
  "unsupervised r = \<lparr>sl_reg = r, sl_starts = 0, sl_watch = None, sl_delay = 0\<rparr>"

definition next_launch :: "nat \<Rightarrow> nat \<Rightarrow> main_pc" where
  "next_launch n i = (if i < n then Launching i else UntilSignal)"

definition supervising :: "supervisor \<Rightarrow> supervised" where
  "supervising s = \<lparr>su_slots = map unsupervised s, su_main = next_launch (length s) 0,
     su_signalled = False, su_events = []\<rparr>"

text \<open>How the command has ended, if it has.\<close>

definition run_end_of :: "main_pc \<Rightarrow> run_end" where
  "run_end_of pc =
     (case pc of
        Over (Some err) \<Rightarrow> Ended (ExitWith (''supervisor: start failed: '' @ Error err))
      | Over None \<Rightarrow> Ended (Continues ())
      | _ \<Rightarrow> StillRunning)"

abbreviation slot_of :: "supervised \<Rightarrow> nat \<Rightarrow> slot" where
  "slot_of s i \<equiv> su_slots s ! i"

abbreviation proc_of :: "supervised \<Rightarrow> nat \<Rightarrow> exec_process" where
  "proc_of s i \<equiv> rg_process (sl_reg (slot_of s i))"

definition upd_slot :: "nat \<Rightarrow> (slot \<Rightarrow> slot) \<Rightarrow> supervised \<Rightarrow> supervised" where
  "upd_slot i f s = s\<lparr>su_slots := (su_slots s)[i := f (slot_of s i)]\<rparr>"

definition upd_reg :: "(registration \<Rightarrow> registration) \<Rightarrow> slot \<Rightarrow> slot" where
  "upd_reg f sl = sl\<lparr>sl_reg := f (sl_reg sl)\<rparr>"

definition goto :: "main_pc \<Rightarrow> supervised \<Rightarrow> supervised" where
  "goto pc s = s\<lparr>su_main := pc\<rparr>"

subsection \<open>The main goroutine\<close>

text \<open>\<open>reg.process.Start\<close>, the watcher, and the clock read for the deadline.\<close>

definition main_starts :: "goerr option \<Rightarrow> time \<Rightarrow> supervised \<Rightarrow> supervised" where
  "main_starts start_err now s =
     (case su_main s of
        Launching i \<Rightarrow>
          let reg = sl_reg (slot_of s i); n = ep_name (rg_process reg) in
          (case proc_Start start_err (rg_process reg) of
             (Some e, p) \<Rightarrow> goto (Stopping (Some (Errorf_w (''start '' @ n) e)) (length (su_slots s))) s
           | (None, p) \<Rightarrow>
               (goto (Gating i (now + rg_readyTimeout reg))
                 (upd_slot i (\<lambda>sl. sl\<lparr>sl_reg := reg\<lparr>rg_process := p, rg_watched := True\<rparr>,
                    sl_starts := Suc (sl_starts sl), sl_watch := Some Waiting\<rparr>) s))
               \<lparr>su_events := su_events s @ [Started n]\<rparr>)
      | _ \<Rightarrow> s)"

text \<open>One round of \<open>awaitHealthy\<close>; the context can be done only after a signal.\<close>

definition main_polls :: "(duration \<Rightarrow> string) \<Rightarrow> poll \<Rightarrow> supervised \<Rightarrow> supervised" where
  "main_polls dur p s =
     (case su_main s of
        Gating i deadline \<Rightarrow>
          let reg = sl_reg (slot_of s i); n = ep_name (rg_process reg); all = length (su_slots s) in
          if reports_healthy (p_health p)
          then (goto (next_launch all (Suc i)) s)\<lparr>su_events := su_events s @ [Healthy n]\<rparr>
          else if p_now p > deadline
          then goto (Stopping (Some (Plain (n @ '' did not become healthy within '' @ dur (rg_readyTimeout reg)))) all) s
          else (case p_ctx p of
                  Some e \<Rightarrow> if su_signalled s then goto (Stopping (Some e) all) s else s
                | None \<Rightarrow> s)
      | _ \<Rightarrow> s)"

definition main_wakes :: "supervised \<Rightarrow> supervised" where
  "main_wakes s =
     (if su_main s = UntilSignal \<and> su_signalled s then goto (Stopping None (length (su_slots s))) s else s)"

text \<open>The next step of \<open>Stop\<close>, whose context is never done here. A process whose \<open>done\<close> channel, as
  \<open>Stop\<close> has read it, is closed is left alone; otherwise \<open>race\<close> says how it goes.\<close>

definition main_stops :: "stop_race \<Rightarrow> supervised \<Rightarrow> supervised" where
  "main_stops race s =
     (case su_main s of
        Stopping r 0 \<Rightarrow> goto (Over r) s
      | Stopping r (Suc i) \<Rightarrow> goto (Looking r i) (upd_slot i (upd_reg (\<lambda>reg. reg\<lparr>rg_stopping := True\<rparr>)) s)
      | Looking r i \<Rightarrow>
          if ep_run (proc_of s i) = NeverStarted then goto (Joining r i) s
          else goto (Ending r i (sl_starts (slot_of s i))) s
      | Ending r i g \<Rightarrow>
          if g < sl_starts (slot_of s i) \<or> \<not> is_live (proc_of s i) then goto (Joining r i) s
          else (case race of
                  ContextDone e \<Rightarrow> s
                | _ \<Rightarrow> goto (Joining r i) (upd_slot i
                    (upd_reg (\<lambda>reg. reg\<lparr>rg_process := snd (Stop_result race (rg_process reg))\<rparr>)) s))
      | Joining r i \<Rightarrow>
          if rg_watched (sl_reg (slot_of s i)) \<and> sl_watch (slot_of s i) \<noteq> Some WatchDone then s
          else goto (Stopping r i) s
      | _ \<Rightarrow> s)"

subsection \<open>Watchers and processes\<close>

text \<open>The next step of a watcher; \<open>start_err\<close>: what starting the process again gives.\<close>

definition watch_slot :: "goerr option \<Rightarrow> (f64 \<Rightarrow> int) \<Rightarrow> slot \<Rightarrow> slot" where
  "watch_slot start_err oor sl =
     (let reg = sl_reg sl; backs_off = sl\<lparr>sl_delay := next_delay oor (rg_backoff reg) (sl_delay sl)\<rparr> in
      case sl_watch sl of
        Some Waiting \<Rightarrow>
          (case proc_Wait (rg_process reg) of None \<Rightarrow> sl | Some e \<Rightarrow> sl\<lparr>sl_watch := Some Checking\<rparr>)
      | Some Checking \<Rightarrow>
          if rg_stopping reg then sl\<lparr>sl_watch := Some WatchDone\<rparr>
          else backs_off\<lparr>sl_watch := Some BackingOff\<rparr>
      | Some BackingOff \<Rightarrow>
          (case proc_Start start_err (rg_process reg) of
             (Some e, p) \<Rightarrow> backs_off
           | (None, p) \<Rightarrow> sl\<lparr>sl_reg := reg\<lparr>rg_process := p\<rparr>, sl_starts := Suc (sl_starts sl),
               sl_watch := Some Waiting\<rparr>)
      | _ \<Rightarrow> sl)"

datatype su_event =
    MainStarts "goerr option" time
  | MainPolls poll
  | Signal
  | MainWakes
  | MainStops stop_race
  | Watches nat "goerr option" "f64 \<Rightarrow> int"
  | Exits nat "goerr option"

text \<open>When \<open>main\<close> is over its goroutines are too; a process that still runs goes on without it.\<close>

fun su_step :: "(duration \<Rightarrow> string) \<Rightarrow> supervised \<Rightarrow> su_event \<Rightarrow> supervised" where
  "su_step dur s (MainStarts e now) = main_starts e now s"
| "su_step dur s (MainPolls p) = main_polls dur p s"
| "su_step dur s Signal = s\<lparr>su_signalled := True\<rparr>"
| "su_step dur s MainWakes = main_wakes s"
| "su_step dur s (MainStops race) = main_stops race s"
| "su_step dur s (Watches i e oor) =
     (if i < length (su_slots s) \<and> run_end_of (su_main s) = StillRunning then upd_slot i (watch_slot e oor) s else s)"
| "su_step dur s (Exits i e) =
     (if i < length (su_slots s) then upd_slot i (upd_reg (\<lambda>reg. reg\<lparr>rg_process := exits e (rg_process reg)\<rparr>)) s else s)"

definition su_run :: "(duration \<Rightarrow> string) \<Rightarrow> supervised \<Rightarrow> su_event list \<Rightarrow> supervised" where
  "su_run dur = foldl (su_step dur)"

lemma su_run_simps [simp]:
  "su_run dur s [] = s" "su_run dur s (ev # evs) = su_run dur (su_step dur s ev) evs"
  "su_run dur s (evs @ evs') = su_run dur (su_run dur s evs) evs'"
  by (simp_all add: su_run_def)

lemma upd_slot_simps [simp]:
  "su_main (upd_slot j f s) = su_main s"
  "j < length (su_slots s) \<Longrightarrow> slot_of (upd_slot j f s) i = (if i = j then f (slot_of s j) else slot_of s i)"
  "length (su_slots (upd_slot j f s)) = length (su_slots s)"
  by (simp_all add: upd_slot_def nth_list_update)

lemma goto_simps [simp]:
  "su_main (goto pc s) = pc" "su_slots (goto pc s) = su_slots s"
  by (simp_all add: goto_def)

section \<open>One service at a time\<close>

text \<open>How far \<open>Stop\<close> has come with registration \<open>i\<close>. A process that was seen live counts as stopped when
  it is gone, whoever sees to that; one that was seen dead counts as stopped at once.\<close>

definition stopper_at :: "main_pc \<Rightarrow> nat \<Rightarrow> slot \<Rightarrow> stopper" where
  "stopper_at pc i sl =
     (let at = (\<lambda>j here. if j < i then Returned else if j = i then here else NotCalled) in
      case pc of
        Stopping r k \<Rightarrow> if k \<le> i then Returned else NotCalled
      | Looking r j \<Rightarrow> at j Flagged
      | Ending r j g \<Rightarrow> at j (if g = sl_starts sl \<and> is_live (rg_process (sl_reg sl)) then Flagged else Awaiting)
      | Joining r j \<Rightarrow> at j Awaiting
      | Over r \<Rightarrow> Returned
      | _ \<Rightarrow> NotCalled)"

definition view :: "main_pc \<Rightarrow> nat \<Rightarrow> slot \<Rightarrow> watch_state" where
  "view pc i sl = \<lparr>w_running = is_live (rg_process (sl_reg sl)), w_watcher = the (sl_watch sl),
     w_stopping = rg_stopping (sl_reg sl), w_stopper = stopper_at pc i sl, w_delay = sl_delay sl\<rparr>"

definition slot_ok :: "main_pc \<Rightarrow> nat \<Rightarrow> slot \<Rightarrow> bool" where
  "slot_ok pc i sl \<longleftrightarrow>
     (let reg = sl_reg sl in
      (rg_stopping reg \<longleftrightarrow> stopper_at pc i sl \<noteq> NotCalled)
      \<and> (\<forall>r g. pc = Ending r i g \<longrightarrow> g \<le> sl_starts sl \<and> sl_watch sl \<noteq> None)
      \<and> (if sl_watch sl = None
         then sl_starts sl = 0 \<and> ep_run (rg_process reg) = NeverStarted \<and> \<not> rg_watched reg \<and> sl_delay sl = 0
         else ep_run (rg_process reg) \<noteq> NeverStarted \<and> rg_watched reg \<and> watched (rg_backoff reg) (view pc i sl)))"

text \<open>A step that does not concern the service, and one that is a step of its watcher or of its stop.\<close>

lemma slot_ok_elsewhere:
  assumes "slot_ok pc i sl" and "stopper_at pc' i sl = stopper_at pc i sl" and "\<And>r g. pc' = Ending r i g \<Longrightarrow> pc' = pc"
  shows "slot_ok pc' i sl"
  using assms unfolding slot_ok_def view_def Let_def by (auto split: if_splits)

lemma slot_ok_step:
  assumes "slot_ok pc i sl" "sl_watch sl \<noteq> None" and "watch_step (rg_backoff (sl_reg sl)) (view pc i sl) (view pc' i sl')"
    and "sl_watch sl' \<noteq> None" "rg_watched (sl_reg sl')" "ep_run (rg_process (sl_reg sl')) \<noteq> NeverStarted"
      "rg_backoff (sl_reg sl') = rg_backoff (sl_reg sl)"
    and "rg_stopping (sl_reg sl') \<longleftrightarrow> stopper_at pc' i sl' \<noteq> NotCalled"
    and "\<And>r g. pc' = Ending r i g \<Longrightarrow> g \<le> sl_starts sl'"
  shows "slot_ok pc' i sl'"
proof -
  have "watched (rg_backoff (sl_reg sl')) (view pc' i sl')"
    using assms(1-3,7) watched.step unfolding slot_ok_def Let_def by (auto split: if_splits)
  then show ?thesis using assms(4-9) unfolding slot_ok_def Let_def by auto
qed

lemmas view_simps = view_def stopper_at_def upd_reg_def is_live_def

lemma exits_simps [simp]:
  "rg_name (reg\<lparr>rg_process := exits e (rg_process reg)\<rparr>) = rg_name reg"
  "ep_run (exits e p) = NeverStarted \<longleftrightarrow> ep_run p = NeverStarted" "\<not> is_live (exits e p)"
  by (auto simp: exits_def rg_name_def is_live_def split: proc_run.split)

lemma stopped_simps:
  assumes "\<And>e. race \<noteq> ContextDone e" "is_live p"
  shows "\<exists>e. snd (Stop_result race p) = exits e p"
  using assms by (cases race) (auto simp: Stop_result_def proc_Stop_def is_live_def)

lemma exit_ok: "slot_ok pc i sl \<Longrightarrow> slot_ok pc i (upd_reg (\<lambda>reg. reg\<lparr>rg_process := exits e (rg_process reg)\<rparr>) sl)"
proof (cases "is_live (rg_process (sl_reg sl))")
  case False
  then have "exits e (rg_process (sl_reg sl)) = rg_process (sl_reg sl)"
    by (simp add: exits_def is_live_def split: proc_run.split)
  then show "slot_ok pc i sl \<Longrightarrow> ?thesis" by (simp add: upd_reg_def)
next
  case True
  let ?sl' = "upd_reg (\<lambda>reg. reg\<lparr>rg_process := exits e (rg_process reg)\<rparr>) sl" and ?v = "view pc i sl"
  have "view pc i ?sl' = ?v\<lparr>w_running := False\<rparr>
      \<or> w_stopper ?v = Flagged \<and> view pc i ?sl' = ?v\<lparr>w_running := False, w_stopper := Awaiting\<rparr>"
    using True by (cases pc) (auto simp: view_def stopper_at_def upd_reg_def)
  moreover have "w_running ?v" using True by (simp add: view_def)
  ultimately have st: "watch_step b ?v (view pc i ?sl')" for b
    by (auto intro: watch_step.process_exits watch_step.stop_process)
  assume ok: "slot_ok pc i sl"
  then have w: "sl_watch sl \<noteq> None" using True by (cases "sl_watch sl = None") (simp_all add: slot_ok_def Let_def is_live_def)
  show ?thesis
    by (rule slot_ok_step [OF ok w st])
      (use ok w True in \<open>cases pc; auto simp: slot_ok_def Let_def upd_reg_def stopper_at_def is_live_def split: if_splits\<close>)+
qed

lemma stopper_same:
  "rg_process (sl_reg sl') = rg_process (sl_reg sl) \<Longrightarrow> sl_starts sl' = sl_starts sl \<Longrightarrow> stopper_at pc i sl' = stopper_at pc i sl"
  by (cases pc) (simp_all add: stopper_at_def)

lemma watcher_step_ok:
  assumes "slot_ok pc i sl" "sl_watch sl \<noteq> None" and "watch_step (rg_backoff (sl_reg sl)) (view pc i sl) (view pc i sl')"
    and "sl_watch sl' \<noteq> None" "ep_run (rg_process (sl_reg sl')) \<noteq> NeverStarted"
    and "\<And>p. (sl_reg sl')\<lparr>rg_process := p\<rparr> = (sl_reg sl)\<lparr>rg_process := p\<rparr>"
    and "stopper_at pc i sl' = stopper_at pc i sl" "sl_starts sl \<le> sl_starts sl'"
  shows "slot_ok pc i sl'"
proof -
  have same: "rg_watched (sl_reg sl') = rg_watched (sl_reg sl)" "rg_backoff (sl_reg sl') = rg_backoff (sl_reg sl)"
    "rg_stopping (sl_reg sl') = rg_stopping (sl_reg sl)"
    using assms(6) [of "rg_process (sl_reg sl)"] by (cases "sl_reg sl"; cases "sl_reg sl'"; simp)+
  show ?thesis
    by (rule slot_ok_step [OF assms(1-4)]) (use assms same in \<open>fastforce simp: slot_ok_def Let_def\<close>)+
qed

lemma watched_slot:
  assumes "slot_ok pc i sl" "sl_watch sl = Some w"
  shows "ep_run (rg_process (sl_reg sl)) \<noteq> NeverStarted"
    and "watched (rg_backoff (sl_reg sl)) (view pc i sl)" "\<And>r g. pc = Ending r i g \<Longrightarrow> g \<le> sl_starts sl"
  using assms by (auto simp: slot_ok_def Let_def)

text \<open>A watcher that waits, one that has seen the exit, and one that restarts.\<close>

lemma waiting_ok:
  assumes ok: "slot_ok pc i sl" and w: "sl_watch sl = Some Waiting"
  shows "slot_ok pc i (watch_slot e oor sl)"
proof (cases "proc_Wait (rg_process (sl_reg sl))")
  case None
  then show ?thesis using ok w by (simp add: watch_slot_def)
next
  case (Some err)
  let ?sl' = "sl\<lparr>sl_watch := Some Checking\<rparr>"
  have dead: "\<not> is_live (rg_process (sl_reg sl))" using Some ep.waits [of "rg_process (sl_reg sl)"] by simp
  have st: "stopper_at pc i ?sl' = stopper_at pc i sl" by (rule stopper_same) simp_all
  then have v: "view pc i ?sl' = (view pc i sl)\<lparr>w_watcher := Checking\<rparr>" by (simp add: view_def)
  have "slot_ok pc i ?sl'"
  proof (rule watcher_step_ok [OF ok])
    show "watch_step (rg_backoff (sl_reg sl)) (view pc i sl) (view pc i ?sl')"
      unfolding v by (rule watch_step.wait_returns) (use w dead in \<open>simp_all add: view_def\<close>)
  qed (use w st watched_slot(1) [OF ok w] in simp_all)
  then show ?thesis using w Some by (simp add: watch_slot_def)
qed

lemma checking_ok:
  assumes ok: "slot_ok pc i sl" and w: "sl_watch sl = Some Checking"
  shows "slot_ok pc i (watch_slot e oor sl)"
proof -
  let ?b = "rg_backoff (sl_reg sl)"
  let ?sl' = "if rg_stopping (sl_reg sl) then sl\<lparr>sl_watch := Some WatchDone\<rparr>
    else sl\<lparr>sl_delay := next_delay oor ?b (sl_delay sl), sl_watch := Some BackingOff\<rparr>"
  have st: "stopper_at pc i ?sl' = stopper_at pc i sl" by (rule stopper_same) simp_all
  have "slot_ok pc i ?sl'"
  proof (rule watcher_step_ok [OF ok])
    have "view pc i ?sl' = (if w_stopping (view pc i sl) then (view pc i sl)\<lparr>w_watcher := WatchDone\<rparr>
      else (view pc i sl)\<lparr>w_watcher := BackingOff, w_delay := next_delay oor ?b (w_delay (view pc i sl))\<rparr>)"
      using st by (simp add: view_def)
    moreover have "w_watcher (view pc i sl) = Checking" using w by (simp add: view_def)
    ultimately show "watch_step ?b (view pc i sl) (view pc i ?sl')"
      by (auto intro: watch_step.watch_ends watch_step.back_off)
  qed (use w st watched_slot(1) [OF ok w] in simp_all)
  then show ?thesis using w by (simp add: watch_slot_def Let_def split: if_splits)
qed

lemma backing_off_ok:
  assumes ok: "slot_ok pc i sl" and w: "sl_watch sl = Some BackingOff"
  shows "slot_ok pc i (watch_slot e oor sl)"
proof -
  let ?b = "rg_backoff (sl_reg sl)" and ?v = "view pc i sl" and ?reg = "sl_reg sl"
  have v: "w_watcher ?v = BackingOff" using w by (simp add: view_def)
  show ?thesis
  proof (cases e)
    case None
    let ?sl' = "sl\<lparr>sl_reg := ?reg\<lparr>rg_process := (rg_process ?reg)\<lparr>ep_run := Live\<rparr>\<rparr>,
      sl_starts := Suc (sl_starts sl), sl_watch := Some Waiting\<rparr>"
    have "\<not> is_live (rg_process ?reg)"
      using watched_inv [OF watched_slot(2) [OF ok w]] v by (auto simp: watch_inv_def view_def)
    then have st: "stopper_at pc i ?sl' = stopper_at pc i sl"
      using watched_slot(3) [OF ok w] by (cases pc) (auto simp: stopper_at_def is_live_def)
    then have v': "view pc i ?sl' = ?v\<lparr>w_watcher := Waiting, w_running := True\<rparr>" by (simp add: view_def is_live_def)
    have "slot_ok pc i ?sl'"
    proof (rule watcher_step_ok [OF ok])
      show "watch_step ?b ?v (view pc i ?sl')" unfolding v' using v by (rule watch_step.restart)
    qed (use w st in simp_all)
    then show ?thesis using w None by (simp add: watch_slot_def Let_def proc_Start_def)
  next
    case (Some err)
    let ?sl' = "sl\<lparr>sl_delay := next_delay oor ?b (sl_delay sl)\<rparr>"
    have st: "stopper_at pc i ?sl' = stopper_at pc i sl" by (rule stopper_same) simp_all
    then have v': "view pc i ?sl' = ?v\<lparr>w_delay := next_delay oor ?b (w_delay ?v)\<rparr>" by (simp add: view_def)
    have "slot_ok pc i ?sl'"
    proof (rule watcher_step_ok [OF ok])
      show "watch_step ?b ?v (view pc i ?sl')" unfolding v' using v by (rule watch_step.restart_fails)
    qed (use w st watched_slot(1) [OF ok w] in simp_all)
    then show ?thesis using w Some by (simp add: watch_slot_def Let_def proc_Start_def)
  qed
qed

lemma watch_ok:
  assumes "slot_ok pc i sl"
  shows "slot_ok pc i (watch_slot e oor sl)"
proof (cases "sl_watch sl")
  case (Some w)
  then show ?thesis using assms waiting_ok checking_ok backing_off_ok by (cases w) (auto simp: watch_slot_def)
qed (use assms in \<open>simp add: watch_slot_def\<close>)

text \<open>The steps of \<open>Stop\<close>, and the start of a process.\<close>

lemma flag_ok:
  assumes ok: "slot_ok (Stopping r (Suc i)) i sl"
  shows "slot_ok (Looking r i) i (upd_reg (\<lambda>reg. reg\<lparr>rg_stopping := True\<rparr>) sl)"
proof (cases "sl_watch sl = None")
  case False
  let ?v = "view (Stopping r (Suc i)) i sl"
  have "view (Looking r i) i (upd_reg (\<lambda>reg. reg\<lparr>rg_stopping := True\<rparr>) sl) = ?v\<lparr>w_stopping := True, w_stopper := Flagged\<rparr>"
    "w_stopper ?v = NotCalled" by (simp_all add: view_simps)
  then have "watch_step b ?v (view (Looking r i) i (upd_reg (\<lambda>reg. reg\<lparr>rg_stopping := True\<rparr>) sl))" for b
    by (simp add: watch_step.stop_flag)
  then show ?thesis
    using ok False by (intro slot_ok_step [OF ok]) (auto simp: slot_ok_def Let_def upd_reg_def stopper_at_def)
qed (use ok in \<open>simp add: slot_ok_def Let_def stopper_at_def upd_reg_def\<close>)

lemma look_ok:
  assumes ok: "slot_ok (Looking r i) i sl"
  shows "slot_ok (if ep_run (rg_process (sl_reg sl)) = NeverStarted then Joining r i else Ending r i (sl_starts sl)) i sl"
proof (cases "sl_watch sl = None")
  case False
  let ?v = "view (Looking r i) i sl" and ?pc = "Ending r i (sl_starts sl)"
  have run: "ep_run (rg_process (sl_reg sl)) \<noteq> NeverStarted" using ok False by (simp add: slot_ok_def Let_def)
  show ?thesis
  proof (cases "is_live (rg_process (sl_reg sl))")
    case True
    then have "stopper_at ?pc i sl = stopper_at (Looking r i) i sl" "view ?pc i sl = ?v" by (simp_all add: view_simps)
    then have "slot_ok ?pc i sl" using ok run False unfolding slot_ok_def Let_def by simp
    then show ?thesis using run by simp
  next
    case dead: False
    then have "view ?pc i sl = ?v\<lparr>w_running := False, w_stopper := Awaiting\<rparr>" "w_stopper ?v = Flagged"
      by (simp_all add: view_simps)
    then have "watch_step b ?v (view ?pc i sl)" for b by (simp add: watch_step.stop_process)
    then have "slot_ok ?pc i sl"
      using ok False run by (intro slot_ok_step [OF ok]) (auto simp: slot_ok_def Let_def stopper_at_def)
    then show ?thesis using run by simp
  qed
qed (use ok in \<open>simp add: slot_ok_def Let_def stopper_at_def\<close>)

lemma gone_ok:
  assumes ok: "slot_ok (Ending r i g) i sl" and "g < sl_starts sl \<or> \<not> is_live (rg_process (sl_reg sl))"
  shows "slot_ok (Joining r i) i sl"
proof (rule slot_ok_elsewhere [OF ok])
  show "stopper_at (Joining r i) i sl = stopper_at (Ending r i g) i sl" using assms(2) by (auto simp: stopper_at_def)
qed simp

lemma end_ok:
  assumes ok: "slot_ok (Ending r i g) i sl" and here: "\<not> g < sl_starts sl" "is_live (rg_process (sl_reg sl))"
    and race: "\<And>e. race \<noteq> ContextDone e"
  shows "slot_ok (Joining r i) i (upd_reg (\<lambda>reg. reg\<lparr>rg_process := snd (Stop_result race (rg_process reg))\<rparr>) sl)"
proof -
  obtain e where "snd (Stop_result race (rg_process (sl_reg sl))) = exits e (rg_process (sl_reg sl))"
    using stopped_simps [OF race here(2)] by blast
  then have sl': "upd_reg (\<lambda>reg. reg\<lparr>rg_process := snd (Stop_result race (rg_process reg))\<rparr>) sl
      = upd_reg (\<lambda>reg. reg\<lparr>rg_process := exits e (rg_process reg)\<rparr>) sl" by (simp add: upd_reg_def)
  show ?thesis unfolding sl' by (rule gone_ok [OF exit_ok [OF ok]]) (simp add: upd_reg_def)
qed

lemma joined_ok:
  assumes ok: "slot_ok (Joining r i) i sl" and "\<not> (rg_watched (sl_reg sl) \<and> sl_watch sl \<noteq> Some WatchDone)"
  shows "slot_ok (Stopping r i) i sl"
proof (cases "sl_watch sl = None")
  case False
  let ?v = "view (Joining r i) i sl"
  have over: "sl_watch sl = Some WatchDone" using assms False by (simp add: slot_ok_def Let_def)
  then have "view (Stopping r i) i sl = ?v\<lparr>w_stopper := Returned\<rparr>" "w_stopper ?v = Awaiting" "w_watcher ?v = WatchDone"
    by (simp_all add: view_simps)
  then have "watch_step b ?v (view (Stopping r i) i sl)" for b by (simp add: watch_step.stop_returns)
  then show ?thesis
    using ok False by (intro slot_ok_step [OF ok]) (auto simp: slot_ok_def Let_def stopper_at_def)
qed (use ok in \<open>simp add: slot_ok_def Let_def stopper_at_def\<close>)

lemma launch_ok:
  assumes ok: "slot_ok (Launching i) i sl" and "sl_watch sl = None" and "proc_Start e (rg_process (sl_reg sl)) = (None, p)"
  shows "slot_ok (Gating i t) i (sl\<lparr>sl_reg := (sl_reg sl)\<lparr>rg_process := p, rg_watched := True\<rparr>,
    sl_starts := Suc (sl_starts sl), sl_watch := Some Waiting\<rparr>)"
proof -
  have p: "ep_run p = Live" using proc_Start_cases [OF assms(3)] by (simp add: is_live_def)
  have facts: "\<not> rg_stopping (sl_reg sl)" "sl_delay sl = 0"
    using ok assms(2) by (simp_all add: slot_ok_def Let_def stopper_at_def)
  then have "view (Gating i t) i (sl\<lparr>sl_reg := (sl_reg sl)\<lparr>rg_process := p, rg_watched := True\<rparr>,
      sl_starts := Suc (sl_starts sl), sl_watch := Some Waiting\<rparr>) = watch_init"
    using p by (simp add: view_simps watch_init_def)
  then show ?thesis using p facts by (simp add: slot_ok_def Let_def watched.start) (simp add: stopper_at_def)
qed

section \<open>What holds of every run\<close>

text \<open>The first \<open>k\<close> processes have been launched, with the first \<open>m\<close> of the events of a full start.\<close>

definition progress :: "supervisor \<Rightarrow> nat \<Rightarrow> nat \<Rightarrow> supervised \<Rightarrow> bool" where
  "progress S k m s \<longleftrightarrow> k \<le> length S \<and> 2 * k \<le> Suc m \<and> su_events s = take m (full_start S)
     \<and> (\<forall>j<length S. sl_watch (slot_of s j) = None \<longleftrightarrow> k \<le> j)"

fun pc_ok :: "supervisor \<Rightarrow> main_pc \<Rightarrow> supervised \<Rightarrow> bool" where
  "pc_ok S (Launching i) s \<longleftrightarrow> i < length S \<and> progress S i (2 * i) s"
| "pc_ok S (Gating i t) s \<longleftrightarrow> i < length S \<and> progress S (Suc i) (Suc (2 * i)) s"
| "pc_ok S UntilSignal s \<longleftrightarrow> progress S (length S) (2 * length S) s"
| "pc_ok S (Stopping r k) s \<longleftrightarrow> k \<le> length S \<and> (\<exists>k m. progress S k m s)"
| "pc_ok S (Looking r i) s \<longleftrightarrow> i < length S \<and> (\<exists>k m. progress S k m s)"
| "pc_ok S (Ending r i g) s \<longleftrightarrow> i < length S \<and> (\<exists>k m. progress S k m s)"
| "pc_ok S (Joining r i) s \<longleftrightarrow> i < length S \<and> (\<exists>k m. progress S k m s)"
| "pc_ok S (Over r) s \<longleftrightarrow> (\<exists>k m. progress S k m s)"

definition su_inv :: "supervisor \<Rightarrow> supervised \<Rightarrow> bool" where
  "su_inv S s \<longleftrightarrow> map (\<lambda>sl. rg_name (sl_reg sl)) (su_slots s) = map rg_name S
     \<and> (\<forall>i<length S. slot_ok (su_main s) i (slot_of s i)) \<and> pc_ok S (su_main s) s"

text \<open>A registry as \<open>Register\<close> makes it.\<close>

definition fresh :: "supervisor \<Rightarrow> bool" where
  "fresh S \<longleftrightarrow> (\<forall>r\<in>set S. ep_run (rg_process r) = NeverStarted \<and> \<not> rg_stopping r \<and> \<not> rg_watched r)"

lemma su_inv_length: "su_inv S s \<Longrightarrow> length (su_slots s) = length S"
  unfolding su_inv_def by (metis length_map)

lemma su_inv_start:
  assumes "fresh S"
  shows "su_inv S (supervising S)"
proof -
  have "slot_ok pc i (unsupervised (S ! i))" if "i < length S" "pc = Launching 0 \<or> pc = UntilSignal" for i pc
    using assms that nth_mem [OF that(1)] by (auto simp: fresh_def slot_ok_def unsupervised_def stopper_at_def)
  then have "\<forall>i<length S. slot_ok (su_main (supervising S)) i (slot_of (supervising S) i)"
    by (simp add: supervising_def next_launch_def)
  moreover have "pc_ok S (su_main (supervising S)) (supervising S)"
    by (auto simp: supervising_def next_launch_def progress_def unsupervised_def)
  ultimately show ?thesis by (simp add: su_inv_def supervising_def unsupervised_def o_def)
qed

lemma map_upd_same: "map g xs = ys \<Longrightarrow> g x = g (xs ! i) \<Longrightarrow> map g (xs[i := x]) = ys"
  by (cases "i < length xs") (auto simp: map_update list_update_same_conv not_less list_update_beyond)

text \<open>A step changes the slot of at most one service, and may move the main goroutine on.\<close>

lemma su_inv_upd:
  assumes inv: "su_inv S s" and j: "j < length S" and pc: "pc_ok S pc' (upd_slot j f s)"
    and f: "rg_name (sl_reg (f (slot_of s j))) = rg_name (sl_reg (slot_of s j))" "slot_ok pc' j (f (slot_of s j))"
    and others: "\<And>i sl. i \<noteq> j \<Longrightarrow> stopper_at pc' i sl = stopper_at (su_main s) i sl" "\<And>i r g. i \<noteq> j \<Longrightarrow> pc' = Ending r i g \<Longrightarrow> pc' = su_main s"
  shows "su_inv S (goto pc' (upd_slot j f s))"
proof -
  note len = su_inv_length [OF inv]
  have "slot_ok pc' i ((su_slots s)[j := f (slot_of s j)] ! i)" if "i < length S" for i
    using that f(2) slot_ok_elsewhere [OF _ others(1) others(2)] inv len by (cases "i = j") (auto simp: su_inv_def)
  moreover have "map (\<lambda>sl. rg_name (sl_reg sl)) ((su_slots s)[j := f (slot_of s j)]) = map rg_name S"
    using inv f(1) by (intro map_upd_same) (simp_all add: su_inv_def)
  moreover have "pc_ok S pc' (goto pc' (upd_slot j f s))"
    using pc by (cases pc') (simp_all add: goto_def progress_def)
  ultimately show ?thesis by (simp add: su_inv_def upd_slot_def goto_def)
qed

lemma su_inv_goto:
  assumes inv: "su_inv S s" and j: "j < length S" and "pc_ok S pc' s" and "slot_ok pc' j (slot_of s j)"
    and "\<And>i sl. i \<noteq> j \<Longrightarrow> stopper_at pc' i sl = stopper_at (su_main s) i sl" "\<And>i r g. i \<noteq> j \<Longrightarrow> pc' = Ending r i g \<Longrightarrow> pc' = su_main s"
  shows "su_inv S (goto pc' s)"
  using su_inv_upd [OF inv j, of pc' "\<lambda>sl. sl"] assms(3-6) by (simp add: upd_slot_def)

lemma su_inv_goto_all:
  assumes inv: "su_inv S s" and "pc_ok S pc' s"
    and "\<And>i sl. i < length S \<Longrightarrow> stopper_at pc' i sl = stopper_at (su_main s) i sl" "\<And>i r g. pc' \<noteq> Ending r i g"
  shows "su_inv S (goto pc' s)"
proof -
  have "slot_ok pc' i (slot_of s i)" if "i < length S" for i
  proof (rule slot_ok_elsewhere)
    show "slot_ok (su_main s) i (slot_of s i)" using inv that by (simp add: su_inv_def)
  qed (use assms(3) [OF that] assms(4) in blast)+
  moreover have "pc_ok S pc' (goto pc' s)"
    using assms(2) by (cases pc') (simp_all add: goto_def progress_def)
  ultimately show ?thesis using inv by (simp add: su_inv_def goto_def)
qed

lemma progress_upd:
  assumes "progress S k m s" and len: "length (su_slots s) = length S"
    and "sl_watch (f (slot_of s j)) = None \<longleftrightarrow> sl_watch (slot_of s j) = None"
  shows "progress S k m (upd_slot j f s)"
proof -
  have "sl_watch ((su_slots s)[j := f (slot_of s j)] ! i) = None \<longleftrightarrow> sl_watch (slot_of s i) = None"
    if "i < length S" for i
    using that assms(3) len by (cases "i = j") simp_all
  then show ?thesis using assms(1) unfolding progress_def upd_slot_def by simp
qed

lemma pc_ok_upd:
  assumes "pc_ok S pc s" "length (su_slots s) = length S"
    and "sl_watch (f (slot_of s j)) = None \<longleftrightarrow> sl_watch (slot_of s j) = None"
  shows "pc_ok S pc (upd_slot j f s)"
proof -
  have "progress S k m s \<Longrightarrow> progress S k m (upd_slot j f s)" for k m
    by (rule progress_upd) (use assms(2,3) in simp_all)
  then show ?thesis using assms(1) by (cases pc) auto
qed

lemma su_inv_slot:
  assumes inv: "su_inv S s" and "rg_name (sl_reg (f (slot_of s j))) = rg_name (sl_reg (slot_of s j))"
    and "j < length S" "slot_ok (su_main s) j (slot_of s j) \<Longrightarrow> slot_ok (su_main s) j (f (slot_of s j))"
    and "sl_watch (f (slot_of s j)) = None \<longleftrightarrow> sl_watch (slot_of s j) = None"
  shows "su_inv S (upd_slot j f s)"
proof -
  have "pc_ok S (su_main s) (upd_slot j f s)"
    by (rule pc_ok_upd) (use inv su_inv_length [OF inv] assms(5) in \<open>simp_all add: su_inv_def\<close>)
  then have "su_inv S (goto (su_main s) (upd_slot j f s))"
    by (rule su_inv_upd [OF inv assms(3)])
      (use inv assms in \<open>auto simp: su_inv_def\<close>)
  then show ?thesis by (simp add: goto_def upd_slot_def)
qed

lemma full_start_length [simp]: "length (full_start S) = 2 * length S"
  by (induction S) (simp_all add: full_start_def)

lemma full_start_nth:
  "i < length S \<Longrightarrow> full_start S ! (2 * i) = Started (rg_name (S ! i))"
  "i < length S \<Longrightarrow> full_start S ! Suc (2 * i) = Healthy (rg_name (S ! i))"
  by (induction S arbitrary: i) (auto simp: full_start_def nth_Cons split: nat.split)

lemma take_full_start:
  "i < length S \<Longrightarrow> take (2 * i) (full_start S) @ [Started (rg_name (S ! i))] = take (Suc (2 * i)) (full_start S)"
  "i < length S \<Longrightarrow> take (Suc (2 * i)) (full_start S) @ [Healthy (rg_name (S ! i))] = take (2 * Suc i) (full_start S)"
  by (simp_all add: take_Suc_conv_app_nth full_start_nth)

lemma su_inv_name: "su_inv S s \<Longrightarrow> i < length S \<Longrightarrow> ep_name (proc_of s i) = rg_name (S ! i)"
  unfolding su_inv_def rg_name_def by (metis (mono_tags, lifting) length_map nth_map)

lemma su_inv_parts:
  assumes "su_inv S s"
  shows "pc_ok S (su_main s) s" "i < length S \<Longrightarrow> slot_ok (su_main s) i (slot_of s i)"
  using assms by (simp_all add: su_inv_def)

lemma flags_inv:
  assumes inv: "su_inv S s" and pc: "su_main s = Stopping r k"
  shows "su_inv S (main_stops race s)"
proof (cases k)
  case 0
  have "su_inv S (goto (Over r) s)"
    by (rule su_inv_goto_all [OF inv]) (use su_inv_parts(1) [OF inv] pc 0 in \<open>simp_all add: stopper_at_def\<close>)
  then show ?thesis using pc 0 by (simp add: main_stops_def)
next
  case (Suc i)
  then have i: "i < length S" using su_inv_parts(1) [OF inv] pc by simp
  let ?f = "upd_reg (\<lambda>reg. reg\<lparr>rg_stopping := True\<rparr>)"
  have "su_inv S (goto (Looking r i) (upd_slot i ?f s))"
  proof (rule su_inv_upd [OF inv i])
    show "pc_ok S (Looking r i) (upd_slot i ?f s)"
      using pc_ok_upd [OF su_inv_parts(1) [OF inv] su_inv_length [OF inv], of ?f i] i pc by (simp add: upd_reg_def)
    show "slot_ok (Looking r i) i (?f (slot_of s i))"
      by (rule flag_ok) (use su_inv_parts(2) [OF inv i] pc Suc in simp)
  qed (use pc Suc in \<open>auto simp: upd_reg_def rg_name_def stopper_at_def\<close>)
  then show ?thesis using pc Suc by (simp add: main_stops_def)
qed

lemma ends_inv:
  assumes inv: "su_inv S s" and pc: "su_main s = Ending r i g"
  shows "su_inv S (main_stops race s)"
proof -
  have i: "i < length S" using su_inv_parts(1) [OF inv] pc by simp
  note here = su_inv_parts(2) [OF inv i, unfolded pc]
  consider (gone) "g < sl_starts (slot_of s i) \<or> \<not> is_live (proc_of s i)" | (waits) e where "race = ContextDone e"
    | (ends) "\<not> g < sl_starts (slot_of s i)" "is_live (proc_of s i)" "\<nexists>e. race = ContextDone e" by blast
  then show ?thesis
  proof cases
    case gone
    have "su_inv S (goto (Joining r i) s)"
      by (rule su_inv_goto [OF inv i])
        (use su_inv_parts(1) [OF inv] gone_ok [OF here gone] pc in \<open>auto simp: stopper_at_def\<close>)
    then show ?thesis using pc gone by (simp add: main_stops_def)
  next
    case ends
    let ?f = "upd_reg (\<lambda>reg. reg\<lparr>rg_process := snd (Stop_result race (rg_process reg))\<rparr>)"
    obtain e where e: "snd (Stop_result race (proc_of s i)) = exits e (proc_of s i)"
      using stopped_simps [of race "proc_of s i"] ends by blast
    have "su_inv S (goto (Joining r i) (upd_slot i ?f s))"
    proof (rule su_inv_upd [OF inv i])
      show "pc_ok S (Joining r i) (upd_slot i ?f s)"
        using pc_ok_upd [OF su_inv_parts(1) [OF inv] su_inv_length [OF inv], of ?f i] i pc by (simp add: upd_reg_def)
      show "slot_ok (Joining r i) i (?f (slot_of s i))" by (rule end_ok [OF here]) (use ends in auto)
    qed (use pc e in \<open>auto simp: upd_reg_def stopper_at_def\<close>)
    then show ?thesis using pc ends by (cases race) (simp_all add: main_stops_def)
  next
    case waits
    then show ?thesis using pc inv here su_inv_goto [OF inv i, of "Joining r i"] su_inv_parts(1) [OF inv] gone_ok [OF here]
      by (auto simp: main_stops_def stopper_at_def)
  qed
qed

lemma main_stops_inv:
  assumes inv: "su_inv S s"
  shows "su_inv S (main_stops race s)"
proof (cases "su_main s")
  case (Looking r i)
  let ?pc = "if ep_run (proc_of s i) = NeverStarted then Joining r i else Ending r i (sl_starts (slot_of s i))"
  have i: "i < length S" using su_inv_parts(1) [OF inv] Looking by simp
  have "su_inv S (goto ?pc s)"
    by (rule su_inv_goto [OF inv i])
      (use su_inv_parts [OF inv] look_ok [of r i "slot_of s i"] i Looking in \<open>auto simp: stopper_at_def split: if_splits\<close>)
  then show ?thesis using Looking by (simp add: main_stops_def split: if_splits)
next
  case (Joining r i)
  then have i: "i < length S" using su_inv_parts(1) [OF inv] by simp
  show ?thesis
  proof (cases "rg_watched (sl_reg (slot_of s i)) \<and> sl_watch (slot_of s i) \<noteq> Some WatchDone")
    case False
    have "su_inv S (goto (Stopping r i) s)"
      by (rule su_inv_goto [OF inv i])
        (use su_inv_parts(1) [OF inv] i joined_ok [OF su_inv_parts(2) [OF inv i, unfolded Joining] False] Joining
          in \<open>auto simp: stopper_at_def\<close>)
    then show ?thesis using Joining False by (auto simp: main_stops_def)
  qed (use Joining inv in \<open>simp add: main_stops_def\<close>)
qed (use inv flags_inv ends_inv in \<open>simp_all add: main_stops_def\<close>)

lemma main_starts_inv:
  assumes inv: "su_inv S s"
  shows "su_inv S (main_starts e now s)"
proof (cases "su_main s")
  case (Launching i)
  have pc: "i < length S" "progress S i (2 * i) s" using inv Launching by (simp_all add: su_inv_def)
  let ?sl = "slot_of s i"
  have none: "sl_watch ?sl = None" using pc by (simp add: progress_def)
  note len = su_inv_length [OF inv]
  obtain err p where st: "proc_Start e (rg_process (sl_reg ?sl)) = (err, p)" by fastforce
  show ?thesis
  proof (cases err)
    case (Some x)
    have "su_inv S (goto (Stopping r (length S)) s)" for r
      by (rule su_inv_goto_all [OF inv]) (use pc Launching in \<open>auto simp: stopper_at_def\<close>)
    then show ?thesis using Launching st Some len by (simp add: main_starts_def)
  next
    case None
    let ?f = "\<lambda>sl. sl\<lparr>sl_reg := (sl_reg ?sl)\<lparr>rg_process := p, rg_watched := True\<rparr>,
      sl_starts := Suc (sl_starts sl), sl_watch := Some Waiting\<rparr>"
    let ?t = "now + rg_readyTimeout (sl_reg ?sl)" and ?n = "ep_name (rg_process (sl_reg ?sl))"
    have ok: "slot_ok (Launching i) i ?sl" using inv pc Launching by (simp add: su_inv_def)
    have s2: "su_inv S ((goto (Gating i ?t) (upd_slot i ?f s))\<lparr>su_events := su_events s @ [Started ?n]\<rparr>)"
    proof -
      have "su_events s @ [Started ?n] = take (Suc (2 * i)) (full_start S)"
        using pc su_inv_name [OF inv pc(1)] take_full_start(1) by (simp add: progress_def)
      moreover have "sl_watch ((su_slots s)[i := ?f ?sl] ! j) = None \<longleftrightarrow> Suc i \<le> j" if "j < length S" for j
        using that pc len by (cases "j = i") (auto simp: progress_def)
      ultimately have "pc_ok S (Gating i ?t) ((goto (Gating i ?t) (upd_slot i ?f s))\<lparr>su_events := su_events s @ [Started ?n]\<rparr>)"
        using pc(1) by (simp add: progress_def upd_slot_def goto_def)
      moreover have "slot_ok (Gating i ?t) j ((su_slots s)[i := ?f ?sl] ! j)" if "j < length S" for j
      proof (cases "j = i")
        case True
        then show ?thesis using launch_ok [OF ok none] st None len pc by simp
      next
        case False
        show ?thesis
          by (rule slot_ok_elsewhere [where pc = "su_main s"]) (use inv that False Launching in \<open>auto simp: su_inv_def stopper_at_def\<close>)
      qed
      moreover have "map (\<lambda>sl. rg_name (sl_reg sl)) ((su_slots s)[i := ?f ?sl]) = map rg_name S"
      proof -
        have "rg_name (sl_reg (?f ?sl)) = rg_name (sl_reg ?sl)" using proc_Start_cases [OF st] None by (simp add: rg_name_def)
        then show ?thesis using inv by (intro map_upd_same) (simp_all add: su_inv_def)
      qed
      ultimately show ?thesis by (simp add: su_inv_def upd_slot_def goto_def)
    qed
    then show ?thesis
      using Launching st None by (simp add: main_starts_def Let_def)
  qed
qed (use inv in \<open>simp_all add: main_starts_def\<close>)

lemma main_polls_inv:
  assumes inv: "su_inv S s"
  shows "su_inv S (main_polls dur p s)"
proof (cases "su_main s")
  case (Gating i t)
  have pc: "i < length S" "progress S (Suc i) (Suc (2 * i)) s" using inv Gating by (simp_all add: su_inv_def)
  note len = su_inv_length [OF inv]
  let ?n = "ep_name (rg_process (sl_reg (slot_of s i)))" and ?pc = "next_launch (length S) (Suc i)"
  have "su_inv S (goto (Stopping r (length S)) s)" for r
    by (rule su_inv_goto_all [OF inv]) (use pc Gating in \<open>auto simp: stopper_at_def\<close>)
  moreover have "su_inv S ((goto ?pc s)\<lparr>su_events := su_events s @ [Healthy ?n]\<rparr>)"
  proof -
    have "su_events s @ [Healthy ?n] = take (2 * Suc i) (full_start S)"
      using pc su_inv_name [OF inv pc(1)] take_full_start(2) by (simp add: progress_def)
    then have "progress S (Suc i) (2 * Suc i) ((goto ?pc s)\<lparr>su_events := su_events s @ [Healthy ?n]\<rparr>)"
      using pc by (simp add: progress_def goto_def)
    then have "pc_ok S ?pc ((goto ?pc s)\<lparr>su_events := su_events s @ [Healthy ?n]\<rparr>)"
    proof (cases "Suc i < length S")
      case False
      then have "length S = Suc i" using pc(1) by simp
      then show "progress S (Suc i) (2 * Suc i) ((goto ?pc s)\<lparr>su_events := su_events s @ [Healthy ?n]\<rparr>) \<Longrightarrow> ?thesis"
        by (simp only: next_launch_def if_False less_irrefl pc_ok.simps)
    qed (simp add: next_launch_def)
    moreover have "slot_ok ?pc j (slot_of s j)" if "j < length S" for j
      by (rule slot_ok_elsewhere [where pc = "su_main s"])
        (use inv that Gating in \<open>auto simp: su_inv_def stopper_at_def next_launch_def split: if_splits\<close>)
    ultimately show ?thesis using inv by (simp add: su_inv_def goto_def)
  qed
  ultimately show ?thesis
    using Gating len inv by (auto simp: main_polls_def Let_def split: option.split)
qed (use inv in \<open>simp_all add: main_polls_def\<close>)

lemma main_wakes_inv:
  assumes inv: "su_inv S s"
  shows "su_inv S (main_wakes s)"
proof (cases "su_main s = UntilSignal")
  case True
  have "su_inv S (goto (Stopping None (length S)) s)"
    by (rule su_inv_goto_all [OF inv]) (use inv True in \<open>auto simp: su_inv_def stopper_at_def\<close>)
  then show ?thesis using inv True su_inv_length [OF inv] by (simp add: main_wakes_def)
qed (use inv in \<open>simp add: main_wakes_def\<close>)

lemma watch_slot_frame:
  "rg_name (sl_reg (watch_slot e oor sl)) = rg_name (sl_reg sl)"
  "sl_watch (watch_slot e oor sl) = None \<longleftrightarrow> sl_watch sl = None"
  by (auto simp: watch_slot_def Let_def rg_name_def dest: proc_Start_cases split: option.split watcher.split prod.split)

lemma su_inv_step: "su_inv S s \<Longrightarrow> su_inv S (su_step dur s ev)"
proof (cases ev)
  case Signal
  assume "su_inv S s"
  moreover have "pc_ok S pc (s\<lparr>su_signalled := True\<rparr>) \<longleftrightarrow> pc_ok S pc s" for pc
    by (cases pc) (simp_all add: progress_def)
  ultimately show ?thesis by (simp add: Signal su_inv_def)
next
  case (Watches i e oor)
  assume inv: "su_inv S s"
  then have "su_inv S (upd_slot i (watch_slot e oor) s)" if "i < length S"
    using that by (intro su_inv_slot) (simp_all add: watch_slot_frame watch_ok)
  then show ?thesis using Watches inv su_inv_length [OF inv] by simp
next
  case (Exits i e)
  assume inv: "su_inv S s"
  then have "su_inv S (upd_slot i (upd_reg (\<lambda>reg. reg\<lparr>rg_process := exits e (rg_process reg)\<rparr>)) s)" if "i < length S"
    using that by (intro su_inv_slot) (simp_all add: exit_ok, simp_all add: upd_reg_def)
  then show ?thesis using Exits inv su_inv_length [OF inv] by simp
qed (simp_all add: main_starts_inv main_polls_inv main_wakes_inv main_stops_inv)

lemma su_inv_run: "su_inv S s \<Longrightarrow> su_inv S (su_run dur s evs)"
  by (induction evs arbitrary: s) (simp_all add: su_inv_step)

lemma su_inv_reach: "fresh S \<Longrightarrow> su_run dur (supervising S) evs = s \<Longrightarrow> su_inv S s"
  using su_inv_run [OF su_inv_start] by blast

lemma su_invD:
  assumes "su_inv S s" "i < length S"
  shows flagged: "rg_stopping (sl_reg (slot_of s i)) \<longleftrightarrow> stopper_at (su_main s) i (slot_of s i) \<noteq> NotCalled"
    and unwatched: "sl_watch (slot_of s i) = None \<longleftrightarrow> ep_run (proc_of s i) = NeverStarted"
      "rg_watched (sl_reg (slot_of s i)) \<longleftrightarrow> sl_watch (slot_of s i) \<noteq> None"
    and follows: "sl_watch (slot_of s i) \<noteq> None \<Longrightarrow>
      watched (rg_backoff (sl_reg (slot_of s i))) (view (su_main s) i (slot_of s i))"
proof -
  have ok: "slot_ok (su_main s) i (slot_of s i)" using assms by (simp add: su_inv_def)
  then show "rg_stopping (sl_reg (slot_of s i)) \<longleftrightarrow> stopper_at (su_main s) i (slot_of s i) \<noteq> NotCalled"
    unfolding slot_ok_def Let_def by blast
  show "sl_watch (slot_of s i) = None \<longleftrightarrow> ep_run (proc_of s i) = NeverStarted"
    "rg_watched (sl_reg (slot_of s i)) \<longleftrightarrow> sl_watch (slot_of s i) \<noteq> None"
    "sl_watch (slot_of s i) \<noteq> None \<Longrightarrow> watched (rg_backoff (sl_reg (slot_of s i))) (view (su_main s) i (slot_of s i))"
    using ok unfolding slot_ok_def Let_def by (metis (full_types))+
qed

lemma watcher_facts:
  assumes "su_inv S s" "i < length S" "sl_watch (slot_of s i) = Some w"
  shows "w = WatchDone \<Longrightarrow> rg_stopping (sl_reg (slot_of s i))"
    and "w \<noteq> Waiting \<Longrightarrow> \<not> is_live (proc_of s i)"
    and "stopper_at (su_main s) i (slot_of s i) = Returned \<Longrightarrow> w = WatchDone"
  using watched_inv [OF follows [OF assms(1,2)]] assms(3) by (auto simp: watch_inv_def view_def)

lemma su_inv_progress: "su_inv S s \<Longrightarrow> \<exists>k m. progress S k m s"
  unfolding su_inv_def by (cases "su_main s") auto

end
