(* ===== verification/SupervisedProps.thy ===== *)
theory SupervisedProps
  imports SupervisedRuns
begin

text \<open>
  What holds of every run of the supervisor: the order in which services come up and go down, what is left
  of them at the end, how long stopping one takes, and the stop that never ends.
\<close>

section \<open>Order\<close>

text \<open>C13: Services come up in order, whatever crashes meanwhile. In any run of the supervisor, with processes
  exiting, being restarted and failing to start at any time, what \<open>Start\<close> has done is an initial part of:
  the first service started, it reported healthy, the second one started, and so on; a process has only
  ever been started when every service before it has reported healthy, and the wait for a signal is
  reached only with all of it done.\<close>

theorem services_come_up_in_order:
  assumes "fresh S" and "su_run dur (supervising S) evs = s"
  shows "prefix (su_events s) (full_start S)
    \<and> (\<forall>i<length S. ep_run (proc_of s i) \<noteq> NeverStarted \<longrightarrow> (\<forall>j<i. Healthy (rg_name (S ! j)) \<in> set (su_events s)))
    \<and> (su_main s = UntilSignal \<longrightarrow> su_events s = full_start S)"
proof -
  have inv: "su_inv S s" by (rule su_inv_reach [OF assms])
  then obtain k m where p: "progress S k m s" using su_inv_progress by blast
  have "Healthy (rg_name (S ! j)) \<in> set (su_events s)"
    if "i < length S" "ep_run (proc_of s i) \<noteq> NeverStarted" "j < i" for i j
  proof -
    have "sl_watch (slot_of s i) \<noteq> None" using unwatched(1) [OF inv that(1)] that(2) by simp
    moreover have "sl_watch (slot_of s i) = None \<longleftrightarrow> k \<le> i" using p that(1) by (simp add: progress_def)
    ultimately have "\<not> k \<le> i" by simp
    then have "Suc (2 * j) < m" "Suc (2 * j) < length (full_start S)" using p that by (simp_all add: progress_def)
    then have "full_start S ! Suc (2 * j) \<in> set (take m (full_start S))"
      using nth_mem [of "Suc (2 * j)" "take m (full_start S)"] by simp
    then show ?thesis using p that full_start_nth(2) [of j S] by (simp add: progress_def)
  qed
  moreover have "su_main s = UntilSignal \<longrightarrow> su_events s = full_start S"
    using inv by (auto simp: su_inv_def progress_def)
  ultimately show ?thesis using p by (auto simp: progress_def take_is_prefix)
qed

text \<open>C14: Services go down in reverse order, for good, and none is left behind. In any run of the supervisor,
  with processes crashing and being restarted while it stops: when a service has been asked to stop,
  every service registered after it is down, and its watcher has ended or never was; a service that has
  not been asked still has its watcher; and when the command ends, whether after a signal or because a
  service did not come up, no process of any service runs.\<close>

theorem services_go_down_in_reverse:
  assumes "fresh S" and "su_run dur (supervising S) evs = s"
  shows "(\<forall>j<length S. \<forall>i<j. rg_stopping (sl_reg (slot_of s i)) \<longrightarrow>
        \<not> is_live (proc_of s j) \<and> sl_watch (slot_of s j) \<in> {None, Some WatchDone})
    \<and> (\<forall>i<length S. sl_watch (slot_of s i) = Some WatchDone \<longrightarrow> rg_stopping (sl_reg (slot_of s i)))
    \<and> (run_end_of (su_main s) \<noteq> StillRunning \<longrightarrow> (\<forall>i<length S. \<not> is_live (proc_of s i)))"
proof -
  have inv: "su_inv S s" by (rule su_inv_reach [OF assms])
  have down: "\<not> is_live (proc_of s j) \<and> sl_watch (slot_of s j) \<in> {None, Some WatchDone}"
    if "j < length S" "stopper_at (su_main s) j (slot_of s j) = Returned" for j
    using unwatched(1) [OF inv that(1)] watcher_facts [OF inv that(1)] that(2)
    by (cases "sl_watch (slot_of s j)") (auto simp: is_live_def)
  have "stopper_at (su_main s) j (slot_of s j) = Returned"
    if "j < length S" "i < j" "rg_stopping (sl_reg (slot_of s i))" for i j
  proof -
    have "stopper_at (su_main s) i (slot_of s i) \<noteq> NotCalled"
      using flagged [OF inv, of i] that by simp
    then show ?thesis using that(2) by (cases "su_main s") (auto simp: stopper_at_def split: if_splits)
  qed
  moreover have "stopper_at (su_main s) j (slot_of s j) = Returned" if "run_end_of (su_main s) \<noteq> StillRunning" for j
    using that by (cases "su_main s") (simp_all add: run_end_of_def stopper_at_def)
  moreover have "rg_stopping (sl_reg (slot_of s i))" if "i < length S" "sl_watch (slot_of s i) = Some WatchDone" for i
    using watcher_facts(1) [OF inv that] by simp
  ultimately show ?thesis using down by blast
qed

text \<open>Each service for itself: in any run, a service that has been started is in a state that its watcher
  and one call of \<open>Stop\<close> reach between them, with everything else left out.\<close>

theorem each_service_follows_its_watcher:
  assumes "fresh S" and "su_run dur (supervising S) evs = s"
    and "i < length S" "ep_run (proc_of s i) \<noteq> NeverStarted"
  shows "watched (rg_backoff (sl_reg (slot_of s i))) (view (su_main s) i (slot_of s i))"
  using follows [OF su_inv_reach [OF assms(1,2)] assms(3)] unwatched(1) [OF su_inv_reach [OF assms(1,2)] assms(3)] assms(4)
  by simp

text \<open>The registry that \<open>runControlPlane\<close> assembles is a fresh one.\<close>

lemma assembled_fresh:
  assumes "assemble os k l fs = (Continues S, fs')"
  shows "fresh S"
proof -
  have "ep_run (ch_NewProcess c) = NeverStarted" "ep_run (rp_NewProcess r) = NeverStarted" for c r
    by (simp_all add: ch_NewProcess_def rp_NewProcess_def NewExecProcess_def)
  then show ?thesis
    using assms by (auto simp: assemble_def Let_def fresh_def Register_def split: option.splits prod.splits if_splits)
qed

section \<open>How long stopping one service takes\<close>

text \<open>How far the main goroutine is with the service it stops; the service will not be restarted any more.\<close>

definition main_rank :: "nat \<Rightarrow> main_pc \<Rightarrow> nat" where
  "main_rank i pc =
     (case pc of
        Looking r j \<Rightarrow> if j < i then 3 else 0
      | Ending r j g \<Rightarrow> if j < i then 3 else 1
      | Joining r j \<Rightarrow> if j < i then 3 else 2
      | Stopping r k \<Rightarrow> 3
      | Over r \<Rightarrow> 3
      | _ \<Rightarrow> 0)"

definition winding_down :: "nat \<Rightarrow> supervised \<Rightarrow> bool" where
  "winding_down i s \<longleftrightarrow> rg_stopping (sl_reg (slot_of s i)) \<and> sl_watch (slot_of s i) \<noteq> Some BackingOff
     \<and> (\<forall>r g. su_main s = Ending r i g \<longrightarrow> g = sl_starts (slot_of s i))
     \<and> (2 \<le> main_rank i (su_main s) \<longrightarrow> \<not> is_live (proc_of s i))"

definition stage :: "nat \<Rightarrow> nat \<Rightarrow> supervised \<Rightarrow> bool" where
  "stage i k s \<longleftrightarrow> winding_down i s
     \<and> (1 \<le> k \<longrightarrow> 1 \<le> main_rank i (su_main s)) \<and> (2 \<le> k \<longrightarrow> 2 \<le> main_rank i (su_main s))
     \<and> (3 \<le> k \<longrightarrow> sl_watch (slot_of s i) \<noteq> Some Waiting) \<and> (4 \<le> k \<longrightarrow> sl_watch (slot_of s i) \<in> {None, Some WatchDone})
     \<and> (5 \<le> k \<longrightarrow> main_rank i (su_main s) = 3)"

text \<open>The events that bring it to the next stage, in order.\<close>

definition own_stop :: "su_event \<Rightarrow> bool" where
  "own_stop ev \<longleftrightarrow> (\<exists>race. ev = MainStops race \<and> (\<forall>e. race \<noteq> ContextDone e))"

definition own_watch :: "nat \<Rightarrow> su_event \<Rightarrow> bool" where
  "own_watch i ev \<longleftrightarrow> (\<exists>e oor. ev = Watches i e oor)"

definition stop_steps :: "nat \<Rightarrow> (su_event \<Rightarrow> bool) list" where
  "stop_steps i = [own_stop, own_stop, own_watch i, own_watch i, own_stop]"

lemma flagged_pc:
  assumes "su_inv S s" "i < length S" "rg_stopping (sl_reg (slot_of s i))"
  shows "(\<exists>r k. su_main s = Stopping r k \<and> k \<le> i) \<or> (\<exists>r j. su_main s = Looking r j \<and> j \<le> i)
    \<or> (\<exists>r j g. su_main s = Ending r j g \<and> j \<le> i) \<or> (\<exists>r j. su_main s = Joining r j \<and> j \<le> i)
    \<or> (\<exists>r. su_main s = Over r)"
  using flagged [OF assms(1,2)] assms(3) by (cases "su_main s") (auto simp: stopper_at_def split: if_splits)

lemma passed_facts:
  assumes "su_inv S s" "i < length S" "rg_stopping (sl_reg (slot_of s i))" "main_rank i (su_main s) = 3"
  shows "sl_watch (slot_of s i) \<in> {None, Some WatchDone}"
proof -
  have "stopper_at (su_main s) i (slot_of s i) = Returned"
    using flagged_pc [OF assms(1-3)] assms(4) by (auto simp: main_rank_def stopper_at_def split: if_splits)
  then show ?thesis using watcher_facts(3) [OF assms(1,2)] by (cases "sl_watch (slot_of s i)") auto
qed

lemma watch_stays:
  assumes "rg_stopping (sl_reg sl)" "sl_watch sl \<noteq> Some BackingOff"
  shows "sl_reg (watch_slot e oor sl) = sl_reg sl" "sl_starts (watch_slot e oor sl) = sl_starts sl"
    "sl_watch (watch_slot e oor sl) = sl_watch sl
     \<or> sl_watch sl = Some Waiting \<and> sl_watch (watch_slot e oor sl) = Some Checking
     \<or> sl_watch sl = Some Checking \<and> sl_watch (watch_slot e oor sl) = Some WatchDone"
  using assms by (auto simp: watch_slot_def Let_def split: option.split watcher.split)

lemma watch_moves:
  assumes "rg_stopping (sl_reg sl)" "sl_watch sl \<noteq> Some BackingOff" "\<not> is_live (rg_process (sl_reg sl))"
  shows "sl_watch (watch_slot e oor sl) = (case sl_watch sl of
      Some Waiting \<Rightarrow> Some Checking | Some Checking \<Rightarrow> Some WatchDone | w \<Rightarrow> w)"
  using assms ep.waits [of "rg_process (sl_reg sl)"]
  by (auto simp: watch_slot_def Let_def split: option.split watcher.split)

lemma stage_mono: "stage i k s \<Longrightarrow> k' \<le> k \<Longrightarrow> stage i k' s"
  by (auto simp: stage_def)

lemma passed_stage:
  "su_inv S s \<Longrightarrow> i < length S \<Longrightarrow> winding_down i s \<Longrightarrow> main_rank i (su_main s) = 3 \<Longrightarrow> stage i k s"
  using passed_facts [of S s i] by (auto simp: stage_def winding_down_def)

lemma stage_main:
  assumes inv: "su_inv S s" and i: "i < length S" and st: "stage i k s"
  shows "stage i k (main_stops race s)
    \<and> (own_stop (MainStops race) \<longrightarrow> k \<in> {0, 1, 4} \<longrightarrow> stage i (Suc k) (main_stops race s))"
proof -
  let ?s' = "main_stops race s"
  have wd: "winding_down i s" using st by (simp add: stage_def)
  have inv': "su_inv S ?s'" by (rule main_stops_inv [OF inv])
  note len = su_inv_length [OF inv]
  have passed: ?thesis if "winding_down i ?s'" "main_rank i (su_main ?s') = 3"
    using passed_stage [OF inv' i that] by blast
  have late: ?thesis if "main_rank i (su_main s) = 3"
  proof (rule passed)
    have "su_main s = Stopping r (Suc j) \<Longrightarrow> j < i" for r j
      using flagged_pc [OF inv i] wd by (auto simp: winding_down_def)
    then show "winding_down i ?s'" "main_rank i (su_main ?s') = 3"
      using wd that i len flagged_pc [OF inv i] unfolding winding_down_def main_stops_def
      by (auto simp: main_rank_def split: main_pc.splits nat.splits stop_race.splits if_splits)
  qed
  consider "main_rank i (su_main s) = 3" | r where "su_main s = Looking r i" | r g where "su_main s = Ending r i g"
    | r where "su_main s = Joining r i"
    using flagged_pc [OF inv i] wd by (fastforce simp: winding_down_def main_rank_def)
  then show ?thesis
  proof cases
    case 2
    have "k = 0" using st 2 by (simp add: stage_def main_rank_def)
    then show ?thesis using 2 wd by (auto simp: stage_def winding_down_def main_stops_def main_rank_def is_live_def)
  next
    case (3 r g)
    have k: "k \<le> 1" using st 3 by (simp add: stage_def main_rank_def)
    show ?thesis
    proof (cases "(\<exists>e. race = ContextDone e) \<and> is_live (proc_of s i)")
      case True
      then have "?s' = s" using 3 wd by (auto simp: main_stops_def winding_down_def)
      then show ?thesis using True st by (auto simp: own_stop_def)
    next
      case False
      then have "stage i 2 ?s'"
        using 3 wd i len stopped_simps [of race "proc_of s i"]
        by (cases race) (auto simp: stage_def winding_down_def main_stops_def main_rank_def upd_reg_def)
      then show ?thesis using k by (auto intro: stage_mono)
    qed
  next
    case (4 r)
    have two: "stage i 2 s" using 4 wd by (simp add: stage_def main_rank_def)
    show ?thesis
    proof (cases "rg_watched (sl_reg (slot_of s i)) \<and> sl_watch (slot_of s i) \<noteq> Some WatchDone")
      case True
      then have "?s' = s" using 4 by (simp add: main_stops_def)
      moreover have "k \<noteq> 4" using True st unwatched(2) [OF inv i] by (auto simp: stage_def)
      ultimately show ?thesis using st two by (auto intro: stage_mono)
    next
      case False
      then have "?s' = goto (Stopping r i) s" using 4 by (auto simp: main_stops_def)
      then show ?thesis using wd 4 by (intro passed) (auto simp: winding_down_def main_rank_def)
    qed
  qed (rule late)
qed

lemma stage_watch:
  assumes inv: "su_inv S s" and i: "i < length S" and st: "stage i k s"
  shows "stage i k (upd_slot i (watch_slot e oor) s)
    \<and> (k \<in> {2, 3} \<longrightarrow> stage i (Suc k) (upd_slot i (watch_slot e oor) s))"
proof -
  have f: "rg_stopping (sl_reg (slot_of s i))" "sl_watch (slot_of s i) \<noteq> Some BackingOff"
    using st by (simp_all add: stage_def winding_down_def)
  note w = watch_stays [OF f, of e oor] and len = su_inv_length [OF inv]
  have "stage i k (upd_slot i (watch_slot e oor) s)"
    using w(3) by (elim disjE) (use st w(1,2) i len in \<open>simp_all add: stage_def winding_down_def\<close>)
  moreover have "stage i (Suc k) (upd_slot i (watch_slot e oor) s)" if k: "k \<in> {2, 3}"
  proof -
    have dead: "\<not> is_live (proc_of s i)" using k st by (auto simp: stage_def winding_down_def)
    from k st w watch_moves [OF f dead, of e oor] i len show ?thesis
      by (auto simp: stage_def winding_down_def split: option.splits watcher.splits)
  qed
  ultimately show ?thesis by blast
qed

lemma stage_step:
  assumes inv: "su_inv S s" and i: "i < length S" and st: "stage i k s"
  shows "stage i k (su_step dur s ev)
    \<and> (k < 5 \<longrightarrow> (stop_steps i ! k) ev \<longrightarrow> stage i (Suc k) (su_step dur s ev))"
proof -
  have wd: "winding_down i s" using st by (simp add: stage_def)
  note len = su_inv_length [OF inv] and pc = flagged_pc [OF inv i]
  have main: "su_main s \<noteq> UntilSignal" "su_main s \<noteq> Launching j" "su_main s \<noteq> Gating j t" for j t
    using pc wd by (auto simp: winding_down_def)
  have other: "stage i k s'" if "su_main s' = su_main s" "su_slots s' = su_slots s" for s'
    using st that by (simp add: stage_def winding_down_def)
  have advance: "stop_steps i ! k = own_stop \<and> k \<in> {0, 1, 4} \<or> stop_steps i ! k = own_watch i \<and> k \<in> {2, 3}" if "k < 5"
    using that by (auto simp: stop_steps_def less_Suc_eq numeral_eq_Suc)
  have foreign: "\<not> (k < 5 \<and> (stop_steps i ! k) ev)" if "\<And>race. ev \<noteq> MainStops race" "\<And>e oor. ev \<noteq> Watches i e oor"
    using advance that by (auto simp: own_stop_def own_watch_def)
  show ?thesis
  proof (cases ev)
    case (MainStops race)
    have "stop_steps i ! k = own_stop \<and> k \<in> {0, 1, 4}" if "k < 5" "(stop_steps i ! k) ev"
      using advance [OF that(1)] that(2) by (auto simp: MainStops own_watch_def)
    then show ?thesis using stage_main [OF inv i st, of race] MainStops by auto
  next
    case (Watches j e oor)
    show ?thesis
    proof (cases "j = i \<and> run_end_of (su_main s) = StillRunning")
      case True
      have k: "k \<in> {2, 3}" if "k < 5" "(stop_steps i ! k) ev"
        using advance [OF that(1)] that(2) by (auto simp: Watches own_stop_def)
      show ?thesis using stage_watch [OF inv i st, of e oor] True Watches k i len by auto
    next
      case False
      have "stage i k (su_step dur s ev)"
        using st Watches False i len by (auto simp: stage_def winding_down_def)
      moreover have "stage i (Suc k) (su_step dur s ev)" if "k < 5" "(stop_steps i ! k) ev"
      proof -
        have "j = i" using foreign that Watches by blast
        then have over: "run_end_of (su_main s) \<noteq> StillRunning" using False by simp
        then have "main_rank i (su_main s) = 3" by (cases "su_main s") (auto simp: run_end_of_def main_rank_def)
        then show ?thesis using passed_stage [OF inv i wd] over by (simp add: Watches)
      qed
      ultimately show ?thesis by blast
    qed
  next
    case (Exits j e)
    then have "stage i k (su_step dur s ev)"
      using st i len by (auto simp: stage_def winding_down_def upd_reg_def)
    then show ?thesis using foreign Exits by auto
  qed (use other foreign main in \<open>simp_all add: main_starts_def main_polls_def main_wakes_def split: main_pc.split\<close>)
qed

lemma stage_run:
  assumes "su_inv S s" "i < length S" "stage i k s" "k \<le> 5"
    and "list_all2 (\<lambda>g ev. g ev) (drop k (stop_steps i)) own" "subseq own evs"
  shows "stage i 5 (su_run dur s evs)"
  using assms
proof (induction evs arbitrary: k s own)
  case Nil
  then have "length (drop k (stop_steps i)) = 0" by (auto dest: list_all2_lengthD list_emb_length)
  then have "k = 5" using Nil by (simp add: stop_steps_def)
  then show ?case using Nil by simp
next
  case (Cons ev evs)
  note step = stage_step [OF Cons.prems(1-3), of dur ev] and inv = su_inv_step [OF Cons.prems(1)]
  show ?case
  proof (cases "k < 5")
    case True
    then have "drop k (stop_steps i) = stop_steps i ! k # drop (Suc k) (stop_steps i)"
      by (intro Cons_nth_drop_Suc [symmetric]) (simp add: stop_steps_def)
    then obtain x xs where own: "own = x # xs" "(stop_steps i ! k) x" "list_all2 (\<lambda>g ev. g ev) (drop (Suc k) (stop_steps i)) xs"
      using Cons.prems(5) by (auto simp: list_all2_Cons1)
    show ?thesis
    proof (cases "x = ev")
      case False
      then have "subseq own evs" using Cons.prems(6) own(1) by simp
      then show ?thesis using Cons.IH [OF inv Cons.prems(2) _ Cons.prems(4,5)] step by simp
    next
      case True
      then have "subseq xs evs" using Cons.prems(6) own(1) by simp
      then show ?thesis using Cons.IH [OF inv Cons.prems(2) _ _ own(3)] step True own(2) \<open>k < 5\<close> by simp
    qed
  next
    case False
    then have "k = 5" using Cons.prems(4) by simp
    then show ?thesis using Cons.IH [where k = 5 and own = "[]", OF inv Cons.prems(2)] step by (simp add: stop_steps_def)
  qed
qed

text \<open>C27: A service that is not waiting to be restarted is stopped in five steps. From the moment its flag is set,
  whatever other services and the rest of the run do meanwhile: once the main goroutine has moved twice,
  then its watcher twice, then the main goroutine again, the process is down, its watcher has ended and
  the main goroutine has gone on. Nobody else can hold it up.\<close>

theorem stop_of_a_service_is_bounded:
  assumes "fresh S" "su_run dur (supervising S) evs = s" "i < length S"
    and "su_main s = Looking r i" "sl_watch (slot_of s i) \<noteq> Some BackingOff"
    and "list_all2 (\<lambda>g ev. g ev) (stop_steps i) own" "subseq own evs'" "su_run dur s evs' = s'"
  shows "\<not> is_live (proc_of s' i) \<and> sl_watch (slot_of s' i) \<in> {None, Some WatchDone}
    \<and> main_rank i (su_main s') = 3"
proof -
  have inv: "su_inv S s" by (rule su_inv_reach [OF assms(1,2)])
  have "rg_stopping (sl_reg (slot_of s i))" using flagged [OF inv assms(3)] assms(4) by (simp add: stopper_at_def)
  then have "stage i 0 s" using assms(4,5) by (simp add: stage_def winding_down_def main_rank_def)
  then have "stage i 5 s'" using stage_run [OF inv assms(3), of 0 own evs' dur] assms(6-8) by simp
  then show ?thesis by (simp add: stage_def winding_down_def)
qed

section \<open>A stop that never ends\<close>

text \<open>The watcher has restarted the process after \<open>Stop\<close> has let it be, and \<open>Stop\<close> waits for the watcher.\<close>

definition stuck :: "nat \<Rightarrow> supervised \<Rightarrow> bool" where
  "stuck i s \<longleftrightarrow> i < length (su_slots s) \<and> (\<exists>r. su_main s = Joining r i) \<and> rg_watched (sl_reg (slot_of s i))
     \<and> sl_watch (slot_of s i) = Some Waiting \<and> is_live (proc_of s i)"

lemma stuck_step:
  assumes "stuck i s" "\<And>e. ev \<noteq> Exits i e"
  shows "stuck i (su_step dur s ev)"
proof (cases ev)
  case (Watches j e oor)
  have "watch_slot e oor (slot_of s i) = slot_of s i"
    using assms(1) ep.waits [of "proc_of s i"] by (simp add: stuck_def watch_slot_def)
  then show ?thesis using assms(1) Watches by (auto simp: stuck_def)
next
  case (Exits j e)
  then show ?thesis using assms by (auto simp: stuck_def)
qed (use assms(1) in \<open>auto simp: stuck_def main_starts_def main_polls_def main_wakes_def main_stops_def\<close>)

lemma stuck_run: "stuck i s \<Longrightarrow> (\<And>e. Exits i e \<notin> set evs) \<Longrightarrow> stuck i (su_run dur s evs)"
proof (induction evs arbitrary: s)
  case (Cons ev evs)
  have "stuck i (su_step dur s ev)" by (rule stuck_step [OF Cons.prems(1)]) (use Cons.prems(2) in auto)
  then show ?case using Cons.IH Cons.prems(2) by simp
qed simp

text \<open>C15: A crash just before the stop leaves everything running. Take any run that has brought all services up,
  with the last one running and watched. There are events after which, whatever happens later short of
  the last process exiting by itself (more signals too): the command has not ended; that process, which
  was restarted during the stop, runs; and no service before it has been asked to stop or ever is.\<close>

theorem crash_before_stop_hangs:
  assumes "fresh S" "su_run dur (supervising S) evs = s" "su_main s = UntilSignal"
    and "length S = Suc l" "sl_watch (slot_of s l) = Some Waiting" "is_live (proc_of s l)"
  shows "\<exists>evs1. \<forall>evs2. (\<forall>e. Exits l e \<notin> set evs2) \<longrightarrow>
    (let s' = su_run dur s (evs1 @ evs2) in
      run_end_of (su_main s') = StillRunning \<and> is_live (proc_of s' l)
      \<and> (\<forall>j<l. \<not> rg_stopping (sl_reg (slot_of s' j))))"
proof -
  have inv: "su_inv S s" by (rule su_inv_reach [OF assms(1,2)])
  have len: "length (su_slots s) = Suc l" "l < length S" using su_inv_length [OF inv] assms(4) by simp_all
  have "\<not> rg_stopping (sl_reg (slot_of s l))" using flagged [OF inv len(2)] assms(3) by (simp add: stopper_at_def)
  moreover have "rg_watched (sl_reg (slot_of s l))" using unwatched(2) [OF inv len(2)] assms(5) by simp
  ultimately have sl: "\<not> rg_stopping (sl_reg (slot_of s l))" "rg_watched (sl_reg (slot_of s l))" by simp_all
  let ?w = "Watches l None amd64_oor" and ?stop = "MainStops (Gone None)"
  let ?evs1 = "[Exits l None, ?w, ?w, Signal, MainWakes, ?stop, ?stop, ?stop, ?w]"
  have "stuck l (su_run dur s ?evs1)"
    using len assms(3,5,6) sl
    by (simp add: stuck_def upd_reg_def main_wakes_def main_stops_def watch_slot_def Let_def
        proc_Wait_def proc_Start_def exits_def is_live_def run_end_of_def split: proc_run.split)
  then have st: "stuck l (su_run dur s (?evs1 @ evs2))" if "\<forall>e. Exits l e \<notin> set evs2" for evs2
    using stuck_run that unfolding su_run_simps(3) by blast
  have "run_end_of (su_main s') = StillRunning \<and> is_live (proc_of s' l) \<and> (\<forall>j<l. \<not> rg_stopping (sl_reg (slot_of s' j)))"
    if "stuck l s'" "su_inv S s'" for s'
    using that(1) flagged [OF that(2)] len(2) assms(4)
    by (auto simp: stuck_def run_end_of_def stopper_at_def)
  then show ?thesis using st su_inv_run [OF inv] by (intro exI [of _ ?evs1]) (simp only: Let_def, blast)
qed

section \<open>Witnesses\<close>

definition sample_services :: supervisor where
  "sample_services = Register (Register [] (NewExecProcess ''redpanda'' ''/rp'' [] []) 0 zero_backoff)
     (NewExecProcess ''clickhouse'' ''/ch'' [] []) 0 zero_backoff"

definition sample_healthy :: poll where
  "sample_healthy = \<lparr>p_health = Inr \<lparr>hs_service = [], hs_state = HealthHealthy, hs_message = [], hs_checked_at = 0\<rparr>,
     p_now = 0, p_ctx = None\<rparr>"

definition sample_up :: "su_event list" where
  "sample_up = [MainStarts None 0, MainPolls sample_healthy, MainStarts None 0, MainPolls sample_healthy]"

lemma sample_fresh: "fresh sample_services" "length sample_services = Suc 1"
  by (simp_all add: fresh_def sample_services_def Register_def NewExecProcess_def)

lemma sample_all_up:
  "su_main (su_run dur (supervising sample_services) sample_up) = UntilSignal"
  "sl_watch (slot_of (su_run dur (supervising sample_services) sample_up) 1) = Some Waiting"
  "is_live (proc_of (su_run dur (supervising sample_services) sample_up) 1)"
  by (simp_all add: sample_services_def Register_def NewExecProcess_def supervising_def unsupervised_def next_launch_def
      sample_up_def main_starts_def main_polls_def proc_Start_def sample_healthy_def reports_healthy_def goto_def
      upd_slot_def is_live_def Let_def)

lemma services_come_up_in_order_witness:
  "su_events (su_run (\<lambda>_. []) (supervising sample_services) sample_up) = full_start sample_services"
  using services_come_up_in_order [OF sample_fresh(1) refl, of "\<lambda>_. []" sample_up] sample_all_up(1) by blast

definition sample_down :: "su_event list" where
  "sample_down = Signal # MainWakes # replicate 4 (MainStops (Gone None))"

lemma services_go_down_in_reverse_witness:
  "\<exists>s. su_run (\<lambda>_. []) (supervising sample_services) (sample_up @ sample_down) = s
     \<and> (\<forall>i<1. rg_stopping (sl_reg (slot_of s i)) \<longrightarrow> \<not> is_live (proc_of s 1))"
  using services_go_down_in_reverse [OF sample_fresh(1) refl, of "\<lambda>_. []" "sample_up @ sample_down"] sample_fresh(2)
  by auto

lemma each_service_follows_its_watcher_witness:
  "\<exists>s. su_run (\<lambda>_. []) (supervising sample_services) sample_up = s
     \<and> watched (rg_backoff (sl_reg (slot_of s 1))) (view (su_main s) 1 (slot_of s 1))"
proof -
  let ?s = "su_run (\<lambda>_. []) (supervising sample_services) sample_up"
  have "ep_run (proc_of ?s 1) \<noteq> NeverStarted" using sample_all_up(3) [of "\<lambda>_. []"] by (simp add: is_live_def)
  from each_service_follows_its_watcher [OF sample_fresh(1) refl _ this] sample_fresh(2) show ?thesis by auto
qed

lemma stop_of_a_service_is_bounded_witness:
  "\<exists>s'. su_run (\<lambda>_. []) (supervising sample_services) (sample_up @ [Signal, MainWakes, MainStops (Gone None)]
       @ [Exits 0 None, MainStops (Gone None), MainStops (ExitsInTime None), Watches 0 None amd64_oor,
          Watches 1 None amd64_oor, Watches 1 None amd64_oor, MainStops (Gone None)]) = s'
     \<and> \<not> is_live (proc_of s' 1) \<and> main_rank 1 (su_main s') = 3"
proof -
  let ?evs = "sample_up @ [Signal, MainWakes, MainStops (Gone None)]"
  let ?evs' = "[Exits 0 None, MainStops (Gone None), MainStops (ExitsInTime None), Watches 0 None amd64_oor,
          Watches 1 None amd64_oor, Watches 1 None amd64_oor, MainStops (Gone None)]"
  let ?own = "[MainStops (Gone None), MainStops (ExitsInTime None), Watches 1 None amd64_oor,
          Watches 1 None amd64_oor, MainStops (Gone None)]"
  let ?u = "su_run (\<lambda>_. []) (supervising sample_services) sample_up"
  have len: "length (su_slots ?u) = Suc 1"
    using su_inv_length [OF su_inv_reach [OF sample_fresh(1) refl]] sample_fresh(2) by simp
  have at: "su_main (su_run (\<lambda>_. []) (supervising sample_services) ?evs) = Looking None 1"
    "sl_watch (slot_of (su_run (\<lambda>_. []) (supervising sample_services) ?evs) 1) \<noteq> Some BackingOff"
    using sample_all_up [of "\<lambda>_. []"] len by (simp_all add: main_wakes_def main_stops_def upd_reg_def)
  have own: "list_all2 (\<lambda>g ev. g ev) (stop_steps 1) ?own" by (simp add: stop_steps_def own_stop_def own_watch_def)
  have "subseq ?own ?evs'" by simp
  from stop_of_a_service_is_bounded [OF sample_fresh(1) refl _ at own this refl] sample_fresh(2) show ?thesis by auto
qed

lemma crash_before_stop_hangs_witness:
  "\<exists>s evs1. su_run (\<lambda>_. []) (supervising sample_services) sample_up = s
     \<and> run_end_of (su_main (su_run (\<lambda>_. []) s evs1)) = StillRunning \<and> is_live (proc_of (su_run (\<lambda>_. []) s evs1) 1)
     \<and> run_end_of (su_main (su_run (\<lambda>_. []) s (evs1 @ [Signal, MainStops (Gone None)]))) = StillRunning"
proof -
  from crash_before_stop_hangs [OF sample_fresh(1) refl sample_all_up(1) sample_fresh(2) sample_all_up(2,3), of "\<lambda>_. []"]
  obtain evs1 where e: "\<And>evs2. (\<forall>e. Exits 1 e \<notin> set evs2) \<Longrightarrow>
    (let s' = su_run (\<lambda>_. []) (su_run (\<lambda>_. []) (supervising sample_services) sample_up) (evs1 @ evs2) in
      run_end_of (su_main s') = StillRunning \<and> is_live (proc_of s' 1)
      \<and> (\<forall>j<1. \<not> rg_stopping (sl_reg (slot_of s' j))))" by blast
  show ?thesis
    using e [of "[]"] e [of "[Signal, MainStops (Gone None)]"] by (auto simp: Let_def)
qed

end
