(* ===== verification/SupervisedAlone.thy ===== *)
theory SupervisedAlone
  imports SupervisedProps
begin

text \<open>
  The supervisor when nothing comes between: with no process exiting by itself and no step of the run out
  of turn, the machine does what \<open>supervise\<close>, the composition of \<open>Start\<close> and \<open>Stop\<close>, computes.
\<close>

section \<open>Starting\<close>

definition start_events :: "start_oracle list \<Rightarrow> su_event list" where
  "start_events os = concat (map (\<lambda>o'. MainStarts (so_start o') (so_begin o') # map MainPolls (so_polls o')) os)"

text \<open>Where \<open>Start\<close> leaves the main goroutine.\<close>

definition after_start :: "nat \<Rightarrow> goerr option \<Rightarrow> main_pc" where
  "after_start n res = (case res of None \<Rightarrow> UntilSignal | Some e \<Rightarrow> Stopping (Some e) n)"

lemma idle_polls:
  "(\<And>i t. su_main s \<noteq> Gating i t) \<Longrightarrow> su_run dur s (map MainPolls ps) = s"
  by (induction ps) (simp_all add: main_polls_def split: main_pc.split)

lemma idle_start:
  "(\<And>i t. su_main s \<noteq> Gating i t) \<Longrightarrow> (\<And>i. su_main s \<noteq> Launching i) \<Longrightarrow> su_run dur s (start_events os) = s"
  by (induction os) (simp_all add: start_events_def idle_polls main_starts_def split: main_pc.split)

lemma gating_run:
  assumes "su_main s = Gating i t" "su_signalled s"
    and "awaitHealthy dur (ep_name (proc_of s i)) (rg_readyTimeout (sl_reg (slot_of s i))) t ps = Some res"
  shows "su_run dur s (map MainPolls ps) =
    (case res of
       None \<Rightarrow> (goto (next_launch (length (su_slots s)) (Suc i)) s)
         \<lparr>su_events := su_events s @ [Healthy (ep_name (proc_of s i))]\<rparr>
     | Some e \<Rightarrow> goto (Stopping (Some e) (length (su_slots s))) s)"
  using assms
proof (induction ps)
  case (Cons p ps)
  show ?case
  proof (cases "reports_healthy (p_health p) \<or> p_now p > t \<or> p_ctx p \<noteq> None")
    case True
    then show ?thesis
      using Cons.prems by (auto simp: main_polls_def Let_def idle_polls next_launch_def split: if_splits option.splits)
  next
    case False
    then have "main_polls dur p s = s" using Cons.prems(1) by (simp add: main_polls_def)
    then show ?thesis using Cons False by simp
  qed
qed simp

text \<open>A service that has not been started, one that has, and one as \<open>Start\<close> leaves it.\<close>

definition as_launched :: "exec_process \<Rightarrow> slot \<Rightarrow> slot" where
  "as_launched p sl = sl\<lparr>sl_reg := (sl_reg sl)\<lparr>rg_process := p, rg_watched := True\<rparr>,
     sl_starts := Suc (sl_starts sl), sl_watch := Some Waiting\<rparr>"

definition untouched :: "slot \<Rightarrow> bool" where
  "untouched sl \<longleftrightarrow> sl_watch sl = None \<and> \<not> rg_watched (sl_reg sl)"

definition matched :: "slot \<Rightarrow> bool" where
  "matched sl \<longleftrightarrow> sl_watch sl = (if rg_watched (sl_reg sl) then Some Waiting else None)"

lemma matched_simps [simp]:
  "matched (as_launched p sl)" "untouched sl \<Longrightarrow> matched sl"
  "sl_reg (as_launched p sl) = (sl_reg sl)\<lparr>rg_process := p, rg_watched := True\<rparr>"
  by (simp_all add: matched_def untouched_def as_launched_def)

text \<open>One service: its start fails, or it is watched and polled until that is decided.\<close>

lemma start_fails:
  assumes "su_main s = Launching i" "proc_Start x (proc_of s i) = (Some e, p)"
  shows "su_run dur s (MainStarts x b # map MainPolls ps) =
    goto (Stopping (Some (Errorf_w (''start '' @ ep_name (proc_of s i)) e)) (length (su_slots s))) s"
  using assms by (simp add: main_starts_def Let_def idle_polls)

lemma launch_run:
  assumes "su_main s = Launching i" "i < length (su_slots s)" "su_signalled s"
    and "proc_Start x (proc_of s i) = (None, p)" and n: "n = ep_name (proc_of s i)"
    and "awaitHealthy dur n (rg_readyTimeout (sl_reg (slot_of s i))) (b + rg_readyTimeout (sl_reg (slot_of s i))) ps = Some res"
  shows "su_run dur s (MainStarts x b # map MainPolls ps) =
    s\<lparr>su_slots := (su_slots s)[i := as_launched p (slot_of s i)],
      su_main := (case res of None \<Rightarrow> next_launch (length (su_slots s)) (Suc i) | Some e \<Rightarrow> Stopping (Some e) (length (su_slots s))),
      su_events := su_events s @ Started n # (case res of None \<Rightarrow> [Healthy n] | Some e \<Rightarrow> [])\<rparr>"
proof -
  let ?t = "b + rg_readyTimeout (sl_reg (slot_of s i))"
  let ?s1 = "s\<lparr>su_slots := (su_slots s)[i := as_launched p (slot_of s i)], su_main := Gating i ?t, su_events := su_events s @ [Started n]\<rparr>"
  have "main_starts x b s = ?s1"
    using assms(1,4) n by (simp add: main_starts_def Let_def goto_def upd_slot_def as_launched_def)
  moreover have "ep_name p = n" using proc_Start_cases [OF assms(4)] n by simp
  moreover have "su_run dur ?s1 (map MainPolls ps) =
    (case res of
       None \<Rightarrow> (goto (next_launch (length (su_slots ?s1)) (Suc i)) ?s1)\<lparr>su_events := su_events ?s1 @ [Healthy (ep_name (proc_of ?s1 i))]\<rparr>
     | Some e \<Rightarrow> goto (Stopping (Some e) (length (su_slots ?s1))) ?s1)"
    by (rule gating_run) (use assms(2,3,6) \<open>ep_name p = n\<close> in simp_all)
  ultimately show ?thesis using assms(2) by (cases res) (simp_all add: goto_def)
qed

lemma start_events_simps [simp]:
  "start_events [] = []"
  "su_run dur s (start_events (o' # os)) =
     su_run dur (su_run dur s (MainStarts (so_start o') (so_begin o') # map MainPolls (so_polls o'))) (start_events os)"
  by (simp_all add: start_events_def)

lemma start_run:
  assumes "su_slots s = pre @ rest" "su_main s = next_launch (length (su_slots s)) (length pre)" "su_signalled s"
    and "list_all untouched rest" "Start dur (map sl_reg rest) os = (evs, regs, Some res)"
  shows "\<exists>new. su_run dur s (start_events os) =
      s\<lparr>su_slots := pre @ new, su_main := after_start (length (su_slots s)) res, su_events := su_events s @ evs\<rparr>
    \<and> map sl_reg new = regs \<and> list_all matched new"
  using assms
proof (induction os arbitrary: s pre rest evs regs)
  case Nil
  then show ?case by (cases rest) (simp_all add: next_launch_def after_start_def)
next
  case (Cons o' os)
  let ?n = "length (su_slots s)"
  show ?case
  proof (cases rest)
    case Nil
    then have "su_run dur s (start_events (o' # os)) = s"
      using Cons.prems(1,2) by (intro idle_start) (simp_all add: next_launch_def)
    then show ?thesis using Nil Cons.prems by (simp add: next_launch_def after_start_def)
  next
    case (Cons sl rest')
    let ?i = "length pre" and ?reg = "sl_reg sl"
    have at: "su_main s = Launching ?i" "?i < ?n" "slot_of s ?i = sl" "ep_name (proc_of s ?i) = ep_name (rg_process ?reg)"
      using Cons.prems(1,2) Cons by (simp_all add: next_launch_def nth_append)
    let ?own = "MainStarts (so_start o') (so_begin o') # map MainPolls (so_polls o')"
    obtain err p where ps: "proc_Start (so_start o') (rg_process ?reg) = (err, p)" by fastforce
    have untouched: "list_all untouched (sl # rest')" using Cons.prems(4) Cons by simp
    have halts: ?thesis if "su_run dur s ?own = s\<lparr>su_slots := pre @ new, su_main := Stopping (Some e) ?n, su_events := su_events s @ evs\<rparr>"
      "res = Some e" "map sl_reg new = regs" "list_all matched new" for new e
      using that by (intro exI [of _ new]) (simp add: after_start_def idle_start)
    show ?thesis
    proof (cases err)
      case (Some x)
      then have "p = rg_process ?reg" using proc_Start_cases [OF ps] by simp
      then show ?thesis
        using Cons.prems(5) Cons ps Some start_fails [OF at(1), of "so_start o'" x p dur "so_begin o'" "so_polls o'"] at untouched Cons.prems(1)
        by (intro halts [where new = rest]) (auto simp: Let_def goto_def list_all_iff)
    next
      case None
      let ?w = "awaitHealthy dur (ep_name (rg_process ?reg)) (rg_readyTimeout ?reg) (so_begin o' + rg_readyTimeout ?reg) (so_polls o')"
      obtain r where w: "?w = Some r" using Cons.prems(5) Cons ps None by (auto simp: Let_def split: option.splits)
      have slots: "(su_slots s)[?i := as_launched p sl] = (pre @ [as_launched p sl]) @ rest'"
        using Cons.prems(1) Cons by (simp add: list_update_append)
      note run = launch_run [OF at(1,2) Cons.prems(3) _ refl, of "so_start o'" p dur "so_begin o'" "so_polls o'" r,
          unfolded at(3) slots, OF ps [unfolded None] w]
      show ?thesis
      proof (cases r)
        case (Some e)
        then show ?thesis
          using Cons.prems(5) Cons ps None w run untouched
          by (intro halts [where new = "as_launched p sl # rest'"]) (auto simp: Let_def list_all_iff)
      next
        case r: None
        obtain evs1 regs1 where rec: "Start dur (map sl_reg rest') os = (evs1, regs1, Some res)"
          and out: "evs = [Started (ep_name (rg_process ?reg)), Healthy (ep_name (rg_process ?reg))] @ evs1"
            "regs = sl_reg (as_launched p sl) # regs1"
          using Cons.prems(5) Cons ps None w r by (auto simp: Let_def split: prod.splits)
        have len: "length (su_slots (su_run dur s ?own)) = ?n" using run Cons.prems(1) Cons by simp
        have "\<exists>new. su_run dur (su_run dur s ?own) (start_events os) =
            (su_run dur s ?own)\<lparr>su_slots := (pre @ [as_launched p sl]) @ new, su_main := after_start ?n res,
              su_events := su_events (su_run dur s ?own) @ evs1\<rparr> \<and> map sl_reg new = regs1 \<and> list_all matched new"
          by (rule Cons.IH [where s = "su_run dur s ?own", unfolded len]) (use run r len rec untouched Cons.prems(3) in auto)
        then obtain new where "su_run dur (su_run dur s ?own) (start_events os) =
            (su_run dur s ?own)\<lparr>su_slots := (pre @ [as_launched p sl]) @ new, su_main := after_start ?n res,
              su_events := su_events (su_run dur s ?own) @ evs1\<rparr>" "map sl_reg new = regs1" "list_all matched new" by blast
        then show ?thesis using run r out by (intro exI [of _ "as_launched p sl # new"]) simp
      qed
    qed
  qed
qed

section \<open>Stopping\<close>

definition stopped_reg :: "registration \<Rightarrow> stop_race \<Rightarrow> registration" where
  "stopped_reg reg race = reg\<lparr>rg_stopping := True, rg_process := snd (Stop_result race (rg_process reg))\<rparr>"

definition service_stops :: "nat \<Rightarrow> bool \<Rightarrow> stop_race \<Rightarrow> su_event list" where
  "service_stops i has_watcher race = replicate 3 (MainStops race)
     @ (if has_watcher then [Watches i None amd64_oor, Watches i None amd64_oor, MainStops race] else [])"

definition stop_events :: "registration list \<Rightarrow> stop_oracle list \<Rightarrow> nat \<Rightarrow> su_event list" where
  "stop_events regs os k =
     concat (map (\<lambda>i. service_stops i (rg_watched (regs ! i)) (st_race (os ! i))) (rev [0..<k])) @ [MainStops (Gone None)]"

text \<open>A service as \<open>Start\<close> leaves it, and one stop that goes through.\<close>

definition ready :: "slot \<Rightarrow> bool" where
  "ready sl \<longleftrightarrow> (if rg_watched (sl_reg sl)
     then sl_watch sl = Some Waiting \<and> ep_run (rg_process (sl_reg sl)) \<noteq> NeverStarted
     else sl_watch sl = None \<and> ep_run (rg_process (sl_reg sl)) = NeverStarted)"

definition goes_through :: "stop_oracle \<Rightarrow> bool" where
  "goes_through o' \<longleftrightarrow> st_watch_ends o' \<and> (\<forall>e. st_race o' \<noteq> ContextDone e)"

lemma stopped_dead: "(\<And>e. race \<noteq> ContextDone e) \<Longrightarrow> \<not> is_live (snd (Stop_result race p)) \<and>
    (ep_run p \<noteq> NeverStarted \<longrightarrow> ep_run (snd (Stop_result race p)) \<noteq> NeverStarted)
    \<and> (\<not> is_live p \<longrightarrow> snd (Stop_result race p) = p)"
  by (cases race) (auto simp: Stop_result_def proc_Stop_def is_live_def exits_def split: proc_run.split)

lemma one_stop:
  assumes "su_main s = Stopping r (Suc i)" "i < length (su_slots s)" "ready (slot_of s i)" "\<And>e. race \<noteq> ContextDone e"
  shows "\<exists>sl. su_run dur s (service_stops i (rg_watched (sl_reg (slot_of s i))) race)
      = s\<lparr>su_slots := (su_slots s)[i := sl], su_main := Stopping r i\<rparr>
    \<and> sl_reg sl = stopped_reg (sl_reg (slot_of s i)) race"
proof -
  let ?sl = "slot_of s i"
  let ?p = "rg_process (sl_reg ?sl)"
  let ?flagged = "?sl\<lparr>sl_reg := (sl_reg ?sl)\<lparr>rg_stopping := True\<rparr>\<rparr>"
  let ?stopped = "?sl\<lparr>sl_reg := stopped_reg (sl_reg ?sl) race\<rparr>"
  let ?at = "\<lambda>pc sl. s\<lparr>su_slots := (su_slots s)[i := sl], su_main := pc\<rparr>"
  have flag: "main_stops race s = ?at (Looking r i) ?flagged"
    using assms(1) by (simp add: main_stops_def upd_slot_def upd_reg_def goto_def)
  have keep: "?stopped = ?flagged" if "\<not> is_live ?p"
    using stopped_dead [of race ?p] assms(4) that by (simp add: stopped_reg_def)
  show ?thesis
  proof (cases "rg_watched (sl_reg ?sl)")
    case False
    then have "ep_run ?p = NeverStarted" using assms(3) by (simp add: ready_def)
    then have "main_stops race (?at (Looking r i) ?flagged) = ?at (Joining r i) ?flagged"
      using assms(2) by (simp add: main_stops_def goto_def)
    moreover have "main_stops race (?at (Joining r i) ?flagged) = ?at (Stopping r i) ?flagged"
      using assms(2) False by (simp add: main_stops_def goto_def)
    moreover have "?flagged = ?stopped" using keep \<open>ep_run ?p = NeverStarted\<close> by (simp add: is_live_def)
    ultimately show ?thesis
      using flag False by (intro exI [of _ ?stopped]) (simp add: service_stops_def numeral_3_eq_3)
  next
    case True
    then have w: "sl_watch ?sl = Some Waiting" "ep_run ?p \<noteq> NeverStarted" using assms(3) by (simp_all add: ready_def)
    then have "main_stops race (?at (Looking r i) ?flagged) = ?at (Ending r i (sl_starts ?sl)) ?flagged"
      using assms(2) by (simp add: main_stops_def goto_def)
    moreover have "main_stops race (?at (Ending r i (sl_starts ?sl)) ?flagged) = ?at (Joining r i) ?stopped"
      using assms(2,4) keep
      by (cases race) (auto simp: main_stops_def goto_def upd_slot_def upd_reg_def stopped_reg_def)
    ultimately have joining: "su_run dur s (replicate 3 (MainStops race)) = ?at (Joining r i) ?stopped"
      using flag by (simp add: numeral_3_eq_3)
    let ?w1 = "?stopped\<lparr>sl_watch := Some Checking\<rparr>" and ?w2 = "?stopped\<lparr>sl_watch := Some WatchDone\<rparr>"
    have "\<not> is_live (rg_process (sl_reg ?stopped))" using stopped_dead [of race ?p] assms(4) by (simp add: stopped_reg_def)
    then have "watch_slot None amd64_oor ?stopped = ?w1" "watch_slot None amd64_oor ?w1 = ?w2"
      using w(1) ep.waits [of "rg_process (sl_reg ?stopped)"]
      by (auto simp: watch_slot_def Let_def stopped_reg_def split: option.split)
    then have "su_run dur (?at (Joining r i) ?stopped) [Watches i None amd64_oor, Watches i None amd64_oor] = ?at (Joining r i) ?w2"
      using assms(2) by (simp add: run_end_of_def upd_slot_def)
    moreover have "main_stops race (?at (Joining r i) ?w2) = ?at (Stopping r i) ?w2"
      using assms(2) by (simp add: main_stops_def goto_def)
    ultimately show ?thesis
      using joining True by (intro exI [of _ ?w2]) (simp add: service_stops_def)
  qed
qed

lemma stops_run:
  assumes "su_main s = Stopping r k" "k \<le> length (su_slots s)" "length os = length (su_slots s)"
    and "\<And>i. i < k \<Longrightarrow> ready (slot_of s i)" "\<And>o'. o' \<in> set os \<Longrightarrow> goes_through o'"
  shows "\<exists>slots. su_run dur s (stop_events (map sl_reg (su_slots s)) os k) = s\<lparr>su_slots := slots, su_main := Over r\<rparr>
    \<and> map sl_reg slots = map2 (\<lambda>sl o'. stopped_reg (sl_reg sl) (st_race o')) (take k (su_slots s)) (take k os)
        @ map sl_reg (drop k (su_slots s))"
  using assms
proof (induction k arbitrary: s)
  case 0
  then show ?case by (intro exI [of _ "su_slots s"]) (simp add: stop_events_def main_stops_def goto_def)
next
  case (Suc i)
  let ?race = "st_race (os ! i)" and ?sl = "slot_of s i" and ?regs = "map sl_reg (su_slots s)"
  have i: "i < length (su_slots s)" "i < length os" using Suc.prems(2,3) by simp_all
  have "goes_through (os ! i)" using Suc.prems(5) i(2) by simp
  then have race: "\<And>e. ?race \<noteq> ContextDone e" by (simp add: goes_through_def)
  obtain sl where one: "su_run dur s (service_stops i (rg_watched (sl_reg ?sl)) ?race)
      = s\<lparr>su_slots := (su_slots s)[i := sl], su_main := Stopping r i\<rparr>"
    and sl: "sl_reg sl = stopped_reg (sl_reg ?sl) ?race"
    using one_stop [OF Suc.prems(1) i(1) Suc.prems(4) race] by auto
  let ?s1 = "s\<lparr>su_slots := (su_slots s)[i := sl], su_main := Stopping r i\<rparr>"
  have ev: "stop_events ?regs os (Suc i) = service_stops i (rg_watched (sl_reg ?sl)) ?race @ stop_events ?regs os i"
    using i(1) by (simp add: stop_events_def)
  have same: "stop_events (map sl_reg (su_slots ?s1)) os i = stop_events ?regs os i"
    by (auto simp: stop_events_def map_update intro!: arg_cong [where f = concat])
  have "\<exists>slots. su_run dur ?s1 (stop_events (map sl_reg (su_slots ?s1)) os i) = ?s1\<lparr>su_slots := slots, su_main := Over r\<rparr>
    \<and> map sl_reg slots = map2 (\<lambda>sl o'. stopped_reg (sl_reg sl) (st_race o')) (take i (su_slots ?s1)) (take i os)
        @ map sl_reg (drop i (su_slots ?s1))"
    by (rule Suc.IH) (use Suc.prems in auto)
  then obtain slots where "su_run dur ?s1 (stop_events ?regs os i) = ?s1\<lparr>su_slots := slots, su_main := Over r\<rparr>"
    "map sl_reg slots = map2 (\<lambda>sl o'. stopped_reg (sl_reg sl) (st_race o')) (take i (su_slots s)) (take i os)
        @ map sl_reg (drop i ((su_slots s)[i := sl]))"
    unfolding same by auto
  moreover have "drop i ((su_slots s)[i := sl]) = sl # drop (Suc i) (su_slots s)"
    using i(1) by (metis Cons_nth_drop_Suc drop_update_cancel length_list_update lessI nth_list_update_eq)
  ultimately show ?case
    using one ev sl i by (intro exI [of _ slots]) (simp add: take_Suc_conv_app_nth)
qed

lemma stop_loop_through:
  "(\<And>x. x \<in> set ros \<Longrightarrow> goes_through (snd x)) \<Longrightarrow>
   stop_loop ros e = (map (\<lambda>(reg, o'). rg_name reg) ros, map (\<lambda>(reg, o'). stopped_reg reg (st_race o')) ros, Some e)"
proof (induction ros arbitrary: e)
  case (Cons x ros)
  obtain reg o' where x: "x = (reg, o')" by (cases x)
  have g: "st_watch_ends o'" "\<And>e. st_race o' \<noteq> ContextDone e" using Cons.prems [of x] by (simp_all add: x goes_through_def)
  obtain acts where "proc_Stop (st_race o') (rg_process reg) = (None, acts, snd (Stop_result (st_race o') (rg_process reg)))"
    using g(2) by (cases "st_race o'"; cases "ep_run (rg_process reg)") (simp_all add: proc_Stop_def Stop_result_def)
  then show ?case using Cons g by (simp add: x stopped_reg_def rg_name_def)
qed simp

lemma Stop_through:
  assumes "length os = length regs" "\<And>o'. o' \<in> set os \<Longrightarrow> goes_through o'"
  shows "Stop regs os = (rev (map rg_name regs), map2 (\<lambda>reg o'. stopped_reg reg (st_race o')) regs os, Some None)"
proof -
  have "goes_through (snd x)" if "x \<in> set (rev (zip regs os))" for x
  proof -
    have "x \<in> set (zip regs os)" using that by simp
    then have "snd x \<in> set os" by (metis in_set_zipE prod.collapse)
    then show ?thesis by (rule assms(2))
  qed
  moreover have "map (\<lambda>(reg, o'). rg_name reg) (zip regs os) = map rg_name regs"
  proof -
    have "map (\<lambda>(reg, o'). rg_name reg) (zip regs os) = map rg_name (map fst (zip regs os))"
      by (simp add: case_prod_unfold o_def)
    then show ?thesis using assms(1) by simp
  qed
  ultimately show ?thesis using stop_loop_through [of "rev (zip regs os)" None] by (simp add: Stop_def flip: rev_map)
qed

section \<open>The whole run\<close>

lemma start_alone:
  assumes "fresh S" and st: "Start dur S starts = (evs, regs, Some out)"
  shows "\<exists>slots. su_run dur (supervising S) (Signal # start_events starts @ [MainWakes]) =
      \<lparr>su_slots = slots, su_main = Stopping out (length S), su_signalled = True, su_events = evs\<rparr>
    \<and> map sl_reg slots = regs \<and> (\<forall>i<length S. ready (slots ! i))"
proof -
  let ?s0 = "su_step dur (supervising S) Signal"
  have "map sl_reg (map unsupervised S) = S" by (simp add: unsupervised_def o_def)
  moreover have "list_all untouched (map unsupervised S)"
    using assms(1) by (auto simp: list_all_iff untouched_def unsupervised_def fresh_def)
  ultimately obtain slots where run: "su_run dur ?s0 (start_events starts) =
      ?s0\<lparr>su_slots := slots, su_main := after_start (length S) out, su_events := evs\<rparr>"
    and slots: "map sl_reg slots = regs" "list_all matched slots"
    using start_run [of ?s0 "[]" "map unsupervised S" dur starts evs regs out] st by (auto simp: supervising_def)
  note gated = start_gated [OF st]
  have len: "length slots = length S" using slots(1) gated by (metis length_map)
  have "ready (slots ! i)" if "i < length S" for i
  proof -
    have "sl_reg (slots ! i) = regs ! i" using slots(1) that len by (metis nth_map)
    moreover have "matched (slots ! i)" using slots(2) that len by (simp add: list_all_length)
    moreover have "if rg_watched (regs ! i) then is_live (rg_process (regs ! i)) else ep_run (rg_process (regs ! i)) = NeverStarted"
      using gated that assms(1) nth_mem [OF that] by (auto simp: fresh_def split: if_splits)
    ultimately show ?thesis by (auto simp: ready_def matched_def is_live_def split: if_splits)
  qed
  then show ?thesis
    using run len slots(1) by (intro exI [of _ slots], cases out) (simp_all add: supervising_def after_start_def main_wakes_def goto_def)
qed

lemma stop_alone:
  assumes "su_main s = Stopping out (length (su_slots s))" "length stops = length (su_slots s)"
    and "\<forall>i<length (su_slots s). ready (slot_of s i)" "\<forall>o'\<in>set stops. goes_through o'"
    and "Stop (map sl_reg (su_slots s)) stops = (ns, S', res)"
  shows "\<exists>slots. su_run dur s (stop_events (map sl_reg (su_slots s)) stops (length stops)) = s\<lparr>su_slots := slots, su_main := Over out\<rparr>
    \<and> map sl_reg slots = S' \<and> res = Some None"
proof -
  have "S' = map2 (\<lambda>reg o'. stopped_reg reg (st_race o')) (map sl_reg (su_slots s)) stops \<and> res = Some None"
    using Stop_through [of stops "map sl_reg (su_slots s)"] assms(2,4,5) by simp
  moreover have "\<exists>slots. su_run dur s (stop_events (map sl_reg (su_slots s)) stops (length stops)) = s\<lparr>su_slots := slots, su_main := Over out\<rparr>
    \<and> map sl_reg slots = map2 (\<lambda>sl o'. stopped_reg (sl_reg sl) (st_race o')) (take (length stops) (su_slots s)) (take (length stops) stops)
        @ map sl_reg (drop (length stops) (su_slots s))"
    by (rule stops_run) (use assms(1-4) in auto)
  ultimately show ?thesis using assms(2) by (auto simp: zip_map1 case_prod_unfold o_def)
qed

lemma supervise_ended:
  assumes "supervise dur S starts True stops = (Ended res, evs, ns, S')"
  obtains regs out err where "Start dur S starts = (evs, regs, Some out)" "Stop regs stops = (ns, S', Some err)"
    "run_end_of (Over out) = Ended res"
  using assms by (auto simp: supervise_def run_end_of_def split: option.splits prod.splits)


definition sample_starts :: "start_oracle list" where
  "sample_starts = replicate 2 \<lparr>so_start = None, so_begin = 0, so_polls = [sample_healthy]\<rparr>"

definition sample_stops :: "stop_oracle list" where
  "sample_stops = replicate 2 \<lparr>st_race = ExitsInTime None, st_watch_ends = True\<rparr>"


end
